(* ===== verification/Prelude.thy ===== *)
theory Prelude
  imports Main "HOL-Library.Word" "HOL-Library.AList" "HOL-Library.Multiset"
begin

unbundle bit_operations_syntax

section \<open>Prelude: the parts of Go and its library the components share\<close>

text \<open>
  Go values as HOL values. A Go \<^verbatim>\<open>int\<close> that is only compared, or that counts
  something bounded, is an \<^typ>\<open>int\<close>; a counter the code lets run is a \<^typ>\<open>64 word\<close> or
  \<^typ>\<open>32 word\<close>, read with \<open>sint\<close>. A Go string is its bytes (\<^typ>\<open>string\<close>). A Go map
  that the code iterates over is an association list with distinct keys in some order
  (Go leaves the order open, so statements hold for every order); a map that is only read
  and written by key is a partial function.

  The theory holds the hash function of \<^verbatim>\<open>hash/fnv\<close>, the decimal printer of
  \<^verbatim>\<open>strconv\<close>, and lemmas on lists, association lists and words that several
  components use.
\<close>

named_theorems go_defs \<open>definitions of operations, for unfolding\<close>
named_theorems frame \<open>what an operation leaves unchanged\<close>

type_synonym goint = "64 word"
type_synonym bytes = "8 word list"
type_synonym Tgid = int
type_synonym ('k, 'v) gomap = "('k \<times> 'v) list"

abbreviation keys :: "('k, 'v) gomap \<Rightarrow> 'k list" where
  "keys m \<equiv> map fst m"

text \<open>A map is well formed when each key occurs once.\<close>

abbreviation wf_map :: "('k, 'v) gomap \<Rightarrow> bool" where
  "wf_map m \<equiv> distinct (keys m)"

subsection \<open>hash/fnv: the 32-bit FNV-1a hash\<close>

definition fnv_offset32 :: "32 word" where
  "fnv_offset32 = 2166136261"

definition fnv_prime32 :: "32 word" where
  "fnv_prime32 = 16777619"

definition fnv32a_step :: "char \<Rightarrow> 32 word \<Rightarrow> 32 word" where
  "fnv32a_step b h = (h XOR of_char b) * fnv_prime32"

definition fnv32a :: "string \<Rightarrow> 32 word" where
  "fnv32a s = fold fnv32a_step s fnv_offset32"

subsection \<open>unicode/utf8: decoding the first rune of a string\<close>

abbreviation RuneError :: nat where
  "RuneError \<equiv> 65533"

definition byte_of :: "char \<Rightarrow> nat" where
  "byte_of c = of_char c"

definition cont :: "char \<Rightarrow> bool" where
  "cont c = (128 \<le> byte_of c \<and> byte_of c \<le> 191)"

text \<open>
  The first rune and its width in bytes, as \<^verbatim>\<open>utf8.DecodeRuneInString\<close> gives them: an
  empty string has width 0, an invalid encoding is \<open>RuneError\<close> with width 1.
\<close>

definition second_ok :: "nat \<Rightarrow> nat \<Rightarrow> bool" where
  "second_ok b0 b1 =
     (if b0 = 224 then 160 \<le> b1 \<and> b1 \<le> 191
      else if b0 = 237 then 128 \<le> b1 \<and> b1 \<le> 159
      else if b0 = 240 then 144 \<le> b1 \<and> b1 \<le> 191
      else if b0 = 244 then 128 \<le> b1 \<and> b1 \<le> 143
      else 128 \<le> b1 \<and> b1 \<le> 191)"

fun DecodeRune :: "string \<Rightarrow> nat \<times> nat" where
  "DecodeRune [] = (RuneError, 0)"
| "DecodeRune (c0 # cs) =
     (let b0 = byte_of c0 in
      if b0 < 128 then (b0, 1)
      else if 194 \<le> b0 \<and> b0 \<le> 223 then
        (case cs of
           c1 # _ \<Rightarrow> if cont c1 then ((b0 - 192) * 64 + (byte_of c1 - 128), 2) else (RuneError, 1)
         | _ \<Rightarrow> (RuneError, 1))
      else if 224 \<le> b0 \<and> b0 \<le> 239 then
        (case cs of
           c1 # c2 # _ \<Rightarrow>
             if second_ok b0 (byte_of c1) \<and> cont c2
             then ((b0 - 224) * 4096 + (byte_of c1 - 128) * 64 + (byte_of c2 - 128), 3) else (RuneError, 1)
         | _ \<Rightarrow> (RuneError, 1))
      else if 240 \<le> b0 \<and> b0 \<le> 244 then
        (case cs of
           c1 # c2 # c3 # _ \<Rightarrow>
             if second_ok b0 (byte_of c1) \<and> cont c2 \<and> cont c3
             then ((b0 - 240) * 262144 + (byte_of c1 - 128) * 4096 + (byte_of c2 - 128) * 64
                   + (byte_of c3 - 128), 4) else (RuneError, 1)
         | _ \<Rightarrow> (RuneError, 1))
      else (RuneError, 1))"

lemma DecodeRune_width:
  "s \<noteq> [] \<Longrightarrow> 1 \<le> snd (DecodeRune s) \<and> snd (DecodeRune s) \<le> length s"
  by (cases s) (auto simp: Let_def split: list.splits)

subsection \<open>Facts on the hash\<close>

lemma fnv32a_append: "fnv32a (s @ t) = fold fnv32a_step t (fnv32a s)"
  by (simp add: fnv32a_def)

subsection \<open>Lists\<close>

lemma count_list_fold:
  "fold (\<lambda>x m. m(x := m x + (1::int))) xs m = (\<lambda>y. m y + int (count_list xs y))"
  by (induction xs arbitrary: m) (auto simp: fun_eq_iff)

lemma count_list_length_ge: "count_list xs x \<le> length xs"
  by (rule count_le_length)

lemma count_list_list_update:
  assumes "i < length xs"
  shows "count_list (xs[i := y]) z =
    count_list xs z + (if z = y then 1 else 0) - (if z = xs ! i then 1 else 0)"
  using assms
proof (induction xs arbitrary: i)
  case Nil
  then show ?case by simp
next
  case (Cons x xs)
  show ?case
  proof (cases i)
    case 0
    then show ?thesis by simp
  next
    case (Suc j)
    with Cons.prems have j: "j < length xs" by simp
    have "z = xs ! j \<Longrightarrow> 0 < count_list xs z"
      using j by (auto simp: count_list_0_iff intro: gr0I)
    with Suc Cons.IH [OF j] show ?thesis by auto
  qed
qed

lemma sum_count_list_in:
  assumes "finite A" and "set xs \<subseteq> A"
  shows "(\<Sum>a\<in>A. count_list xs a) = length xs"
  using assms
proof (induction xs)
  case Nil
  then show ?case by simp
next
  case (Cons x xs)
  have "(\<Sum>a\<in>A. count_list (x # xs) a) = (\<Sum>a\<in>A. count_list xs a + (if a = x then 1 else 0))"
    by (rule sum.cong) auto
  also have "\<dots> = length xs + 1"
    using Cons by (simp add: sum.distrib)
  finally show ?case by simp
qed

lemma distinct_mset_sub:
  assumes "mset xs \<subseteq># mset ys" and "distinct ys"
  shows "distinct xs"
proof -
  have "count (mset xs) a = (if a \<in> set xs then 1 else 0)" for a
  proof -
    have "count (mset xs) a \<le> count (mset ys) a" using assms(1) by (rule mset_subset_eq_count)
    also have "\<dots> \<le> 1" using assms(2) by (simp add: distinct_count_atmost_1)
    finally show ?thesis by (cases "a \<in> set xs") (auto simp: le_Suc_eq)
  qed
  then show ?thesis by (simp add: distinct_count_atmost_1)
qed

subsection \<open>Association lists\<close>

lemma map_of_None_keys: "map_of m k = None \<longleftrightarrow> k \<notin> set (keys m)"
  by (auto simp: map_of_eq_None_iff)

lemma map_of_Some_keys: "map_of m k = Some v \<Longrightarrow> k \<in> set (keys m)"
  by (metis domI dom_map_of_conv_image_fst set_map)

lemma wf_map_delete: "wf_map m \<Longrightarrow> wf_map (AList.delete k m)"
  by (simp add: distinct_delete)

lemma keys_delete: "set (keys (AList.delete k m)) = set (keys m) - {k}"
  by (simp add: delete_keys)

subsection \<open>Words\<close>

lemma sint_add_one:
  fixes x :: "64 word"
  assumes "sint x < 2 ^ 63 - 1"
  shows "sint (x + 1) = sint x + 1"
proof -
  have "- (2 ^ 63) \<le> sint x"
    using sint_greater_eq [of x] by simp
  with assms show ?thesis
    by (simp add: sint_word_ariths signed_take_bit_int_eq_self)
qed


lemma sint_small:
  fixes v :: "64 word"
  assumes "unat v < 2 ^ 63"
  shows "sint v = int (unat v)"
proof -
  have "int (unat v) < int (2 ^ 63)" using assms by (simp only: of_nat_less_iff)
  then have "uint v < 2 ^ 63" by simp
  moreover have "- (2 ^ 63) \<le> uint v" by (rule order_trans [of _ 0]) simp_all
  ultimately show ?thesis by (simp add: sint_uint signed_take_bit_int_eq_self)
qed

subsection \<open>Loops that may stop\<close>

text \<open>A Go \<^verbatim>\<open>for ... range\<close> loop over a list whose body may stop the program: the first
  error is the result.\<close>

fun each :: "('a \<Rightarrow> 's \<Rightarrow> 'e + 's) \<Rightarrow> 'a list \<Rightarrow> 's \<Rightarrow> 'e + 's" where
  "each f [] s = Inr s"
| "each f (x # xs) s = (case f x s of Inl e \<Rightarrow> Inl e | Inr s' \<Rightarrow> each f xs s')"

lemma each_append:
  "each f (xs @ ys) s = (case each f xs s of Inl e \<Rightarrow> Inl e | Inr s' \<Rightarrow> each f ys s')"
  by (induction xs arbitrary: s) (auto split: sum.split)

lemma each_total: "each (\<lambda>x s. Inr (f x s)) xs s = Inr (fold f xs s)"
  by (induction xs arbitrary: s) auto

lemma each_in_range:
  "(\<And>x s. x \<in> set xs \<Longrightarrow> f x s = Inr (g x s)) \<Longrightarrow> each f xs s = Inr (fold g xs s)"
  by (induction xs arbitrary: s) auto

lemma each_map: "each f (map h xs) s = each (\<lambda>x. f (h x)) xs s"
  by (induction xs arbitrary: s) (auto split: sum.split)

lemma each_invariant:
  assumes "each f xs s = Inr s'" and "P s"
    and "\<And>x s s'. x \<in> set xs \<Longrightarrow> P s \<Longrightarrow> f x s = Inr s' \<Longrightarrow> P s'"
  shows "P s'"
  using assms
proof (induction xs arbitrary: s)
  case (Cons x xs)
  from Cons.prems(1) obtain s1 where s1: "f x s = Inr s1" "each f xs s1 = Inr s'"
    by (auto split: sum.splits)
  show ?case
    by (rule Cons.IH [OF s1(2)]) (use Cons.prems s1 in auto)
qed simp

lemma each_succeeds:
  assumes "P [] s" and "\<And>ys x zs s. xs = ys @ x # zs \<Longrightarrow> P ys s \<Longrightarrow> \<exists>s'. f x s = Inr s' \<and> P (ys @ [x]) s'"
  shows "\<exists>s'. each f xs s = Inr s' \<and> P xs s'"
  using assms
proof (induction xs rule: rev_induct)
  case (snoc x xs)
  have "\<exists>s'. each f xs s = Inr s' \<and> P xs s'"
    by (rule snoc.IH [OF snoc.prems(1)]) (use snoc.prems(2) in auto)
  then obtain s' where "each f xs s = Inr s'" "P xs s'" by blast
  with snoc.prems(2) [of xs x "[]" s'] show ?case by (auto simp: each_append)
qed simp

subsection \<open>Decimal numbers\<close>

text \<open>\<^verbatim>\<open>strconv.Itoa\<close>.\<close>

definition digit :: "nat \<Rightarrow> char" where
  "digit n = char_of (48 + n)"

fun digits :: "nat \<Rightarrow> string" where
  "digits n = (if n < 10 then [digit n] else digits (n div 10) @ [digit (n mod 10)])"

declare digits.simps [simp del]

definition Itoa :: "int \<Rightarrow> string" where
  "Itoa i = (if i < 0 then CHR ''-'' # digits (nat (- i)) else digits (nat i))"

definition value_of_digits :: "string \<Rightarrow> nat" where
  "value_of_digits s = foldl (\<lambda>v c. 10 * v + (of_char c - 48)) 0 s"

lemma digit_chars:
  "digit 0 = CHR ''0''" "digit 1 = CHR ''1''" "digit 2 = CHR ''2''" "digit 3 = CHR ''3''" "digit 4 = CHR ''4''"
  "digit 5 = CHR ''5''" "digit 6 = CHR ''6''" "digit 7 = CHR ''7''" "digit 8 = CHR ''8''" "digit 9 = CHR ''9''"
  by (simp_all add: digit_def char_of_def bit_Suc_0_iff)

lemma of_char_digit: "n < 10 \<Longrightarrow> of_char (digit n) = (48 + n :: nat)"
  by (simp add: digit_def)

lemma value_of_digits_digits: "value_of_digits (digits n) = n"
proof (induction n rule: digits.induct)
  case (1 n)
  show ?case
  proof (cases "n < 10")
    case True
    then show ?thesis by (simp add: digits.simps [of n] value_of_digits_def of_char_digit)
  next
    case False
    with 1 have "value_of_digits (digits (n div 10)) = n div 10" by simp
    with False show ?thesis
      by (subst digits.simps) (simp add: value_of_digits_def of_char_digit)
  qed
qed

lemma digits_no_minus: "CHR ''-'' \<notin> set (digits n)"
proof (induction n rule: digits.induct)
  case (1 n)
  have "CHR ''-'' \<noteq> digit k" if "k < 10" for k
  proof
    assume "CHR ''-'' = digit k"
    then have "(of_char (CHR ''-'') :: nat) = 48 + k" using of_char_digit [OF that] by simp
    then show False by simp
  qed
  with 1 show ?case by (subst digits.simps) auto
qed

lemma digits_nonempty [simp]: "digits n \<noteq> []"
  by (subst digits.simps) simp

lemma digits_inject [simp]: "digits m = digits n \<longleftrightarrow> m = n"
  by (metis value_of_digits_digits)

lemma digits_not_minus: "digits n \<noteq> CHR ''-'' # s"
  using digits_no_minus [of n] by auto

lemma Itoa_inject [simp]: "Itoa i = Itoa j \<longleftrightarrow> i = j"
  using digits_not_minus [symmetric] by (auto simp: Itoa_def digits_not_minus split: if_splits)

lemma digits_split:
  assumes "digits m @ CHR ''-'' # s = digits n @ CHR ''-'' # t"
  shows "m = n \<and> s = t"
proof -
  have "takeWhile (\<lambda>c. c \<noteq> CHR ''-'') (digits k @ CHR ''-'' # u) = digits k" for k u
    using digits_no_minus [of k] by (subst takeWhile_append2) auto
  with assms have "digits m = digits n" by metis
  with assms show ?thesis by simp
qed

lemma Itoa_split:
  assumes "Itoa i @ CHR ''-'' # s = Itoa j @ CHR ''-'' # t"
  shows "i = j \<and> s = t"
proof -
  have no: "digits n @ u \<noteq> CHR ''-'' # v" for n u v
    using digits_no_minus [of n] by (cases "digits n") auto
  show ?thesis
  proof (cases "i < 0")
    case True
    with assms no [symmetric] have "j < 0" "digits (nat (- i)) @ CHR ''-'' # s = digits (nat (- j)) @ CHR ''-'' # t"
      by (auto simp: Itoa_def split: if_splits)
    from True this(1) digits_split [OF this(2)] show ?thesis by auto
  next
    case False
    with assms no have "\<not> j < 0" "digits (nat i) @ CHR ''-'' # s = digits (nat j) @ CHR ''-'' # t"
      by (auto simp: Itoa_def split: if_splits)
    from False this(1) digits_split [OF this(2)] show ?thesis by auto
  qed
qed

subsection \<open>Counting in an updated list\<close>

lemma length_filter_update:
  assumes "i < length xs"
  shows "length (filter Q (xs[i := x])) + (if Q (xs ! i) then 1 else 0) = length (filter Q xs) + (if Q x then 1 else 0)"
proof -
  have "xs = take i xs @ xs ! i # drop (Suc i) xs" using assms by (rule id_take_nth_drop)
  then have "length (filter Q xs) = length (filter Q (take i xs @ xs ! i # drop (Suc i) xs))" by simp
  moreover have "filter Q (xs[i := x]) = filter Q (take i xs @ x # drop (Suc i) xs)"
    using assms by (simp add: upd_conv_take_nth_drop)
  ultimately show ?thesis by simp
qed

end
