(* ===== verification/Go_Json.thy ===== *)
theory Go_Json
  imports Prelude "HOL-Library.List_Lexorder" "HOL-Library.Char_ord"
begin

section \<open>Text formats of the Go library: strconv and encoding/json\<close>

text \<open>
  The code stores configurations and lists of entries as JSON text and reads numbers from command
  lines. The theory models the parts of \<^verbatim>\<open>strconv\<close> and \<^verbatim>\<open>encoding/json\<close> (Go 1.22) that it uses:
  \<open>ParseInt\<close> with its two kinds of error; \<open>Marshal\<close> as a compact printer of a value, with the
  escapes of strings and the replacement of invalid UTF-8; \<open>Unmarshal\<close> as a lexer, the state
  machine of the package's scanner with its stack and its limit on nesting, and decoders of numbers,
  strings, slices, arrays, maps and structs. Integers of JSON text are read as 64-bit integers.
\<close>

subsection \<open>strconv.ParseInt and Atoi\<close>

datatype num_error = ErrSyntax | ErrRange

abbreviation int64 :: "int \<Rightarrow> bool" where
  "int64 i \<equiv> - (2 ^ 63) \<le> i \<and> i < 2 ^ 63"

definition is_digit :: "char \<Rightarrow> bool" where
  "is_digit c = (48 \<le> byte_of c \<and> byte_of c \<le> 57)"

definition all_digits :: "string \<Rightarrow> bool" where
  "all_digits s = (s \<noteq> [] \<and> list_all is_digit s)"

definition clamp :: "bool \<Rightarrow> int \<Rightarrow> int \<times> num_error option" where
  "clamp neg n =
     (if neg then if n \<le> 2 ^ 63 then (- n, None) else (- (2 ^ 63), Some ErrRange)
      else if n < 2 ^ 63 then (n, None) else (2 ^ 63 - 1, Some ErrRange))"

text \<open>Base 10 and 64 bits, as \<open>strconv.Atoi\<close> too: a value out of range is clamped, any other text
  gives 0, with an error in both cases.\<close>

definition ParseInt :: "string \<Rightarrow> int \<times> num_error option" where
  "ParseInt s =
     (case s of [] \<Rightarrow> (0, Some ErrSyntax)
      | c # t \<Rightarrow>
          if c = CHR ''-'' then if all_digits t then clamp True (int (value_of_digits t)) else (0, Some ErrSyntax)
          else if c = CHR ''+'' then if all_digits t then clamp False (int (value_of_digits t)) else (0, Some ErrSyntax)
          else if all_digits s then clamp False (int (value_of_digits s)) else (0, Some ErrSyntax))"

definition ParseUint :: "string \<Rightarrow> int \<times> num_error option" where
  "ParseUint s = (if all_digits s
     then if int (value_of_digits s) < 2 ^ 64 then (int (value_of_digits s), None) else (2 ^ 64 - 1, Some ErrRange)
     else (0, Some ErrSyntax))"

lemma is_digit_digit: "n < 10 \<Longrightarrow> is_digit (digit n)"
  by (simp add: is_digit_def byte_of_def of_char_digit)

lemma all_digits_digits [simp]: "all_digits (digits n)"
proof (induction n rule: digits.induct)
  case (1 n)
  then show ?case
    by (subst digits.simps) (auto simp: all_digits_def is_digit_digit)
qed

lemma digits_Cons_digit: "digits n = c # s \<Longrightarrow> is_digit c"
  using all_digits_digits [of n] by (simp add: all_digits_def)

lemma ParseInt_Itoa: "int64 i \<Longrightarrow> ParseInt (Itoa i) = (i, None)"
proof (cases "i < 0")
  case True
  assume "int64 i"
  with True show ?thesis by (simp add: ParseInt_def Itoa_def value_of_digits_digits clamp_def)
next
  case False
  assume i: "int64 i"
  obtain c s where d: "digits (nat i) = c # s" by (cases "digits (nat i)") auto
  from digits_Cons_digit [OF d] have c: "c \<noteq> CHR ''-''" "c \<noteq> CHR ''+''"
    by (auto simp: is_digit_def byte_of_def)
  with False c d i show ?thesis
    using all_digits_digits [of "nat i"] value_of_digits_digits [of "nat i"]
    by (simp add: ParseInt_def Itoa_def clamp_def)
qed

lemma ParseUint_digits: "int n < 2 ^ 64 \<Longrightarrow> ParseUint (digits n) = (int n, None)"
  by (simp add: ParseUint_def value_of_digits_digits)

text \<open>Every result is a 64-bit integer, and one without an error is what the text says.\<close>

lemma ParseInt_range: "int64 (fst (ParseInt s))"
  by (auto simp: ParseInt_def clamp_def split: list.split)

subsection \<open>unicode/utf8: encoding a rune\<close>

definition is_surrogate :: "nat \<Rightarrow> bool" where
  "is_surrogate r = (55296 \<le> r \<and> r < 57344)"

definition byte :: "nat \<Rightarrow> char" where
  "byte n = char_of n"

definition EncodeRune :: "nat \<Rightarrow> string" where
  "EncodeRune r =
     (if r < 128 then [byte r]
      else if r < 2048 then [byte (192 + r div 64), byte (128 + r mod 64)]
      else if is_surrogate r \<or> 1114111 < r then [byte 239, byte 191, byte 189]
      else if r < 65536 then [byte (224 + r div 4096), byte (128 + r div 64 mod 64), byte (128 + r mod 64)]
      else [byte (240 + r div 262144), byte (128 + r div 4096 mod 64), byte (128 + r div 64 mod 64),
            byte (128 + r mod 64)])"

lemma DecodeRune_shortens: "s \<noteq> [] \<Longrightarrow> (r, w) = DecodeRune s \<Longrightarrow> length s - w < length s"
  using DecodeRune_width [of s] by (cases "DecodeRune s") auto

text \<open>A string is valid UTF-8 when no byte of it decodes to an error of width 1.\<close>

function to_valid :: "string \<Rightarrow> string" where
  "to_valid s =
     (if s = [] then [] else
        (let (r, w) = DecodeRune s in EncodeRune r @ to_valid (drop w s)))"
  by pat_completeness auto
termination
  by (relation "measure length") (auto intro: DecodeRune_shortens)

declare to_valid.simps [simp del]

function valid_utf8 :: "string \<Rightarrow> bool" where
  "valid_utf8 s =
     (if s = [] then True else
        (let (r, w) = DecodeRune s in \<not> (r = RuneError \<and> w = 1) \<and> valid_utf8 (drop w s)))"
  by pat_completeness auto
termination
  by (relation "measure length") (auto intro: DecodeRune_shortens)

declare valid_utf8.simps [simp del]

lemma byte_byte_of [simp]: "byte (byte_of c) = c"
  by (simp add: byte_def byte_of_def)

lemma byte_of_byte [simp]: "n < 256 \<Longrightarrow> byte_of (byte n) = n"
  by (simp add: byte_def byte_of_def)

lemma byte_of_less [simp]: "byte_of c < 256"
  by (simp add: byte_of_def)

lemma byte_of_inject [simp]: "byte_of c = byte_of d \<longleftrightarrow> c = d"
  by (simp add: byte_of_def)

lemma byteI: "n = byte_of c \<Longrightarrow> byte n = c"
  by simp

text \<open>The four shapes of the beginning of a string.\<close>

lemma DecodeRune_cases:
  assumes "s \<noteq> []"
  obtains (ascii) c cs where "s = c # cs" "byte_of c < 128" "DecodeRune s = (byte_of c, 1)"
  | (two) c d cs where "s = c # d # cs" "194 \<le> byte_of c" "byte_of c \<le> 223" "cont d"
      "DecodeRune s = ((byte_of c - 192) * 64 + (byte_of d - 128), 2)"
  | (three) c d e cs where "s = c # d # e # cs" "224 \<le> byte_of c" "byte_of c \<le> 239"
      "second_ok (byte_of c) (byte_of d)" "cont e"
      "DecodeRune s = ((byte_of c - 224) * 4096 + (byte_of d - 128) * 64 + (byte_of e - 128), 3)"
  | (four) c d e f cs where "s = c # d # e # f # cs" "240 \<le> byte_of c" "byte_of c \<le> 244"
      "second_ok (byte_of c) (byte_of d)" "cont e" "cont f"
      "DecodeRune s = ((byte_of c - 240) * 262144 + (byte_of d - 128) * 4096 + (byte_of e - 128) * 64 + (byte_of f - 128), 4)"
  | (bad) c cs where "s = c # cs" "128 \<le> byte_of c" "DecodeRune s = (RuneError, 1)"
proof -
  obtain c cs where s: "s = c # cs" using assms by (cases s) auto
  consider "byte_of c < 128" | "128 \<le> byte_of c" "byte_of c < 194 \<or> 244 < byte_of c"
    | "194 \<le> byte_of c" "byte_of c \<le> 223" | "224 \<le> byte_of c" "byte_of c \<le> 239"
    | "240 \<le> byte_of c" "byte_of c \<le> 244" by linarith
  then show thesis
  proof cases
    case 1
    with s ascii show thesis by simp
  next
    case 2
    with s bad show thesis by auto
  next
    case 3
    show thesis
    proof (cases "DecodeRune s = (RuneError, 1)")
      case True
      with s 3 bad show thesis by auto
    next
      case False
      with s 3 two show thesis by (auto simp: Let_def split: list.splits if_splits)
    qed
  next
    case 4
    show thesis
    proof (cases "DecodeRune s = (RuneError, 1)")
      case True
      with s 4 bad show thesis by auto
    next
      case False
      with s 4 three show thesis by (auto simp: Let_def split: list.splits if_splits)
    qed
  next
    case 5
    show thesis
    proof (cases "DecodeRune s = (RuneError, 1)")
      case True
      with s 5 bad show thesis by auto
    next
      case False
      with s 5 four show thesis by (auto simp: Let_def split: list.splits if_splits)
    qed
  qed
qed

lemma cont_bounds: "cont c \<Longrightarrow> 128 \<le> byte_of c \<and> byte_of c \<le> 191"
  by (simp add: cont_def)

lemma second_ok_bounds: "second_ok b0 b1 \<Longrightarrow> 128 \<le> b1 \<and> b1 \<le> 191"
  by (auto simp: second_ok_def split: if_splits)

lemma div_mod_step: "b < (64::nat) \<Longrightarrow> (a * 64 + b) div 64 = a \<and> (a * 64 + b) mod 64 = b"
  by simp

lemma EncodeRune_two:
  assumes "194 \<le> c" "c \<le> 223" "128 \<le> d" "d \<le> 191"
  shows "EncodeRune ((c - 192) * 64 + (d - 128)) = [byte c, byte d]"
proof -
  define r where "r = (c - 192) * 64 + (d - 128)"
  have "r div 64 = c - 192" "r mod 64 = d - 128"
    using assms div_mod_step [of "d - 128" "c - 192"] by (auto simp: r_def)
  moreover have "128 \<le> r" "r < 2048" using assms by (auto simp: r_def)
  ultimately show ?thesis using assms by (simp add: EncodeRune_def flip: r_def)
qed

lemma EncodeRune_three:
  assumes "224 \<le> c" "c \<le> 239" "second_ok c d" "128 \<le> e" "e \<le> 191"
  shows "EncodeRune ((c - 224) * 4096 + (d - 128) * 64 + (e - 128)) = [byte c, byte d, byte e]"
proof -
  define r where "r = (c - 224) * 4096 + (d - 128) * 64 + (e - 128)"
  have d: "128 \<le> d" "d \<le> 191" using second_ok_bounds [OF assms(3)] by auto
  have r: "r = ((c - 224) * 64 + (d - 128)) * 64 + (e - 128)" by (simp add: r_def algebra_simps)
  have q: "r div 64 = (c - 224) * 64 + (d - 128)" "r mod 64 = e - 128"
    using assms(4,5) div_mod_step [of "e - 128" "(c - 224) * 64 + (d - 128)"] by (auto simp: r)
  have q2: "r div 64 div 64 = c - 224" "r div 64 mod 64 = d - 128"
    unfolding q using d div_mod_step [of "d - 128" "c - 224"] by auto
  have "r div 4096 = c - 224" using q2(1) div_mult2_eq [of r 64 64] by simp
  moreover have "2048 \<le> r" "r < 65536" "\<not> is_surrogate r"
    using assms d by (auto simp: r_def is_surrogate_def second_ok_def split: if_splits)
  ultimately show ?thesis using q(2) q2(2) assms d by (simp add: EncodeRune_def flip: r_def)
qed

lemma EncodeRune_four:
  assumes "240 \<le> c" "c \<le> 244" "second_ok c d" "128 \<le> e" "e \<le> 191" "128 \<le> f" "f \<le> 191"
  shows "EncodeRune ((c - 240) * 262144 + (d - 128) * 4096 + (e - 128) * 64 + (f - 128)) = [byte c, byte d, byte e, byte f]"
proof -
  define r where "r = (c - 240) * 262144 + (d - 128) * 4096 + (e - 128) * 64 + (f - 128)"
  have d: "128 \<le> d" "d \<le> 191" using second_ok_bounds [OF assms(3)] by auto
  have r: "r = (((c - 240) * 64 + (d - 128)) * 64 + (e - 128)) * 64 + (f - 128)" by (simp add: r_def algebra_simps)
  have q: "r div 64 = ((c - 240) * 64 + (d - 128)) * 64 + (e - 128)" "r mod 64 = f - 128"
    using assms(6,7) div_mod_step [of "f - 128" "((c - 240) * 64 + (d - 128)) * 64 + (e - 128)"] by (auto simp: r)
  have q2: "r div 64 div 64 = (c - 240) * 64 + (d - 128)" "r div 64 mod 64 = e - 128"
    unfolding q using assms(4,5) div_mod_step [of "e - 128" "(c - 240) * 64 + (d - 128)"] by auto
  have q3: "r div 64 div 64 div 64 = c - 240" "r div 64 div 64 mod 64 = d - 128"
    unfolding q2 using d div_mod_step [of "d - 128" "c - 240"] by auto
  have "r div 262144 = c - 240" "r div 4096 mod 64 = d - 128"
    using q3 div_mult2_eq [of r 64 64] div_mult2_eq [of r 4096 64] by simp_all
  moreover have "65536 \<le> r" "r \<le> 1114111" "\<not> is_surrogate r"
    using assms d by (auto simp: r_def is_surrogate_def second_ok_def split: if_splits)
  ultimately show ?thesis using q(2) q2(2) assms d by (simp add: EncodeRune_def flip: r_def)
qed

text \<open>Decoding and encoding copies a valid prefix; more bytes behind it do not change its rune.\<close>

lemma rune_copied:
  assumes "s \<noteq> []" and "DecodeRune s = (r, w)" and "\<not> (r = RuneError \<and> w = 1)"
  shows "EncodeRune r = take w s \<and> DecodeRune (take w s @ t) = (r, w)"
  using assms(1)
proof (cases rule: DecodeRune_cases)
  case (ascii c cs)
  with assms(2) show ?thesis by (auto simp: EncodeRune_def Let_def)
next
  case (two c d cs)
  with assms(2) cont_bounds [OF two(4)] EncodeRune_two [of "byte_of c" "byte_of d"] show ?thesis
    by (auto simp: Let_def)
next
  case (three c d e cs)
  with assms(2) cont_bounds [OF three(5)] EncodeRune_three [of "byte_of c" "byte_of d" "byte_of e"] show ?thesis
    by (auto simp: Let_def numeral_3_eq_3)
next
  case (four c d e f cs)
  from four(7) assms(2) have r: "r = (byte_of c - 240) * 262144 + (byte_of d - 128) * 4096 + (byte_of e - 128) * 64 + (byte_of f - 128)"
    and w: "w = 4" by (simp_all del: DecodeRune.simps)
  have "EncodeRune r = [c, d, e, f]"
    unfolding r by (subst EncodeRune_four) (use four cont_bounds in simp_all)
  moreover have "DecodeRune (c # d # e # f # t) = (r, w)"
    unfolding r w using four(2-6) by (simp add: Let_def)
  ultimately show ?thesis by (simp add: four(1) w del: DecodeRune.simps)
next
  case (bad c cs)
  with assms show ?thesis by simp
qed

lemma to_valid_valid: "valid_utf8 s \<Longrightarrow> to_valid s = s"
proof (induction s rule: to_valid.induct)
  case (1 s)
  show ?case
  proof (cases "s = []")
    case False
    obtain r w where d: "DecodeRune s = (r, w)" by force
    from 1 False d have "valid_utf8 (drop w s)" "\<not> (r = RuneError \<and> w = 1)"
      by (auto simp: valid_utf8.simps [of s])
    with 1(1) [OF False d [symmetric] refl] False d rune_copied [OF False d] show ?thesis
      by (simp add: to_valid.simps [of s])
  qed (simp add: to_valid.simps)
qed

subsection \<open>Strings in JSON text\<close>

definition hex :: "nat \<Rightarrow> char" where
  "hex n = (''0123456789abcdef'' ! n)"

text \<open>The body of a quoted string, as \<^verbatim>\<open>appendString\<close> writes it with HTML escaping on.\<close>

definition html_safe :: "char \<Rightarrow> bool" where
  "html_safe c = (32 \<le> byte_of c \<and> byte_of c < 128 \<and> c \<notin> {CHR 0x22, CHR 0x5C, CHR ''<'', CHR ''>'', CHR ''&''})"

definition escape :: "char \<Rightarrow> string" where
  "escape c =
     (if html_safe c then [c]
      else if c = CHR 0x5C \<or> c = CHR 0x22 then [CHR 0x5C, c]
      else if c = CHR 0x08 then CHR 0x5C # ''b''
      else if c = CHR 0x0C then CHR 0x5C # ''f''
      else if c = CHR 0x0A then CHR 0x5C # ''n''
      else if c = CHR 0x0D then CHR 0x5C # ''r''
      else if c = CHR 0x09 then CHR 0x5C # ''t''
      else CHR 0x5C # ''u00'' @ [hex (byte_of c div 16), hex (byte_of c mod 16)])"

function quote_body :: "string \<Rightarrow> string" where
  "quote_body s =
     (case s of [] \<Rightarrow> []
      | c # cs \<Rightarrow>
          if byte_of c < 128 then escape c @ quote_body cs
          else (let (r, w) = DecodeRune s in
            (if r = RuneError \<and> w = 1 then CHR 0x5C # ''ufffd''
             else if r = 8232 \<or> r = 8233 then CHR 0x5C # ''u202'' @ [hex (r mod 16)]
             else take w s) @ quote_body (drop w s)))"
  by pat_completeness auto
termination
  by (relation "measure length") (auto dest!: DecodeRune_shortens [rotated] simp del: DecodeRune.simps split: list.splits)

declare quote_body.simps [simp del]

definition quote :: "string \<Rightarrow> string" where
  "quote s = CHR 0x22 # quote_body s @ [CHR 0x22]"

text \<open>Reading a quoted string, from behind its opening quote: the scanner accepts the text and
  \<^verbatim>\<open>unquoteBytes\<close> gives the bytes. The result also has the rest of the text.\<close>

definition hex_value :: "char \<Rightarrow> nat option" where
  "hex_value c =
     (let b = byte_of c in
      if 48 \<le> b \<and> b \<le> 57 then Some (b - 48)
      else if 97 \<le> b \<and> b \<le> 102 then Some (b - 87)
      else if 65 \<le> b \<and> b \<le> 70 then Some (b - 55)
      else None)"

fun hex4 :: "string \<Rightarrow> nat option" where
  "hex4 (a # b # c # d # _) = (case (hex_value a, hex_value b, hex_value c, hex_value d) of
      (Some w, Some x, Some y, Some z) \<Rightarrow> Some (((w * 16 + x) * 16 + y) * 16 + z)
    | _ \<Rightarrow> None)"
| "hex4 _ = None"

text \<open>The rune of an escape, from behind its \<^verbatim>\<open>u\<close>, and how many bytes it takes there: a pair of
  surrogates is one rune, a surrogate that has no partner is an error rune.\<close>

definition unescape_rune :: "string \<Rightarrow> (nat \<times> nat) option" where
  "unescape_rune s = (case hex4 s of None \<Rightarrow> None
    | Some r \<Rightarrow>
        if is_surrogate r then
          (case (if take 2 (drop 4 s) = [CHR 0x5C, CHR ''u''] then hex4 (drop 6 s) else None) of
             Some r1 \<Rightarrow> if r < 56320 \<and> 56320 \<le> r1 \<and> r1 < 57344
               then Some ((r - 55296) * 1024 + (r1 - 56320) + 65536, 10) else Some (RuneError, 4)
           | None \<Rightarrow> Some (RuneError, 4))
        else Some (r, 4))"

definition short_escape :: "char \<Rightarrow> char option" where
  "short_escape c =
     (if c \<in> {CHR 0x22, CHR 0x5C, CHR ''/''} then Some c
      else map_of [(CHR ''b'', CHR 0x08), (CHR ''f'', CHR 0x0C), (CHR ''n'', CHR 0x0A), (CHR ''r'', CHR 0x0D), (CHR ''t'', CHR 0x09)] c)"

function scan_string :: "string \<Rightarrow> (string \<times> string) option" where
  "scan_string s =
     (case s of [] \<Rightarrow> None
      | c # cs \<Rightarrow>
          if c = CHR 0x22 then Some ([], cs)
          else if c = CHR 0x5C then
            (case cs of [] \<Rightarrow> None
             | e # t \<Rightarrow>
                if e = CHR ''u'' then
                  (case unescape_rune t of None \<Rightarrow> None
                   | Some (r, n) \<Rightarrow> map_option (apfst ((@) (EncodeRune r))) (scan_string (drop n t)))
                else (case short_escape e of None \<Rightarrow> None
                   | Some d \<Rightarrow> map_option (apfst ((#) d)) (scan_string t)))
          else if byte_of c < 32 then None
          else (let (r, w) = DecodeRune s in map_option (apfst ((@) (EncodeRune r))) (scan_string (drop w s))))"
  by pat_completeness auto
termination
  by (relation "measure length") (auto dest!: DecodeRune_shortens [rotated] simp del: DecodeRune.simps split: list.splits)

declare scan_string.simps [simp del]

lemma append_one: "(@) [c] = (#) c"
  by (simp add: fun_eq_iff)

lemma scan_ascii:
  assumes "32 \<le> byte_of c" "byte_of c < 128" "c \<noteq> CHR 0x22" "c \<noteq> CHR 0x5C"
  shows "scan_string (c # t) = map_option (apfst ((#) c)) (scan_string t)"
  using assms by (simp add: scan_string.simps [of "c # t"] EncodeRune_def Let_def append_one)

lemma scan_short:
  assumes "short_escape e = Some d"
  shows "scan_string (CHR 0x5C # e # t) = map_option (apfst ((#) d)) (scan_string t)"
  using assms by (auto simp: scan_string.simps [of "CHR 0x5C # e # t"] short_escape_def split: if_splits)

lemma scan_unicode:
  assumes "hex_value a = Some x1" "hex_value b = Some x2" "hex_value c = Some x3" "hex_value d = Some x4"
    and "r = ((x1 * 16 + x2) * 16 + x3) * 16 + x4" and "\<not> is_surrogate r"
  shows "scan_string (CHR 0x5C # CHR ''u'' # a # b # c # d # t) =
    map_option (apfst ((@) (EncodeRune r))) (scan_string t)"
  using assms by (simp add: scan_string.simps [of "CHR 0x5C # CHR ''u'' # a # b # c # d # t"] unescape_rune_def)

lemma hex_value_hex: "n < 16 \<Longrightarrow> hex_value (hex n) = Some n"
  by (auto simp: hex_def hex_value_def byte_of_def less_Suc_eq eval_nat_numeral)

lemma escape_short:
  assumes "c \<in> {CHR 0x5C, CHR 0x22, CHR 0x08, CHR 0x0C, CHR 0x0A, CHR 0x0D, CHR 0x09}"
  shows "\<exists>e. escape c = [CHR 0x5C, e] \<and> short_escape e = Some c"
  using assms by (elim insertE; simp add: escape_def html_safe_def byte_of_def short_escape_def)

lemma scan_escape:
  assumes "byte_of c < 128"
  shows "scan_string (escape c @ t) = map_option (apfst ((#) c)) (scan_string t)"
proof (cases "html_safe c")
  case True
  then show ?thesis by (simp add: escape_def html_safe_def scan_ascii)
next
  case unsafe: False
  show ?thesis
  proof (cases "c \<in> {CHR 0x5C, CHR 0x22, CHR 0x08, CHR 0x0C, CHR 0x0A, CHR 0x0D, CHR 0x09}")
  case True
  from escape_short [OF this] scan_short show ?thesis by auto
next
  case False
  let ?n = "byte_of c"
  have "hex_value (hex (?n div 16)) = Some (?n div 16)" "hex_value (hex (?n mod 16)) = Some (?n mod 16)"
    using assms by (simp_all add: hex_value_hex)
  moreover have "hex_value (CHR ''0'') = Some 0" by (simp add: hex_value_def byte_of_def)
  moreover have "EncodeRune ?n = [c]" using assms by (simp add: EncodeRune_def)
  ultimately show ?thesis
    using unsafe False assms scan_unicode [of "CHR ''0''" 0 "CHR ''0''" 0 "hex (?n div 16)" "?n div 16" "hex (?n mod 16)" "?n mod 16" ?n t]
    by (simp add: escape_def is_surrogate_def append_one)
  qed
qed

text \<open>What is quoted is read back, with its invalid bytes replaced.\<close>

lemma scan_rune:
  assumes "s \<noteq> []" and "128 \<le> byte_of (hd s)" and "DecodeRune s = (r, w)"
  shows "scan_string s = map_option (apfst ((@) (EncodeRune r))) (scan_string (drop w s))"
proof -
  obtain c cs where s: "s = c # cs" using assms(1) by (cases s) auto
  with assms(2) have "c \<noteq> CHR 0x22" "c \<noteq> CHR 0x5C" "\<not> byte_of c < 32"
    by (auto simp: byte_of_def)
  with s assms(3) show ?thesis by (simp add: scan_string.simps [of "c # cs"] del: DecodeRune.simps)
qed

lemma scan_quote_body: "scan_string (quote_body s @ CHR 0x22 # t) = Some (to_valid s, t)"
proof (induction s rule: quote_body.induct)
  case (1 s)
  show ?case
  proof (cases s)
    case Nil
    then show ?thesis by (simp add: quote_body.simps to_valid.simps scan_string.simps)
  next
    case (Cons c cs)
    show ?thesis
    proof (cases "byte_of c < 128")
      case True
      with 1(1) [OF Cons] have "scan_string (quote_body cs @ CHR 0x22 # t) = Some (to_valid cs, t)" by simp
      moreover have "to_valid s = c # to_valid cs"
        using True Cons by (simp add: to_valid.simps [of "c # cs"] EncodeRune_def Let_def)
      ultimately show ?thesis using True Cons by (simp add: quote_body.simps [of "c # cs"] scan_escape)
    next
      case high: False
      obtain r w where d: "DecodeRune s = (r, w)" by force
      with 1(2) [OF Cons high] have IH: "scan_string (quote_body (drop w s) @ CHR 0x22 # t) = Some (to_valid (drop w s), t)"
        by simp
      have v: "to_valid s = EncodeRune r @ to_valid (drop w s)"
        using Cons d by (simp add: to_valid.simps [of "c # cs"] del: DecodeRune.simps)
      have q: "quote_body s = (if r = RuneError \<and> w = 1 then CHR 0x5C # ''ufffd''
             else if r = 8232 \<or> r = 8233 then CHR 0x5C # ''u202'' @ [hex (r mod 16)]
             else take w s) @ quote_body (drop w s)"
        using Cons high d by (simp add: quote_body.simps [of "c # cs"] del: DecodeRune.simps)
      let ?rest = "quote_body (drop w s) @ CHR 0x22 # t"
      have hexes: "hex_value (CHR ''f'') = Some 15" "hex_value (CHR ''d'') = Some 13"
        "hex_value (CHR ''2'') = Some 2" "hex_value (CHR ''0'') = Some 0"
        by (simp_all add: hex_value_def byte_of_def)
      consider (bad) "r = RuneError" "w = 1" | (sep) "r = 8232 \<or> r = 8233"
        | (plain) "\<not> (r = RuneError \<and> w = 1)" "r \<noteq> 8232" "r \<noteq> 8233" by blast
      then show ?thesis
      proof cases
        case bad
        with q have "quote_body s @ CHR 0x22 # t = CHR 0x5C # ''ufffd'' @ ?rest" by simp
        with IH v bad scan_unicode [OF hexes(1) hexes(1) hexes(1) hexes(2), of RuneError ?rest] show ?thesis
          by (simp add: is_surrogate_def)
      next
        case sep
        then have "hex_value (hex (r mod 16)) = Some (r mod 16)" by (simp add: hex_value_hex)
        from scan_unicode [OF hexes(3,4,3) this, of r ?rest] sep
        have "scan_string (CHR 0x5C # ''u202'' @ [hex (r mod 16)] @ ?rest) = map_option (apfst ((@) (EncodeRune r))) (scan_string ?rest)"
          by (auto simp: is_surrogate_def)
        with IH v q sep show ?thesis by auto
      next
        case plain
        have s: "s \<noteq> []" using Cons by simp
        have w: "1 \<le> w" "w \<le> length s" using DecodeRune_width [OF s] d by auto
        then have "take w s \<noteq> []" "hd (take w s @ ?rest) = c" using Cons by (auto simp: take_Cons')
        with high rune_copied [OF s d plain(1), of ?rest] scan_rune [of "take w s @ ?rest" r w] w(2)
        have "scan_string (take w s @ ?rest) = map_option (apfst ((@) (EncodeRune r))) (scan_string ?rest)" by simp
        with IH v q plain show ?thesis by auto
      qed
    qed
  qed
qed
subsection \<open>Values and their compact text\<close>

datatype jvalue =
    JNull
  | JBool bool
  | JNum string
  | JStr string
  | JArr "jvalue list"
  | JObj "(string \<times> jvalue) list"

fun commas :: "string list \<Rightarrow> string" where
  "commas [] = []"
| "commas [s] = s"
| "commas (s # t # ss) = s @ CHR '','' # commas (t # ss)"

fun print :: "jvalue \<Rightarrow> string" where
  "print JNull = ''null''"
| "print (JBool b) = (if b then ''true'' else ''false'')"
| "print (JNum l) = l"
| "print (JStr s) = quote s"
| "print (JArr vs) = CHR ''['' # commas (map print vs) @ '']''"
| "print (JObj kvs) = CHR 0x7B # commas (map (\<lambda>(k, v). quote k @ CHR '':'' # print v) kvs) @ [CHR 0x7D]"

subsection \<open>The lexer\<close>

datatype token =
    TArrBegin | TArrEnd | TObjBegin | TObjEnd | TColon | TComma
  | TNull | TBool bool | TNum string | TStr string

text \<open>A number: an optional sign, an integer part without leading zeros, a fraction, an exponent.\<close>

definition take_digits :: "string \<Rightarrow> (string \<times> string) option" where
  "take_digits s = (if takeWhile is_digit s = [] then None else Some (takeWhile is_digit s, dropWhile is_digit s))"

definition scan_int :: "string \<Rightarrow> (string \<times> string) option" where
  "scan_int s = (case s of [] \<Rightarrow> None
     | c # t \<Rightarrow> if c = CHR ''0'' then Some ([c], t) else take_digits s)"

definition scan_frac :: "string \<Rightarrow> (string \<times> string) option" where
  "scan_frac s = (case s of [] \<Rightarrow> Some ([], [])
     | c # t \<Rightarrow> if c = CHR ''.'' then map_option (apfst ((#) c)) (take_digits t) else Some ([], s))"

definition scan_exp :: "string \<Rightarrow> (string \<times> string) option" where
  "scan_exp s = (case s of [] \<Rightarrow> Some ([], [])
     | c # t \<Rightarrow>
        if c = CHR ''e'' \<or> c = CHR ''E'' then
          (case t of [] \<Rightarrow> None
           | d # u \<Rightarrow> if d = CHR ''+'' \<or> d = CHR ''-'' then map_option (apfst (\<lambda>x. c # d # x)) (take_digits u)
               else map_option (apfst ((#) c)) (take_digits t))
        else Some ([], s))"

definition scan_unsigned :: "string \<Rightarrow> (string \<times> string) option" where
  "scan_unsigned s = (case scan_int s of None \<Rightarrow> None
     | Some (a, s1) \<Rightarrow> (case scan_frac s1 of None \<Rightarrow> None
       | Some (b, s2) \<Rightarrow> map_option (apfst (\<lambda>c. a @ b @ c)) (scan_exp s2)))"

definition scan_number :: "string \<Rightarrow> (string \<times> string) option" where
  "scan_number s = (case s of [] \<Rightarrow> None
     | c # t \<Rightarrow> if c = CHR ''-'' then map_option (apfst ((#) c)) (scan_unsigned t) else scan_unsigned s)"

definition is_space :: "char \<Rightarrow> bool" where
  "is_space c = (c \<in> {CHR 0x20, CHR 0x09, CHR 0x0A, CHR 0x0D})"

definition punctuation :: "char \<Rightarrow> token option" where
  "punctuation = map_of [(CHR ''['', TArrBegin), (CHR '']'', TArrEnd), (CHR 0x7B, TObjBegin), (CHR 0x7D, TObjEnd),
     (CHR '':'', TColon), (CHR '','', TComma)]"

definition literal :: "string \<Rightarrow> (token \<times> string) option" where
  "literal s =
     (if take 4 s = ''null'' then Some (TNull, drop 4 s)
      else if take 4 s = ''true'' then Some (TBool True, drop 4 s)
      else if take 5 s = ''false'' then Some (TBool False, drop 5 s)
      else None)"

definition next_token :: "string \<Rightarrow> (token \<times> string) option" where
  "next_token s = (case s of [] \<Rightarrow> None
     | c # t \<Rightarrow>
        (case punctuation c of Some k \<Rightarrow> Some (k, t)
         | None \<Rightarrow>
            if c = CHR 0x22 then map_option (apfst TStr) (scan_string t)
            else if c = CHR ''-'' \<or> is_digit c then map_option (apfst TNum) (scan_number s)
            else literal s))"

lemma scan_string_shortens: "scan_string s = Some (a, t) \<Longrightarrow> length t < length s"
proof (induction s arbitrary: a t rule: length_induct)
  case (1 s)
  then have IH: "length t < length u" if "scan_string u = Some (a, t)" "length u < length s" for u a t
    using that by blast
  obtain c cs where s: "s = c # cs" using 1(2) by (cases s) (auto simp: scan_string.simps)
  have step: "length t < length s" if "scan_string u = Some (a, t)" "length u < length s" for u a
    using IH [OF that] that(2) by simp
  obtain r w where d: "DecodeRune s = (r, w)" by force
  then have w: "length (drop w s) < length s" using DecodeRune_width [of s] s by auto
  show ?case
    using 1(2) s d w step
    by (auto simp: scan_string.simps [of "c # cs"] simp del: DecodeRune.simps split: if_splits list.splits option.splits)
qed

lemma take_digits_shortens: "take_digits s = Some (a, t) \<Longrightarrow> length t < length s"
proof -
  assume "take_digits s = Some (a, t)"
  moreover have "length (takeWhile is_digit s) + length (dropWhile is_digit s) = length s"
    by (metis length_append takeWhile_dropWhile_id)
  ultimately show ?thesis by (auto simp: take_digits_def simp flip: length_greater_0_conv split: if_splits)
qed

lemma scan_int_shortens: "scan_int s = Some (a, t) \<Longrightarrow> length t < length s"
  by (auto simp: scan_int_def split: list.splits if_splits dest: take_digits_shortens)

lemma scan_frac_shortens: "scan_frac s = Some (a, t) \<Longrightarrow> length t \<le> length s"
  by (auto simp: scan_frac_def split: list.splits if_splits dest!: take_digits_shortens)

lemma scan_exp_shortens: "scan_exp s = Some (a, t) \<Longrightarrow> length t \<le> length s"
  by (auto simp: scan_exp_def split: list.splits if_splits dest!: take_digits_shortens)

lemma scan_unsigned_shortens: "scan_unsigned s = Some (a, t) \<Longrightarrow> length t < length s"
  by (fastforce simp: scan_unsigned_def split: option.splits dest: scan_int_shortens scan_frac_shortens scan_exp_shortens)

lemma scan_number_shortens: "scan_number s = Some (a, t) \<Longrightarrow> length t < length s"
  by (auto simp: scan_number_def split: list.splits if_splits dest!: scan_unsigned_shortens)

lemma literal_shortens: "literal s = Some (k, t) \<Longrightarrow> length t < length s"
  by (cases s) (auto simp: literal_def split: if_splits)

lemma next_token_shortens: "next_token s = Some (k, t) \<Longrightarrow> length t < length s"
  by (auto simp: next_token_def split: list.splits option.splits if_splits
      dest!: scan_string_shortens scan_number_shortens literal_shortens)

function lex :: "string \<Rightarrow> token list option" where
  "lex s =
     (case s of [] \<Rightarrow> Some []
      | c # t \<Rightarrow>
          if is_space c then lex t
          else (case next_token s of None \<Rightarrow> None
                | Some (k, u) \<Rightarrow> map_option ((#) k) (lex u)))"
  by pat_completeness auto
termination
  by (relation "measure length") (auto dest: next_token_shortens)

declare lex.simps [simp del]

subsection \<open>The scanner's state machine\<close>

text \<open>A stack of open arrays and objects; a pending member of an object has its key. \<open>EndTop\<close> holds
  the value when the outermost one is complete. More than 10000 open brackets are an error.\<close>

datatype frame =
    FArr "jvalue list"
  | FObj "(string \<times> jvalue) list"
  | FKey string "(string \<times> jvalue) list"

datatype mode = BeginValue | BeginValueOrEmpty | BeginString | BeginStringOrEmpty | BeginColon | EndValue

datatype scanner = Scan mode "frame list" | EndTop jvalue

definition maxNestingDepth :: nat where
  "maxNestingDepth = 10000"

fun close_value :: "jvalue \<Rightarrow> frame list \<Rightarrow> scanner option" where
  "close_value v [] = Some (EndTop v)"
| "close_value v (FArr vs # st) = Some (Scan EndValue (FArr (vs @ [v]) # st))"
| "close_value v (FKey k kvs # st) = Some (Scan EndValue (FObj (kvs @ [(k, v)]) # st))"
| "close_value v (FObj kvs # st) = None"

definition push :: "mode \<Rightarrow> frame \<Rightarrow> frame list \<Rightarrow> scanner option" where
  "push m f st = (if length (f # st) \<le> maxNestingDepth then Some (Scan m (f # st)) else None)"

fun begin_value :: "token \<Rightarrow> frame list \<Rightarrow> scanner option" where
  "begin_value TArrBegin st = push BeginValueOrEmpty (FArr []) st"
| "begin_value TObjBegin st = push BeginStringOrEmpty (FObj []) st"
| "begin_value TNull st = close_value JNull st"
| "begin_value (TBool b) st = close_value (JBool b) st"
| "begin_value (TNum l) st = close_value (JNum l) st"
| "begin_value (TStr s) st = close_value (JStr s) st"
| "begin_value _ st = None"

fun begin_string :: "token \<Rightarrow> frame list \<Rightarrow> scanner option" where
  "begin_string (TStr k) (FObj kvs # st) = Some (Scan BeginColon (FKey k kvs # st))"
| "begin_string _ _ = None"

fun end_value :: "token \<Rightarrow> frame list \<Rightarrow> scanner option" where
  "end_value TComma (FArr vs # st) = Some (Scan BeginValue (FArr vs # st))"
| "end_value TComma (FObj kvs # st) = Some (Scan BeginString (FObj kvs # st))"
| "end_value TArrEnd (FArr vs # st) = close_value (JArr vs) st"
| "end_value TObjEnd (FObj kvs # st) = close_value (JObj kvs) st"
| "end_value _ _ = None"

fun scan_step :: "token \<Rightarrow> scanner \<Rightarrow> scanner option" where
  "scan_step k (Scan BeginValue st) = begin_value k st"
| "scan_step k (Scan BeginValueOrEmpty st) = (if k = TArrEnd then end_value k st else begin_value k st)"
| "scan_step k (Scan BeginString st) = begin_string k st"
| "scan_step k (Scan BeginStringOrEmpty st) = (if k = TObjEnd then end_value k st else begin_string k st)"
| "scan_step k (Scan BeginColon st) = (if k = TColon then Some (Scan BeginValue st) else None)"
| "scan_step k (Scan EndValue st) = end_value k st"
| "scan_step k (EndTop v) = None"

fun scan :: "token list \<Rightarrow> scanner \<Rightarrow> scanner option" where
  "scan [] sc = Some sc"
| "scan (k # ks) sc = Option.bind (scan_step k sc) (scan ks)"

definition parse_json :: "string \<Rightarrow> jvalue option" where
  "parse_json s = (case lex s of None \<Rightarrow> None
     | Some ks \<Rightarrow> (case scan ks (Scan BeginValue []) of Some (EndTop v) \<Rightarrow> Some v | _ \<Rightarrow> None))"

subsection \<open>A printed value is parsed back\<close>

text \<open>The values the encoders below produce: numbers are integers and strings are valid UTF-8.\<close>

fun plain :: "jvalue \<Rightarrow> bool" where
  "plain (JNum l) \<longleftrightarrow> (\<exists>i. l = Itoa i)"
| "plain (JStr s) \<longleftrightarrow> valid_utf8 s"
| "plain (JArr vs) \<longleftrightarrow> (\<forall>v \<in> set vs. plain v)"
| "plain (JObj kvs) \<longleftrightarrow> (\<forall>(k, v) \<in> set kvs. valid_utf8 k \<and> plain v)"
| "plain _ \<longleftrightarrow> True"

fun depth :: "jvalue \<Rightarrow> nat" where
  "depth (JArr vs) = Suc (Max (insert 0 (depth ` set vs)))"
| "depth (JObj kvs) = Suc (Max (insert 0 ((\<lambda>(k, v). depth v) ` set kvs)))"
| "depth _ = 0"

fun sep_tokens :: "token list list \<Rightarrow> token list" where
  "sep_tokens [] = []"
| "sep_tokens [ks] = ks"
| "sep_tokens (ks # ls # kss) = ks @ TComma # sep_tokens (ls # kss)"

fun tokens :: "jvalue \<Rightarrow> token list" where
  "tokens JNull = [TNull]"
| "tokens (JBool b) = [TBool b]"
| "tokens (JNum l) = [TNum l]"
| "tokens (JStr s) = [TStr s]"
| "tokens (JArr vs) = TArrBegin # sep_tokens (map tokens vs) @ [TArrEnd]"
| "tokens (JObj kvs) = TObjBegin # sep_tokens (map (\<lambda>(k, v). TStr k # TColon # tokens v) kvs) @ [TObjEnd]"

text \<open>What may follow a value.\<close>

definition delimited :: "string \<Rightarrow> bool" where
  "delimited t \<longleftrightarrow> (case t of [] \<Rightarrow> True | c # _ \<Rightarrow> c \<in> {CHR '','', CHR '']'', CHR 0x7D})"

lemma digits_zero: "digits n = CHR ''0'' # s \<Longrightarrow> n = 0 \<and> s = []"
proof (induction n arbitrary: s rule: digits.induct)
  case (1 n)
  show ?case
  proof (cases "n < 10")
    case True
    with 1(2) have "digit n = CHR ''0''" "s = []" by (simp_all add: digits.simps [of n])
    with True have "(of_char (CHR ''0'') :: nat) = 48 + n" using of_char_digit [of n] by simp
    with \<open>s = []\<close> show ?thesis by simp
  next
    case False
    then obtain s' where "digits (n div 10) = CHR ''0'' # s'"
      using 1(2) by (cases "digits (n div 10)") (auto simp: digits.simps [of n])
    with 1(1) [OF False] False show ?thesis by auto
  qed
qed

lemma takeWhile_digits:
  assumes "list_all is_digit s" and "\<not> (\<exists>c u. t = c # u \<and> is_digit c)"
  shows "takeWhile is_digit (s @ t) = s" "dropWhile is_digit (s @ t) = t"
  using assms by (induction s; cases t; simp)+

lemma scan_unsigned_digits: 
  assumes "delimited t"
  shows "scan_unsigned (digits n @ t) = Some (digits n, t)"
proof -
  obtain c s where d: "digits n = c # s" by (cases "digits n") auto
  have t: "\<not> (\<exists>c u. t = c # u \<and> is_digit c)"
    using assms by (auto simp: delimited_def is_digit_def byte_of_def)
  have all: "list_all is_digit (digits n)" using all_digits_digits [of n] by (simp add: all_digits_def)
  have "scan_int (digits n @ t) = Some (digits n, t)"
  proof (cases "c = CHR ''0''")
    case True
    with d digits_zero [of n s] show ?thesis by (simp add: scan_int_def)
  next
    case False
    with d takeWhile_digits [OF all t] show ?thesis by (simp add: scan_int_def take_digits_def del: takeWhile.simps dropWhile.simps)
  qed
  moreover have "scan_frac t = Some ([], t)" "scan_exp t = Some ([], t)"
    using assms by (auto simp: delimited_def scan_frac_def scan_exp_def split: list.splits)
  ultimately show ?thesis by (simp add: scan_unsigned_def)
qed

lemma scan_number_Itoa: "delimited t \<Longrightarrow> scan_number (Itoa i @ t) = Some (Itoa i, t)"
proof (cases "i < 0")
  case False
  assume t: "delimited t"
  obtain c s where d: "digits (nat i) = c # s" by (cases "digits (nat i)") auto
  with digits_Cons_digit [OF d] have "c \<noteq> CHR ''-''" by (auto simp: is_digit_def byte_of_def)
  with False d scan_unsigned_digits [OF t, of "nat i"] show ?thesis by (simp add: scan_number_def Itoa_def)
qed (simp add: scan_number_def Itoa_def scan_unsigned_digits)

lemma punctuation_simps:
  "punctuation (CHR ''['') = Some TArrBegin" "punctuation (CHR '']'') = Some TArrEnd"
  "punctuation (CHR 0x7B) = Some TObjBegin" "punctuation (CHR 0x7D) = Some TObjEnd"
  "punctuation (CHR '':'') = Some TColon" "punctuation (CHR '','') = Some TComma"
  "punctuation (CHR 0x22) = None" "punctuation (CHR ''-'') = None"
  "punctuation (CHR ''n'') = None" "punctuation (CHR ''t'') = None" "punctuation (CHR ''f'') = None"
  by (simp_all add: punctuation_def)

lemma lex_punctuation:
  assumes "punctuation c = Some k"
  shows "lex (c # t) = map_option ((#) k) (lex t)"
proof -
  have "\<not> is_space c" using assms by (auto simp: punctuation_def is_space_def split: if_splits)
  with assms show ?thesis by (simp add: lex.simps [of "c # t"] next_token_def)
qed

lemmas lex_punctuations [simp] = punctuation_simps(1-6) [THEN lex_punctuation]

lemma lex_quote [simp]: "valid_utf8 s \<Longrightarrow> lex (quote s @ t) = map_option ((#) (TStr s)) (lex t)"
  by (simp add: quote_def lex.simps [of "CHR 0x22 # _"] is_space_def next_token_def punctuation_simps
      scan_quote_body to_valid_valid)

lemma lex_number [simp]: "delimited t \<Longrightarrow> lex (Itoa i @ t) = map_option ((#) (TNum (Itoa i))) (lex t)"
proof -
  assume t: "delimited t"
  obtain c s where i: "Itoa i = c # s" "c = CHR ''-'' \<or> is_digit c"
    using digits_Cons_digit by (cases "i < 0"; cases "digits (nat i)") (auto simp: Itoa_def)
  from i(2) have c: "\<not> is_space c" "punctuation c = None" "c \<noteq> CHR 0x22"
    by (auto simp: is_digit_def byte_of_def is_space_def punctuation_def)
  from scan_number_Itoa [OF t, of i] i c show ?thesis
    by (simp add: lex.simps [of "c # s @ t"] next_token_def)
qed

lemma lex_literal:
  "lex (''null'' @ t) = map_option ((#) TNull) (lex t)"
  "lex (''true'' @ t) = map_option ((#) (TBool True)) (lex t)"
  "lex (''false'' @ t) = map_option ((#) (TBool False)) (lex t)"
  by (simp_all add: lex.simps [of "_ # _"] is_space_def next_token_def punctuation_simps is_digit_def byte_of_def literal_def)

lemmas lex_literals [simp] = lex_literal [unfolded append_Cons append_Nil]

lemma delimited_simps [simp]:
  "delimited []" "delimited (CHR '','' # t)" "delimited (CHR '']'' # t)" "delimited (CHR 0x7D # t)"
  by (simp_all add: delimited_def)

definition lexes :: "string \<Rightarrow> token list \<Rightarrow> bool" where
  "lexes s ks \<longleftrightarrow> (\<forall>t. delimited t \<longrightarrow> lex (s @ t) = map_option ((@) ks) (lex t))"

lemma lexes_commas: "list_all2 lexes ss kss \<Longrightarrow> lexes (commas ss) (sep_tokens kss)"
proof (induction ss arbitrary: kss rule: commas.induct)
  case (2 s)
  then show ?case by (auto simp: list_all2_Cons1)
next
  case (3 s t ss)
  then obtain ks ls kss' where k: "kss = ks # ls # kss'" "lexes s ks" "lexes t ls" "list_all2 lexes ss kss'"
    by (auto simp: list_all2_Cons1)
  with 3(1) [of "ls # kss'"] have "lexes (commas (t # ss)) (sep_tokens (ls # kss'))" by simp
  with k show ?case by (simp add: lexes_def map_option_case split: option.split)
qed (simp add: lexes_def map_option_case split: option.split)

lemma lexes_print: "plain v \<Longrightarrow> lexes (print v) (tokens v)"
proof (induction v)
  case (JArr vs)
  then have "list_all2 lexes (map print vs) (map tokens vs)"
    by (simp add: list_all2_map1 list_all2_map2 list_all2_same)
  from lexes_commas [OF this] show ?case by (simp add: lexes_def map_option_case split: option.split)
next
  case (JObj kvs)
  have "lexes (quote k @ CHR '':'' # print v) (TStr k # TColon # tokens v)" if "(k, v) \<in> set kvs" for k v
    using JObj that by (fastforce simp: lexes_def map_option_case split: option.split)
  then have "list_all2 lexes (map (\<lambda>(k, v). quote k @ CHR '':'' # print v) kvs) (map (\<lambda>(k, v). TStr k # TColon # tokens v) kvs)"
    by (auto simp: list_all2_map1 list_all2_map2 list_all2_same)
  from lexes_commas [OF this] show ?case by (simp add: lexes_def map_option_case split: option.split)
qed (auto simp: lexes_def append_one)

lemma lex_print: "plain v \<Longrightarrow> lex (print v) = Some (tokens v)"
  using lexes_print [of v] by (auto simp: lexes_def lex.simps [of "[]"] dest: spec [of _ "[]"])

lemma scan_Nil [simp]: "scan [] = Some"
  by (simp add: fun_eq_iff)

lemma scan_append: "scan (ks @ ls) sc = Option.bind (scan ks sc) (scan ls)"
  by (induction ks arbitrary: sc) (auto split: bind_splits)

text \<open>Reading the tokens of a value closes it, if the stack has room for its depth.\<close>

definition reads :: "token list \<Rightarrow> jvalue \<Rightarrow> nat \<Rightarrow> bool" where
  "reads ks v n \<longleftrightarrow> ks \<noteq> [] \<and> hd ks \<noteq> TArrEnd \<and> (\<forall>st. length st + n \<le> maxNestingDepth \<longrightarrow>
     scan ks (Scan BeginValue st) = close_value v st)"

lemma reads_elements:
  assumes "\<And>v. v \<in> set vs \<Longrightarrow> reads (f v) v n" and "vs \<noteq> []" and "Suc (length st) + n \<le> maxNestingDepth"
  shows "scan (sep_tokens (map f vs)) (Scan BeginValue (FArr us # st)) = Some (Scan EndValue (FArr (us @ vs) # st))"
  using assms
proof (induction vs arbitrary: us)
  case (Cons v vs)
  have v: "scan (f v) (Scan BeginValue (FArr us # st)) = Some (Scan EndValue (FArr (us @ [v]) # st))" for us
    using Cons.prems(1) [of v] Cons.prems(3) by (simp add: reads_def)
  show ?case
  proof (cases vs)
    case (Cons w ws)
    with Cons.IH [of "us @ [v]"] Cons.prems v show ?thesis by (simp add: scan_append)
  qed (use v in simp)
qed simp

lemma reads_members:
  assumes "\<And>k v. (k, v) \<in> set kvs \<Longrightarrow> reads (f v) v n" and "kvs \<noteq> []" and "Suc (length st) + n \<le> maxNestingDepth"
  shows "scan (sep_tokens (map (\<lambda>(k, v). TStr k # TColon # f v) kvs)) (Scan BeginString (FObj us # st)) =
    Some (Scan EndValue (FObj (us @ kvs) # st))"
  using assms
proof (induction kvs arbitrary: us)
  case (Cons kv kvs)
  obtain k v where kv: "kv = (k, v)" by force
  have v: "scan (f v) (Scan BeginValue (FKey k us # st)) = Some (Scan EndValue (FObj (us @ [(k, v)]) # st))" for us
    using Cons.prems(1) [of k v] Cons.prems(3) kv by (simp add: reads_def)
  show ?case
  proof (cases kvs)
    case (Cons w ws)
    have "scan (sep_tokens (map (\<lambda>(k, v). TStr k # TColon # f v) kvs)) (Scan BeginString (FObj (us @ [(k, v)]) # st)) =
      Some (Scan EndValue (FObj ((us @ [(k, v)]) @ kvs) # st))"
      by (rule Cons.IH) (use Cons.prems Cons in auto)
    with v kv Cons show ?thesis by (simp add: scan_append split: prod.splits)
  qed (use v kv in simp)
qed simp

lemma depth_elements: "v \<in> set vs \<Longrightarrow> depth v \<le> Max (insert 0 (depth ` set vs))"
  by (rule Max_ge) auto

lemma depth_members: "(k, v) \<in> set kvs \<Longrightarrow> depth v \<le> Max (insert 0 ((\<lambda>(k, v). depth v) ` set kvs))"
  by (rule Max_ge) (auto intro: rev_image_eqI)

lemma reads_mono: "reads ks v m \<Longrightarrow> m \<le> n \<Longrightarrow> reads ks v n"
  by (simp add: reads_def)

lemma scan_not_empty:
  "ks \<noteq> [] \<Longrightarrow> hd ks \<noteq> TArrEnd \<Longrightarrow> scan ks (Scan BeginValueOrEmpty st) = scan ks (Scan BeginValue st)"
  "ks \<noteq> [] \<Longrightarrow> hd ks \<noteq> TObjEnd \<Longrightarrow> scan ks (Scan BeginStringOrEmpty st) = scan ks (Scan BeginString st)"
  by (cases ks; simp)+

lemma reads_tokens: "reads (tokens v) v (depth v)"
proof (induction v)
  case (JArr vs)
  let ?n = "Max (insert 0 (depth ` set vs))"
  have r: "reads (tokens v) v ?n" if "v \<in> set vs" for v
    using JArr [OF that] depth_elements [OF that] by (rule reads_mono)
  show ?case
  proof (cases vs)
    case (Cons w ws)
    have "scan (sep_tokens (map tokens vs)) (Scan BeginValue (FArr [] # st)) = Some (Scan EndValue (FArr vs # st))"
      if "length st + Suc ?n \<le> maxNestingDepth" for st
      using reads_elements [OF r, of vs st "[]"] that Cons by simp
    moreover have "sep_tokens (map tokens vs) \<noteq> []" "hd (sep_tokens (map tokens vs)) \<noteq> TArrEnd"
      using r [of w] Cons by (cases ws; auto simp: reads_def)+
    ultimately show ?thesis by (simp add: reads_def push_def scan_append scan_not_empty)
  qed (simp add: reads_def push_def)
next
  case (JObj kvs)
  let ?n = "Max (insert 0 ((\<lambda>(k, v). depth v) ` set kvs))"
  have r: "reads (tokens v) v ?n" if "(k, v) \<in> set kvs" for k v
    using JObj [OF that] depth_members [OF that] by (auto intro: reads_mono)
  show ?case
  proof (cases kvs)
    case (Cons w ws)
    have "scan (sep_tokens (map (\<lambda>(k, v). TStr k # TColon # tokens v) kvs)) (Scan BeginString (FObj [] # st)) =
        Some (Scan EndValue (FObj kvs # st))"
      if "length st + Suc ?n \<le> maxNestingDepth" for st
      using reads_members [of kvs tokens ?n st "[]"] r that Cons by simp
    moreover have "sep_tokens (map (\<lambda>(k, v). TStr k # TColon # tokens v) kvs) \<noteq> []"
      "hd (sep_tokens (map (\<lambda>(k, v). TStr k # TColon # tokens v) kvs)) \<noteq> TObjEnd"
      using Cons by (cases ws; auto split: prod.splits)+
    ultimately show ?thesis by (simp add: reads_def push_def scan_append scan_not_empty)
  qed (simp add: reads_def push_def)
qed (simp_all add: reads_def)

lemma parse_print: "plain v \<Longrightarrow> depth v \<le> maxNestingDepth \<Longrightarrow> parse_json (print v) = Some v"
  using reads_tokens [of v] by (simp add: parse_json_def lex_print reads_def)

subsection \<open>Decoders\<close>

text \<open>A decoder stores a value into a variable that has a value already; the variable keeps it when
  the text has \<^verbatim>\<open>null\<close>. The package goes on after a value of the wrong kind and reports the first
  such error at the end: as the callers stop at every error, it is \<open>None\<close> at once.\<close>

type_synonym 'a decoder = "jvalue \<Rightarrow> 'a \<Rightarrow> 'a option"

definition num_ok :: "'a \<times> num_error option \<Rightarrow> 'a option" where
  "num_ok r = (case r of (v, None) \<Rightarrow> Some v | (_, Some _) \<Rightarrow> None)"

fun dec_int :: "int decoder" where
  "dec_int JNull old = Some old"
| "dec_int (JNum l) old = num_ok (ParseInt l)"
| "dec_int _ old = None"

fun dec_uint64 :: "64 word decoder" where
  "dec_uint64 JNull old = Some old"
| "dec_uint64 (JNum l) old = map_option word_of_int (num_ok (ParseUint l))"
| "dec_uint64 _ old = None"

fun dec_string :: "string decoder" where
  "dec_string JNull old = Some old"
| "dec_string (JStr s) old = Some s"
| "dec_string _ old = None"

fun dec_all :: "'a decoder \<Rightarrow> 'a \<Rightarrow> jvalue list \<Rightarrow> 'a list option" where
  "dec_all d zero [] = Some []"
| "dec_all d zero (v # vs) = Option.bind (d v zero) (\<lambda>x. map_option ((#) x) (dec_all d zero vs))"

text \<open>A slice that is empty before: its elements are zero values. \<^verbatim>\<open>null\<close> makes it nil.\<close>

fun dec_slice :: "'a decoder \<Rightarrow> 'a \<Rightarrow> 'a list decoder" where
  "dec_slice d zero JNull old = Some []"
| "dec_slice d zero (JArr vs) old = dec_all d zero vs"
| "dec_slice d zero _ old = None"

text \<open>An array of fixed length: missing elements become zero, more elements are skipped.\<close>

fun dec_elems :: "'a decoder \<Rightarrow> 'a \<Rightarrow> jvalue list \<Rightarrow> 'a list \<Rightarrow> 'a list option" where
  "dec_elems d zero vs [] = Some []"
| "dec_elems d zero [] (x # xs) = Some (replicate (length (x # xs)) zero)"
| "dec_elems d zero (v # vs) (x # xs) = Option.bind (d v x) (\<lambda>y. map_option ((#) y) (dec_elems d zero vs xs))"

fun dec_array :: "'a decoder \<Rightarrow> 'a \<Rightarrow> 'a list decoder" where
  "dec_array d zero JNull old = Some old"
| "dec_array d zero (JArr vs) old = dec_elems d zero vs old"
| "dec_array d zero _ old = None"

text \<open>A map with integer keys, given as strings; the entries of an old map stay.\<close>

fun dec_entries :: "'a decoder \<Rightarrow> 'a \<Rightarrow> (string \<times> jvalue) list \<Rightarrow> (int, 'a) gomap \<Rightarrow> (int, 'a) gomap option" where
  "dec_entries d zero [] m = Some m"
| "dec_entries d zero ((k, v) # kvs) m =
     Option.bind (num_ok (ParseInt k)) (\<lambda>i.
       Option.bind (d v zero) (\<lambda>x. dec_entries d zero kvs (AList.update i x m)))"

fun dec_map :: "'a decoder \<Rightarrow> 'a \<Rightarrow> (int, 'a) gomap decoder" where
  "dec_map d zero JNull old = Some []"
| "dec_map d zero (JObj kvs) old = dec_entries d zero kvs old"
| "dec_map d zero _ old = None"

text \<open>Names of fields are compared after folding their case; two runes outside ASCII fold to
  ASCII letters.\<close>

definition upper :: "char \<Rightarrow> char" where
  "upper c = (if 97 \<le> byte_of c \<and> byte_of c \<le> 122 then byte (byte_of c - 32) else c)"

fun foldName :: "string \<Rightarrow> string" where
  "foldName (a # b # c # cs) =
     (if (byte_of a, byte_of b, byte_of c) = (226, 132, 170) then CHR ''K'' # foldName cs
      else if (byte_of a, byte_of b) = (197, 191) then CHR ''S'' # foldName (c # cs)
      else upper a # foldName (b # c # cs))"
| "foldName [a, b] = (if (byte_of a, byte_of b) = (197, 191) then ''S'' else [upper a, upper b])"
| "foldName [a] = [upper a]"
| "foldName [] = []"

text \<open>A struct: \<open>field\<close> gives the decoder of the field with a folded name; members with other names
  are ignored.\<close>

fun dec_members :: "(string \<Rightarrow> 's decoder option) \<Rightarrow> (string \<times> jvalue) list \<Rightarrow> 's \<Rightarrow> 's option" where
  "dec_members field [] s = Some s"
| "dec_members field ((k, v) # kvs) s =
     (case field (foldName k) of None \<Rightarrow> dec_members field kvs s
      | Some d \<Rightarrow> Option.bind (d v s) (dec_members field kvs))"

fun dec_struct :: "(string \<Rightarrow> 's decoder option) \<Rightarrow> 's decoder" where
  "dec_struct field JNull old = Some old"
| "dec_struct field (JObj kvs) old = dec_members field kvs old"
| "dec_struct field _ old = None"

definition Unmarshal_json :: "'a decoder \<Rightarrow> string \<Rightarrow> 'a \<Rightarrow> 'a option" where
  "Unmarshal_json d s old = (case parse_json s of None \<Rightarrow> None | Some v \<Rightarrow> d v old)"

subsection \<open>Encoders\<close>

definition enc_int :: "int \<Rightarrow> jvalue" where
  "enc_int i = JNum (Itoa i)"

definition enc_slice :: "('a \<Rightarrow> jvalue) \<Rightarrow> 'a list \<Rightarrow> jvalue" where
  "enc_slice e xs = JArr (map e xs)"

text \<open>The members of a map are ordered by the text of their keys.\<close>

definition enc_map :: "('a \<Rightarrow> jvalue) \<Rightarrow> (int, 'a) gomap \<Rightarrow> jvalue" where
  "enc_map e m = JObj (map (\<lambda>(k, v). (Itoa k, e v)) (sort_key (\<lambda>(k, v). Itoa k) m))"

lemma num_ok_Itoa [simp]: "int64 i \<Longrightarrow> num_ok (ParseInt (Itoa i)) = Some i"
  by (simp add: num_ok_def ParseInt_Itoa)

lemma dec_enc_int [simp]: "int64 i \<Longrightarrow> dec_int (enc_int i) old = Some i"
  by (simp add: enc_int_def)

lemma Itoa_of_nat: "Itoa (int n) = digits n"
  by (simp add: Itoa_def)

lemma dec_enc_uint64 [simp]: "dec_uint64 (enc_int (uint w)) old = Some w"
proof -
  have "uint w < 2 ^ 64" using unsigned_less [of w] by simp
  then show ?thesis
    using ParseUint_digits [of "unat w"] by (simp add: enc_int_def num_ok_def flip: Itoa_of_nat)
qed

lemma dec_all_map: "(\<And>x. x \<in> set xs \<Longrightarrow> d (e x) zero = Some x) \<Longrightarrow> dec_all d zero (map e xs) = Some xs"
  by (induction xs) auto

lemma dec_enc_slice: "(\<And>x. x \<in> set xs \<Longrightarrow> d (e x) zero = Some x) \<Longrightarrow> dec_slice d zero (enc_slice e xs) old = Some xs"
  by (simp add: enc_slice_def dec_all_map)

lemma dec_enc_array:
  "length old = length xs \<Longrightarrow> (\<And>x y. x \<in> set xs \<Longrightarrow> d (e x) y = Some x) \<Longrightarrow> dec_array d zero (enc_slice e xs) old = Some xs"
  unfolding enc_slice_def by (simp, induction xs arbitrary: old) (auto simp: length_Suc_conv)

lemma update_new: "k \<notin> set (keys m) \<Longrightarrow> AList.update k v m = m @ [(k, v)]"
  by (induction m) auto

lemma dec_entries_map:
  assumes "wf_map (m @ kvs)" and "\<And>k v. (k, v) \<in> set kvs \<Longrightarrow> int64 k \<and> d (e v) zero = Some v"
  shows "dec_entries d zero (map (\<lambda>(k, v). (Itoa k, e v)) kvs) m = Some (m @ kvs)"
  using assms
proof (induction kvs arbitrary: m)
  case (Cons kv kvs)
  obtain k v where kv: "kv = (k, v)" by force
  have "k \<notin> set (keys m)" using Cons.prems(1) kv by auto
  then have "AList.update k v m = m @ [(k, v)]" by (rule update_new)
  moreover have "dec_entries d zero (map (\<lambda>(k, v). (Itoa k, e v)) kvs) (m @ [(k, v)]) = Some ((m @ [(k, v)]) @ kvs)"
    by (rule Cons.IH) (use Cons.prems kv in auto)
  ultimately show ?case using Cons.prems(2) [of k v] kv by simp
qed simp

lemma wf_map_perm: "wf_map m \<Longrightarrow> mset m = mset n \<Longrightarrow> wf_map n \<and> map_of n = map_of m"
proof
  assume m: "wf_map m" "mset m = mset n"
  show "wf_map n"
    using m mset_eq_imp_distinct_iff [of "keys m" "keys n"] by (metis mset_map)
  with m show "map_of n = map_of m" by (metis map_of_inject_set mset_eq_setD)
qed

lemma dec_enc_map:
  assumes "wf_map m" and "\<And>k v. (k, v) \<in> set m \<Longrightarrow> int64 k \<and> d (e v) zero = Some v"
  shows "\<exists>m'. dec_map d zero (enc_map e m) [] = Some m' \<and> mset m' = mset m"
proof -
  let ?m = "sort_key (\<lambda>(k, v). Itoa k) m"
  have "wf_map ?m" using wf_map_perm [OF assms(1), of ?m] by simp
  then have "dec_entries d zero (map (\<lambda>(k, v). (Itoa k, e v)) ?m) [] = Some ([] @ ?m)"
    by (intro dec_entries_map) (use assms(2) in auto)
  then show ?thesis by (simp add: enc_map_def)
qed

text \<open>A kind of value with a text format: what is written is read back as the same value, so texts
  are equal only for the same values.\<close>

locale json_format =
  fixes marshal :: "'a \<Rightarrow> string" and unmarshal :: "string \<Rightarrow> 'a option"
    and fits :: "'a \<Rightarrow> bool" and same :: "'a \<Rightarrow> 'a \<Rightarrow> bool"
  assumes read_back: "fits x \<Longrightarrow> \<exists>y. unmarshal (marshal x) = Some y \<and> same x y"
    and same_sym: "same x y \<Longrightarrow> same y x"
    and same_trans: "same x y \<Longrightarrow> same y z \<Longrightarrow> same x z"
    and same_text: "fits x \<Longrightarrow> fits y \<Longrightarrow> same x y \<Longrightarrow> marshal x = marshal y"
begin

lemma text_determines:
  assumes "fits x" "fits y" "marshal x = marshal y"
  shows "same x y"
proof -
  from read_back [OF assms(1)] obtain z where "unmarshal (marshal x) = Some z" "same x z" by blast
  moreover from read_back [OF assms(2)] obtain u where "unmarshal (marshal y) = Some u" "same y u" by blast
  ultimately show ?thesis using assms(3) same_sym same_trans by (metis option.inject)
qed

lemma text_iff: "fits x \<Longrightarrow> fits y \<Longrightarrow> marshal x = marshal y \<longleftrightarrow> same x y"
  using text_determines same_text by blast

end

lemma depth_flat [simp]: "depth (enc_int i) = 0" "plain (enc_int i)"
  by (auto simp: enc_int_def)

lemma depth_le:
  "(\<And>v. v \<in> set vs \<Longrightarrow> depth v \<le> n) \<Longrightarrow> depth (JArr vs) \<le> Suc n"
  "(\<And>k v. (k, v) \<in> set kvs \<Longrightarrow> depth v \<le> n) \<Longrightarrow> depth (JObj kvs) \<le> Suc n"
  by auto

lemma depth_enc_slice: "(\<And>x. x \<in> set xs \<Longrightarrow> depth (e x) \<le> n) \<Longrightarrow> depth (enc_slice e xs) \<le> Suc n"
  unfolding enc_slice_def by (rule depth_le(1)) auto

lemma depth_enc_map: "(\<And>k v. (k, v) \<in> set m \<Longrightarrow> depth (e v) \<le> n) \<Longrightarrow> depth (enc_map e m) \<le> Suc n"
  unfolding enc_map_def by (rule depth_le(2)) auto

lemma plain_enc_slice: "(\<And>x. x \<in> set xs \<Longrightarrow> plain (e x)) \<Longrightarrow> plain (enc_slice e xs)"
  by (simp add: enc_slice_def)

lemma byte_rune: "byte_of c < 128 \<Longrightarrow> valid_utf8 (c # cs) \<longleftrightarrow> valid_utf8 cs"
  by (simp add: valid_utf8.simps [of "c # cs"] Let_def)

lemma ascii_valid: "list_all (\<lambda>c. byte_of c < 128) s \<Longrightarrow> valid_utf8 s"
  by (induction s) (simp_all add: byte_rune, simp add: valid_utf8.simps)

lemma digit_ascii: "is_digit c \<Longrightarrow> byte_of c < 128"
  by (simp add: is_digit_def)

lemma valid_Itoa [simp]: "valid_utf8 (Itoa i)"
proof (rule ascii_valid)
  have "list_all (\<lambda>c. byte_of c < 128) (digits n)" for n
    using all_digits_digits [of n] digit_ascii unfolding all_digits_def list_all_iff by blast
  then show "list_all (\<lambda>c. byte_of c < 128) (Itoa i)" by (simp add: Itoa_def byte_of_def)
qed

lemma plain_enc_map: "(\<And>k v. (k, v) \<in> set m \<Longrightarrow> plain (e v)) \<Longrightarrow> plain (enc_map e m)"
  by (auto simp: enc_map_def)

end
