(* ===== verification/Shard_Config.thy ===== *)
theory Shard_Config
  imports Prelude
begin

section \<open>Shard configurations (shardkv1/shardcfg/shardcfg.go)\<close>

text \<open>
  A configuration assigns each of \<open>NShards\<close> shards to a replica group. The theory models
  \<^verbatim>\<open>shardcfg.go\<close>: the key-to-shard hash, the load analysis, the balancing loop of
  \<open>Rebalance\<close>, \<open>Join\<close> and \<open>Leave\<close> with their early returns and fatal exits, and the
  checker \<open>CheckConfig\<close>. \<open>Groups\<close> is iterated by the code, so it is an association list
  and every result holds for each order of it. The balancing loop has no bound in the
  source: it is a partial function, and that it returns is a theorem.
\<close>

subsection \<open>Data\<close>

type_synonym Tshid = int
type_synonym Tnum = goint

definition NShards :: nat where
  "NShards = 12"

record ShardConfig =
  Num :: Tnum
  Shards :: "Tgid list"
  Groups :: "(Tgid, string list) gomap"

text \<open>The ways the code ends the process (\<^verbatim>\<open>log.Fatalf\<close>, an index out of range).\<close>

datatype cfg_error =
    JoinDuplicateServer Tgid string Tgid
  | JoinNoChange
  | LeaveNoChange
  | IndexOutOfRange

datatype check_error =
    WrongGroupCount int int
  | MissingGroup Tgid
  | InvalidGroup nat Tgid
  | Unbalanced int int

definition Key2Shard :: "string \<Rightarrow> Tshid" where
  "Key2Shard key = uint (fnv32a key) mod int NShards"

definition MakeShardConfig :: ShardConfig where
  "MakeShardConfig = \<lparr>Num = 0, Shards = replicate NShards 0, Groups = []\<rparr>"

fun copy_groups :: "(Tgid, string list) gomap \<Rightarrow> (Tgid, string list) gomap \<Rightarrow> (Tgid, string list) gomap" where
  "copy_groups [] m = m"
| "copy_groups ((k, srvs) # gs) m = copy_groups gs (AList.update k (map id srvs) m)"

definition Copy :: "ShardConfig \<Rightarrow> ShardConfig" where
  "Copy cfg = (let c = MakeShardConfig
     in c\<lparr>Num := Num cfg, Shards := Shards cfg, Groups := copy_groups (Groups cfg) (Groups c)\<rparr>)"

subsection \<open>Load analysis\<close>

definition shard_counts :: "Tgid list \<Rightarrow> Tgid \<Rightarrow> int" where
  "shard_counts shards = fold (\<lambda>g counts. counts(g := counts g + 1)) shards (\<lambda>_. 0)"

fun analyze_step :: "(Tgid \<Rightarrow> int) \<Rightarrow> Tgid \<Rightarrow> Tgid \<times> int \<times> Tgid \<times> int \<Rightarrow> Tgid \<times> int \<times> Tgid \<times> int" where
  "analyze_step counts g (mg, mn, lg, ln) =
     (let (lg', ln') = (if counts g < ln then (g, counts g) else (lg, ln));
          (mg', mn') = (if counts g > mn then (g, counts g) else (mg, mn))
      in (mg', mn', lg', ln'))"

definition analyze :: "ShardConfig \<Rightarrow> Tgid \<times> int \<times> Tgid \<times> int" where
  "analyze c = (let counts = shard_counts (Shards c); groups = sort (keys (Groups c))
     in fold (analyze_step counts) groups (-1, -1, -1, 257))"

definition least :: "ShardConfig \<Rightarrow> Tgid" where
  "least c = (case analyze c of (_, _, lg, _) \<Rightarrow> lg)"

subsection \<open>Rebalance\<close>

fun assign_loop :: "(nat \<times> Tgid) list \<Rightarrow> ShardConfig \<Rightarrow> ShardConfig" where
  "assign_loop [] c = c"
| "assign_loop ((s, g) # ps) c =
     assign_loop ps
       (if map_of (Groups c) g = None then c\<lparr>Shards := (Shards c)[s := least c]\<rparr> else c)"

fun move_one :: "Tgid \<Rightarrow> Tgid \<Rightarrow> Tgid list \<Rightarrow> Tgid list" where
  "move_one mg lg [] = []"
| "move_one mg lg (g # gs) = (if g = mg then lg # gs else g # move_one mg lg gs)"

partial_function (option) balance_loop :: "ShardConfig \<Rightarrow> ShardConfig option" where
  "balance_loop c =
     (case analyze c of (mg, mn, lg, ln) \<Rightarrow>
        if mn < ln + 2 then Some c
        else balance_loop (c\<lparr>Shards := move_one mg lg (Shards c)\<rparr>))"

declare balance_loop.simps [code]

definition Rebalance :: "ShardConfig \<Rightarrow> ShardConfig option" where
  "Rebalance c =
     (if length (Groups c) < 1 then Some (c\<lparr>Shards := map (\<lambda>_. 0) (Shards c)\<rparr>)
      else balance_loop (assign_loop (enumerate 0 (Shards c)) c))"

subsection \<open>Join and Leave\<close>

fun conflict :: "string list \<Rightarrow> (Tgid, string list) gomap \<Rightarrow> (string \<times> Tgid) option" where
  "conflict servers [] = None"
| "conflict servers ((xgid, xservers) # gs) =
     (case find (\<lambda>s1. List.member servers s1) xservers of
        Some s1 \<Rightarrow> Some (s1, xgid)
      | None \<Rightarrow> conflict servers gs)"

fun join_loop :: "(Tgid \<times> string list) list \<Rightarrow> bool \<Rightarrow> ShardConfig \<Rightarrow> cfg_error + bool \<times> ShardConfig" where
  "join_loop [] changed cfg =
     (if changed = False then Inl JoinNoChange else Inr (True, cfg\<lparr>Num := Num cfg + 1\<rparr>))"
| "join_loop ((gid, servers) # rest) changed cfg =
     (if map_of (Groups cfg) gid \<noteq> None then Inr (False, cfg)
      else case conflict servers (Groups cfg) of
        Some (s1, xgid) \<Rightarrow> Inl (JoinDuplicateServer gid s1 xgid)
      | None \<Rightarrow> join_loop rest True (cfg\<lparr>Groups := AList.update gid servers (Groups cfg)\<rparr>))"

definition Join :: "(Tgid, string list) gomap \<Rightarrow> ShardConfig \<Rightarrow> cfg_error + bool \<times> ShardConfig" where
  "Join servers cfg = join_loop servers False cfg"

fun leave_loop :: "Tgid list \<Rightarrow> bool \<Rightarrow> ShardConfig \<Rightarrow> cfg_error + bool \<times> ShardConfig" where
  "leave_loop [] changed cfg =
     (if changed = False then Inl LeaveNoChange else Inr (True, cfg\<lparr>Num := Num cfg + 1\<rparr>))"
| "leave_loop (gid # gids) changed cfg =
     (if map_of (Groups cfg) gid = None then Inr (False, cfg)
      else leave_loop gids True (cfg\<lparr>Groups := AList.delete gid (Groups cfg)\<rparr>))"

definition Leave :: "Tgid list \<Rightarrow> ShardConfig \<Rightarrow> cfg_error + bool \<times> ShardConfig" where
  "Leave gids cfg = leave_loop gids False cfg"

text \<open>\<open>None\<close> is a balancing loop that does not return.\<close>

definition then_rebalance :: "cfg_error + bool \<times> ShardConfig \<Rightarrow> (cfg_error + bool \<times> ShardConfig) option" where
  "then_rebalance r = (case r of
       Inl e \<Rightarrow> Some (Inl e)
     | Inr (ok, cfg) \<Rightarrow>
         if \<not> ok then Some (Inr (False, cfg))
         else map_option (\<lambda>cfg'. Inr (True, cfg')) (Rebalance cfg))"

definition JoinBalance :: "(Tgid, string list) gomap \<Rightarrow> ShardConfig \<Rightarrow> (cfg_error + bool \<times> ShardConfig) option" where
  "JoinBalance servers cfg = then_rebalance (Join servers cfg)"

definition LeaveBalance :: "Tgid list \<Rightarrow> ShardConfig \<Rightarrow> (cfg_error + bool \<times> ShardConfig) option" where
  "LeaveBalance gids cfg = then_rebalance (Leave gids cfg)"

subsection \<open>Queries and the checker\<close>

definition GidServers :: "ShardConfig \<Rightarrow> Tshid \<Rightarrow> cfg_error + Tgid \<times> string list \<times> bool" where
  "GidServers cfg sh =
     (if sh < 0 \<or> int (length (Shards cfg)) \<le> sh then Inl IndexOutOfRange
      else let gid = Shards cfg ! nat sh
        in case map_of (Groups cfg) gid of
             Some srvs \<Rightarrow> Inr (gid, srvs, True)
           | None \<Rightarrow> Inr (gid, [], False))"

definition IsMember :: "ShardConfig \<Rightarrow> Tgid \<Rightarrow> bool" where
  "IsMember cfg gid = list_ex (\<lambda>g. g = gid) (Shards cfg)"

fun minmax_step :: "(Tgid \<Rightarrow> int) \<Rightarrow> Tgid \<Rightarrow> int \<times> int \<Rightarrow> int \<times> int" where
  "minmax_step counts g (mx, mi) =
     ((if counts g > mx then counts g else mx), (if counts g < mi then counts g else mi))"

definition CheckConfig :: "ShardConfig \<Rightarrow> Tgid list \<Rightarrow> check_error + unit" where
  "CheckConfig cfg groups =
     (if length (Groups cfg) \<noteq> length groups
      then Inl (WrongGroupCount (int (length groups)) (int (length (Groups cfg))))
      else case find (\<lambda>g. map_of (Groups cfg) g = None) groups of
        Some g \<Rightarrow> Inl (MissingGroup g)
      | None \<Rightarrow>
         (case (if length groups > 0
                then find (\<lambda>(s, g). map_of (Groups cfg) g = None) (enumerate 0 (Shards cfg))
                else None) of
            Some (s, g) \<Rightarrow> Inl (InvalidGroup s g)
          | None \<Rightarrow>
             (case fold (minmax_step (shard_counts (Shards cfg))) (keys (Groups cfg)) (0, 257) of
                (mx, mi) \<Rightarrow> if mx > mi + 1 then Inl (Unbalanced mx mi) else Inr ())))"

subsection \<open>Well-formed, assigned and balanced configurations\<close>

definition wf_config :: "ShardConfig \<Rightarrow> bool" where
  "wf_config c \<longleftrightarrow> length (Shards c) = NShards \<and> wf_map (Groups c)"

definition gids :: "ShardConfig \<Rightarrow> Tgid set" where
  "gids c = set (keys (Groups c))"

definition load :: "ShardConfig \<Rightarrow> Tgid \<Rightarrow> nat" where
  "load c g = count_list (Shards c) g"

definition assigned :: "ShardConfig \<Rightarrow> bool" where
  "assigned c \<longleftrightarrow> set (Shards c) \<subseteq> gids c"

definition balanced :: "ShardConfig \<Rightarrow> bool" where
  "balanced c \<longleftrightarrow> (\<forall>g \<in> gids c. \<forall>h \<in> gids c. load c g \<le> load c h + 1)"

text \<open>No server name belongs to two groups.\<close>

definition disjoint_servers :: "ShardConfig \<Rightarrow> bool" where
  "disjoint_servers c \<longleftrightarrow> (\<forall>p \<in> set (Groups c). \<forall>q \<in> set (Groups c).
     fst p \<noteq> fst q \<longrightarrow> set (snd p) \<inter> set (snd q) = {})"

text \<open>What a configuration satisfies once \<open>Rebalance\<close> has run.\<close>

definition valid_config :: "ShardConfig \<Rightarrow> bool" where
  "valid_config c \<longleftrightarrow> wf_config c \<and> balanced c \<and> (if Groups c = [] then set (Shards c) = {0} else assigned c)"

text \<open>The configurations a controller can get to: joins and leaves, each followed by balancing.\<close>

inductive reachable_config :: "ShardConfig \<Rightarrow> bool" where
  initial: "reachable_config MakeShardConfig"
| joined: "reachable_config c \<Longrightarrow> JoinBalance servers c = Some (Inr (True, c')) \<Longrightarrow> reachable_config c'"
| left: "reachable_config c \<Longrightarrow> LeaveBalance gs c = Some (Inr (True, c')) \<Longrightarrow> reachable_config c'"

text \<open>The sum of the squared loads, which each move of the balancing loop lowers.\<close>

definition imbalance :: "ShardConfig \<Rightarrow> nat" where
  "imbalance c = (\<Sum>g \<in> gids c. load c g * load c g)"

subsection \<open>The load analysis finds a least and a most loaded group\<close>

lemma shard_counts_eq: "shard_counts xs g = int (count_list xs g)"
  by (simp add: shard_counts_def count_list_fold)

text \<open>
  What the loop of \<open>analyze\<close> has established after the groups \<open>gs\<close>: bounds on both
  sides, and that each extreme is either its start value or attained by a group.
\<close>

lemma fold_analyze_step:
  assumes "fold (analyze_step cnt) gs (mg0, mn0, lg0, ln0) = (mg, mn, lg, ln)"
  shows "mn0 \<le> mn \<and> (\<forall>g \<in> set gs. cnt g \<le> mn) \<and> (mg = mg0 \<and> mn = mn0 \<or> mg \<in> set gs \<and> mn = cnt mg)"
    and "ln \<le> ln0 \<and> (\<forall>g \<in> set gs. ln \<le> cnt g) \<and> (lg = lg0 \<and> ln = ln0 \<or> lg \<in> set gs \<and> ln = cnt lg)"
  using assms
proof (induction gs arbitrary: mg0 mn0 lg0 ln0)
  case Nil
  { case 1 then show ?case by simp }
  { case 2 then show ?case by simp }
next
  case (Cons g gs)
  { case 1
    then show ?case using Cons.IH(1) by (fastforce simp: Let_def split: if_splits)
  }
  { case 2
    then show ?case using Cons.IH(2) by (fastforce simp: Let_def split: if_splits)
  }
qed

text \<open>
  With at least one group and fewer than 257 shards the sentinels \<open>-1\<close> and \<open>257\<close> are
  always replaced.
\<close>

lemma analyze_extremes:
  assumes "analyze c = (mg, mn, lg, ln)" and "gids c \<noteq> {}" and "length (Shards c) < 257"
  shows "mg \<in> gids c" "lg \<in> gids c" "mn = int (load c mg)" "ln = int (load c lg)"
    and "\<forall>g \<in> gids c. load c lg \<le> load c g \<and> load c g \<le> load c mg"
proof -
  let ?gs = "sort (keys (Groups c))"
  have f: "fold (analyze_step (shard_counts (Shards c))) ?gs (-1, -1, -1, 257) = (mg, mn, lg, ln)"
    using assms(1) by (simp add: analyze_def Let_def)
  have set_gs: "set ?gs = gids c" by (simp add: gids_def)
  have bound: "shard_counts (Shards c) g < 257" for g
    using assms(3) count_list_length_ge [of "Shards c" g] by (simp add: shard_counts_eq)
  obtain g where g: "g \<in> gids c" using assms(2) by blast
  note M = fold_analyze_step(1) [OF f, unfolded set_gs shard_counts_eq, folded load_def]
  note L = fold_analyze_step(2) [OF f, unfolded set_gs shard_counts_eq, folded load_def]
  have "- 1 < mn" using M g by force
  with M show "mg \<in> gids c" and mn: "mn = int (load c mg)" by auto
  have "ln < 257" using L g bound [of g] by (force simp: shard_counts_eq load_def)
  with L show "lg \<in> gids c" and ln: "ln = int (load c lg)" by auto
  from M L show "\<forall>g \<in> gids c. load c lg \<le> load c g \<and> load c g \<le> load c mg"
    by (auto simp: mn ln)
qed

lemma least_in_gids:
  assumes "gids c \<noteq> {}" and "length (Shards c) < 257"
  shows "least c \<in> gids c" and "g \<in> gids c \<Longrightarrow> load c (least c) \<le> load c g"
proof -
  obtain mg mn lg ln where a: "analyze c = (mg, mn, lg, ln)" by (metis surj_pair)
  then have "least c = lg" by (simp add: least_def)
  with analyze_extremes [OF a assms]
  show "least c \<in> gids c" and "g \<in> gids c \<Longrightarrow> load c (least c) \<le> load c g" by auto
qed

subsection \<open>Assigning the orphaned shards\<close>

lemma assign_loop_frame [simp]:
  "Groups (assign_loop ps c) = Groups c" "Num (assign_loop ps c) = Num c"
  "length (Shards (assign_loop ps c)) = length (Shards c)" "gids (assign_loop ps c) = gids c"
proof -
  show groups: "Groups (assign_loop ps c) = Groups c" and "Num (assign_loop ps c) = Num c"
    and "length (Shards (assign_loop ps c)) = length (Shards c)"
    by (induction ps c rule: assign_loop.induct) auto
  show "gids (assign_loop ps c) = gids c" by (simp add: gids_def groups)
qed

lemma assign_loop_other:
  "i \<notin> fst ` set ps \<Longrightarrow> Shards (assign_loop ps c) ! i = Shards c ! i"
  by (induction ps c rule: assign_loop.induct) force+

lemma assign_loop_at:
  assumes "(i, g) \<in> set ps" and "distinct (map fst ps)" and "Shards c ! i = g" and "i < length (Shards c)"
    and "gids c \<noteq> {}" and "length (Shards c) < 257"
  shows "Shards (assign_loop ps c) ! i \<in> gids c \<and> (g \<in> gids c \<longrightarrow> Shards (assign_loop ps c) ! i = g)"
  using assms
proof (induction ps c rule: assign_loop.induct)
  case (1 c)
  then show ?case by simp
next
  case (2 s g' ps c)
  let ?c = "if map_of (Groups c) g' = None then c\<lparr>Shards := (Shards c)[s := least c]\<rparr> else c"
  have gids: "gids ?c = gids c" by (simp add: gids_def)
  show ?case
  proof (cases "i = s")
    case True
    with "2.prems" have "g' = g" and i: "i \<notin> fst ` set ps" by (force simp: image_iff)+
    then have at: "Shards (assign_loop ((s, g') # ps) c) ! i = Shards ?c ! i"
      by (simp only: assign_loop.simps assign_loop_other [OF i])
    from True \<open>g' = g\<close> "2.prems" least_in_gids(1) [of c] show ?thesis
      unfolding at by (auto simp: map_of_None_keys gids_def)
  next
    case False
    with "2.prems" have "Shards ?c ! i = g" "i < length (Shards ?c)" "length (Shards ?c) < 257"
      "(i, g) \<in> set ps" "distinct (map fst ps)" "gids ?c \<noteq> {}"
      unfolding gids by auto
    from "2.IH" [OF this(4,5,1,2,6,3)] show ?thesis unfolding gids assign_loop.simps .
  qed
qed

text \<open>The first loop of \<open>Rebalance\<close>: every shard gets a group, valid assignments stay.\<close>

lemma assign_loop_assigned:
  assumes "gids c \<noteq> {}" and "length (Shards c) < 257"
  shows "assigned (assign_loop (enumerate 0 (Shards c)) c)"
    and "assigned c \<Longrightarrow> assign_loop (enumerate 0 (Shards c)) c = c"
proof -
  let ?ps = "enumerate 0 (Shards c)"
  have at: "Shards (assign_loop ?ps c) ! i \<in> gids c \<and>
      (Shards c ! i \<in> gids c \<longrightarrow> Shards (assign_loop ?ps c) ! i = Shards c ! i)"
    if "i < length (Shards c)" for i
    using assign_loop_at [of i "Shards c ! i" ?ps c] that assms
    by (simp add: in_set_enumerate_eq map_fst_enumerate)
  then show "assigned (assign_loop ?ps c)"
    by (auto simp: assigned_def in_set_conv_nth)
  assume "assigned c"
  then have "Shards c ! i \<in> gids c" if "i < length (Shards c)" for i
    using that by (auto simp: assigned_def)
  with at have "Shards (assign_loop ?ps c) = Shards c"
    by (intro nth_equalityI) auto
  then show "assign_loop ?ps c = c"
    by (simp add: ShardConfig.equality)
qed

subsection \<open>One move of the balancing loop\<close>

lemma length_move_one [simp]: "length (move_one mg lg xs) = length xs"
  by (induction xs) auto

lemma count_move_one:
  assumes "mg \<in> set xs" and "mg \<noteq> lg"
  shows "count_list (move_one mg lg xs) mg = count_list xs mg - 1"
    and "count_list (move_one mg lg xs) lg = count_list xs lg + 1"
    and "g \<noteq> mg \<Longrightarrow> g \<noteq> lg \<Longrightarrow> count_list (move_one mg lg xs) g = count_list xs g"
  using assms by (induction xs) (auto simp: count_list_0_iff)

lemma set_move_one: "set (move_one mg lg xs) \<subseteq> insert lg (set xs)"
  by (induction xs) auto

subsection \<open>The balancing loop returns, assigned and balanced\<close>

lemma gids_Shards_update [simp]: "gids (c\<lparr>Shards := xs\<rparr>) = gids c"
  by (simp add: gids_def)

lemma finite_gids [simp]: "finite (gids c)"
  by (simp add: gids_def)

lemma square_move:
  fixes m l :: nat
  assumes "l + 2 \<le> m"
  shows "(m - 1) * (m - 1) + (l + 1) * (l + 1) < m * m + l * l"
proof -
  obtain k where "m = l + 2 + k" using assms le_Suc_ex by blast
  then show ?thesis by (simp add: algebra_simps)
qed

lemma imbalance_move:
  assumes "mg \<in> gids c" and "lg \<in> gids c" and "load c lg + 2 \<le> load c mg"
  shows "imbalance (c\<lparr>Shards := move_one mg lg (Shards c)\<rparr>) < imbalance c"
proof -
  let ?c = "c\<lparr>Shards := move_one mg lg (Shards c)\<rparr>" and ?rest = "gids c - {mg, lg}"
  have ne: "mg \<noteq> lg" using assms(3) by auto
  have mem: "mg \<in> set (Shards c)"
    using assms(3) by (metis add_leD2 count_notin le_zero_eq load_def zero_neq_numeral)
  note cnt = count_move_one [OF mem ne]
  have split: "imbalance d = (\<Sum>g \<in> ?rest. load d g * load d g) + load d mg * load d mg + load d lg * load d lg"
    if "gids d = gids c" for d
  proof -
    have "gids c = insert mg (insert lg ?rest)" using assms(1,2) by auto
    then have "(\<Sum>g \<in> gids c. load d g * load d g) = (\<Sum>g \<in> insert mg (insert lg ?rest). load d g * load d g)"
      by simp
    also have "\<dots> = load d mg * load d mg + (load d lg * load d lg + (\<Sum>g \<in> ?rest. load d g * load d g))"
      using ne by simp
    finally show ?thesis by (simp add: imbalance_def that)
  qed
  have "(\<Sum>g \<in> ?rest. load ?c g * load ?c g) = (\<Sum>g \<in> ?rest. load c g * load c g)"
    by (rule sum.cong) (simp_all add: load_def cnt(3))
  moreover have "load ?c mg = load c mg - 1" "load ?c lg = load c lg + 1"
    by (simp_all add: load_def cnt)
  ultimately show ?thesis
    using square_move [OF assms(3)] by (simp add: split)
qed

lemma balance_loop_returns:
  assumes "gids c \<noteq> {}" and "length (Shards c) < 257" and "assigned c"
  shows "\<exists>xs. balance_loop c = Some (c\<lparr>Shards := xs\<rparr>) \<and> length xs = length (Shards c) \<and>
    assigned (c\<lparr>Shards := xs\<rparr>) \<and> balanced (c\<lparr>Shards := xs\<rparr>)"
  using assms
proof (induction c rule: measure_induct_rule [of imbalance])
  case (less c)
  obtain mg mn lg ln where a: "analyze c = (mg, mn, lg, ln)" by (metis surj_pair)
  note ext = analyze_extremes [OF a less.prems(1,2)]
  show ?case
  proof (cases "mn < ln + 2")
    case True
    have "load c g \<le> load c h + 1" if "g \<in> gids c" "h \<in> gids c" for g h
    proof -
      have "load c mg \<le> load c lg + 1" using True ext(3,4) by simp
      moreover have "load c g \<le> load c mg" "load c lg \<le> load c h" using ext(5) that by auto
      ultimately show ?thesis by linarith
    qed
    then have "balanced c" by (simp add: balanced_def)
    with True a less.prems show ?thesis
      by (intro exI [of _ "Shards c"]) (simp add: balance_loop.simps)
  next
    case False
    let ?c = "c\<lparr>Shards := move_one mg lg (Shards c)\<rparr>"
    from False ext(3,4) have "load c lg + 2 \<le> load c mg" by simp
    with ext have "imbalance ?c < imbalance c" by (intro imbalance_move) auto
    moreover have "assigned ?c"
      using less.prems(3) ext(2) set_move_one [of mg lg "Shards c"] by (auto simp: assigned_def)
    ultimately obtain xs where "balance_loop ?c = Some (?c\<lparr>Shards := xs\<rparr>)"
      "length xs = length (Shards ?c)" "assigned (?c\<lparr>Shards := xs\<rparr>)" "balanced (?c\<lparr>Shards := xs\<rparr>)"
      using less.IH [of ?c] less.prems by auto
    with False a show ?thesis
      by (intro exI [of _ xs]) (simp add: balance_loop.simps [of c])
  qed
qed

lemma gids_empty_iff: "gids c = {} \<longleftrightarrow> Groups c = []"
  by (simp add: gids_def)

lemma wf_config_small: "wf_config c \<Longrightarrow> length (Shards c) < 257"
  by (simp add: wf_config_def NShards_def)

lemma wf_config_Shards_update: "wf_config c \<Longrightarrow> length xs = length (Shards c) \<Longrightarrow> wf_config (c\<lparr>Shards := xs\<rparr>)"
  by (simp add: wf_config_def)

lemma Rebalance_valid:
  assumes "wf_config c"
  shows "\<exists>xs. Rebalance c = Some (c\<lparr>Shards := xs\<rparr>) \<and> valid_config (c\<lparr>Shards := xs\<rparr>)"
proof (cases "Groups c = []")
  case True
  have "set (map (\<lambda>_. 0 :: int) (Shards c)) = {0}"
    using assms by (cases "Shards c") (auto simp: wf_config_def NShards_def)
  with True assms show ?thesis
    by (intro exI [of _ "map (\<lambda>_. 0) (Shards c)"])
       (simp add: Rebalance_def valid_config_def balanced_def gids_def wf_config_def)
next
  case False
  let ?d = "assign_loop (enumerate 0 (Shards c)) c"
  from False assms have c: "gids c \<noteq> {}" "length (Shards c) < 257"
    by (auto simp: gids_empty_iff wf_config_small)
  then have "gids ?d \<noteq> {}" "length (Shards ?d) < 257" "assigned ?d"
    by (simp_all add: assign_loop_assigned(1))
  from balance_loop_returns [OF this] obtain xs where xs:
    "balance_loop ?d = Some (?d\<lparr>Shards := xs\<rparr>)" "length xs = length (Shards c)"
    "assigned (?d\<lparr>Shards := xs\<rparr>)" "balanced (?d\<lparr>Shards := xs\<rparr>)" by auto
  moreover have "?d\<lparr>Shards := xs\<rparr> = c\<lparr>Shards := xs\<rparr>"
    by (simp add: ShardConfig.equality)
  ultimately show ?thesis using False assms
    by (intro exI [of _ xs]) (simp add: Rebalance_def valid_config_def wf_config_Shards_update)
qed

lemma Rebalance_frame:
  assumes "wf_config c" and "Rebalance c = Some c'"
  shows "valid_config c'" "Groups c' = Groups c" "Num c' = Num c"
  using Rebalance_valid [OF assms(1)] assms(2) by auto

subsection \<open>Membership changes\<close>

lemma AList_update_absent: "k \<notin> set (keys m) \<Longrightarrow> AList.update k v m = m @ [(k, v)]"
  by (induction m) auto

lemma find_member_None: "find (List.member ys) xs = None \<longleftrightarrow> set xs \<inter> set ys = {}"
  by (auto simp: find_None_iff)

lemma conflict_None_Cons:
  "conflict srvs ((g, s) # gs) = None \<longleftrightarrow> find (List.member srvs) s = None \<and> conflict srvs gs = None"
  by (simp split: option.split)

lemma conflict_None: "conflict srvs gs = None \<longleftrightarrow> (\<forall>(g, s) \<in> set gs. set s \<inter> set srvs = {})"
proof (induction gs)
  case (Cons p gs)
  then show ?case by (cases p) (simp only: conflict_None_Cons find_member_None, simp)
qed simp

lemma conflict_Some:
  "conflict srvs gs = Some (s, g) \<Longrightarrow> \<exists>xs. (g, xs) \<in> set gs \<and> s \<in> set xs \<and> s \<in> set srvs"
proof (induction gs)
  case (Cons p gs)
  obtain h xs where p: "p = (h, xs)" by force
  show ?case
  proof (cases "find (List.member srvs) xs")
    case None
    with Cons p show ?thesis by auto
  next
    case (Some t)
    with Cons.prems p have "t = s" "h = g" by auto
    with Some p show ?thesis by (auto simp: find_Some_iff)
  qed
qed simp

text \<open>
  A successful \<open>Join\<close> adds every new group and bumps the number; a \<open>Join\<close> that returns
  false has already added the groups before the first one that was present.
\<close>

lemma join_loop_True:
  assumes "join_loop srvs ch cfg = Inr (True, cfg')"
  shows "cfg' = cfg\<lparr>Num := Num cfg + 1, Groups := Groups cfg @ srvs\<rparr> \<and> (ch \<or> srvs \<noteq> []) \<and>
    set (keys srvs) \<inter> gids cfg = {} \<and> wf_map srvs"
  using assms
proof (induction srvs ch cfg rule: join_loop.induct)
  case (1 ch cfg)
  then show ?case by (auto split: if_splits)
next
  case (2 gid servers rest ch cfg)
  from "2.prems" have na: "\<not> map_of (Groups cfg) gid \<noteq> None" and none: "conflict servers (Groups cfg) = None"
    by (auto split: if_splits option.splits)
  then have new: "gid \<notin> gids cfg" by (simp add: map_of_None_keys gids_def)
  let ?cfg = "cfg\<lparr>Groups := AList.update gid servers (Groups cfg)\<rparr>"
  have upd: "Groups ?cfg = Groups cfg @ [(gid, servers)]"
    using new by (simp add: gids_def AList_update_absent)
  have "join_loop rest True ?cfg = Inr (True, cfg')"
    using "2.prems" na none by simp
  from "2.IH" [OF na none this] new show ?case
    using upd by (auto simp: gids_def)
qed

lemma join_loop_False:
  assumes "join_loop srvs ch cfg = Inr (False, cfg')"
  shows "\<exists>n < length srvs. cfg' = cfg\<lparr>Groups := Groups cfg @ take n srvs\<rparr> \<and> fst (srvs ! n) \<in> gids cfg' \<and> wf_map (take n srvs) \<and> set (keys (take n srvs)) \<inter> gids cfg = {}"
  using assms
proof (induction srvs ch cfg rule: join_loop.induct)
  case (1 ch cfg)
  then show ?case by (auto split: if_splits)
next
  case (2 gid servers rest ch cfg)
  show ?case
  proof (cases "gid \<in> gids cfg")
    case True
    with "2.prems" show ?thesis
      by (intro exI [of _ 0]) (auto simp: gids_def map_of_None_keys del: not_None_eq split: if_splits)
  next
    case new: False
    then have na: "\<not> map_of (Groups cfg) gid \<noteq> None" by (simp add: map_of_None_keys gids_def)
    with "2.prems" have none: "conflict servers (Groups cfg) = None"
      by (auto split: option.splits)
    let ?cfg = "cfg\<lparr>Groups := AList.update gid servers (Groups cfg)\<rparr>"
    have upd: "Groups ?cfg = Groups cfg @ [(gid, servers)]"
      using new by (simp add: gids_def AList_update_absent)
    have "join_loop rest True ?cfg = Inr (False, cfg')"
      using "2.prems" na none by simp
    from "2.IH" [OF na none this] obtain n where
      "n < length rest" "cfg' = ?cfg\<lparr>Groups := Groups ?cfg @ take n rest\<rparr>" "fst (rest ! n) \<in> gids cfg'"
      "wf_map (take n rest)" "set (keys (take n rest)) \<inter> gids ?cfg = {}"
      by blast
    with new upd show ?thesis
      by (intro exI [of _ "Suc n"]) (auto simp: gids_def)
  qed
qed

lemma join_loop_Inl:
  assumes "join_loop srvs ch cfg = Inl e"
  shows "e = JoinNoChange \<and> \<not> ch \<and> srvs = [] \<or>
    (\<exists>gid s xgid xs ys. e = JoinDuplicateServer gid s xgid \<and> (gid, xs) \<in> set srvs \<and> s \<in> set xs \<and>
       (xgid, ys) \<in> set (Groups cfg) \<union> set srvs \<and> s \<in> set ys)"
  using assms
proof (induction srvs ch cfg rule: join_loop.induct)
  case (1 ch cfg)
  then show ?case by (auto split: if_splits)
next
  case (2 gid servers rest ch cfg)
  then have na: "\<not> map_of (Groups cfg) gid \<noteq> None" by (auto split: if_splits)
  show ?case
  proof (cases "conflict servers (Groups cfg)")
    case None
    let ?cfg = "cfg\<lparr>Groups := AList.update gid servers (Groups cfg)\<rparr>"
    have upd: "Groups ?cfg = Groups cfg @ [(gid, servers)]"
      using na by (simp add: map_of_None_keys AList_update_absent)
    have "join_loop rest True ?cfg = Inl e" using "2.prems" na None by simp
    from "2.IH" [OF na None this] obtain g s x xs ys where
      e: "e = JoinDuplicateServer g s x" "s \<in> set xs" "s \<in> set ys" and "(g, xs) \<in> set rest"
      "(x, ys) \<in> set (Groups ?cfg) \<union> set rest" by blast
    then have "(g, xs) \<in> set ((gid, servers) # rest)"
      "(x, ys) \<in> set (Groups cfg) \<union> set ((gid, servers) # rest)"
      unfolding upd by auto
    with e show ?thesis by blast
  next
    case (Some p)
    then obtain s xgid where p: "conflict servers (Groups cfg) = Some (s, xgid)" by (cases p) auto
    with "2.prems" na have e: "e = JoinDuplicateServer gid s xgid" by simp
    from conflict_Some [OF p] obtain ys where "(xgid, ys) \<in> set (Groups cfg) \<union> set ((gid, servers) # rest)"
      "s \<in> set ys" "s \<in> set servers" by auto
    moreover have "(gid, servers) \<in> set ((gid, servers) # rest)" by simp
    ultimately show ?thesis using e by blast
  qed
qed

lemma leave_loop_True:
  assumes "leave_loop gs ch cfg = Inr (True, cfg')"
  shows "cfg' = cfg\<lparr>Num := Num cfg + 1, Groups := filter (\<lambda>p. fst p \<notin> set gs) (Groups cfg)\<rparr> \<and>
    (ch \<or> gs \<noteq> []) \<and> distinct gs \<and> set gs \<subseteq> gids cfg"
  using assms
proof (induction gs ch cfg rule: leave_loop.induct)
  case (1 ch cfg)
  then show ?case by (auto split: if_splits)
next
  case (2 gid gs ch cfg)
  let ?cfg = "cfg\<lparr>Groups := AList.delete gid (Groups cfg)\<rparr>"
  from "2.prems" have mem: "gid \<in> gids cfg" and rec: "leave_loop gs True ?cfg = Inr (True, cfg')"
    by (auto simp: map_of_None_keys gids_def split: if_splits)
  have "gids ?cfg = gids cfg - {gid}" by (simp add: gids_def delete_keys)
  moreover have "filter (\<lambda>p. fst p \<notin> set gs) (AList.delete gid (Groups cfg)) =
      filter (\<lambda>p. fst p \<notin> set (gid # gs)) (Groups cfg)"
    by (auto simp: AList.delete_eq intro!: filter_cong)
  ultimately show ?case
    using "2.IH" [OF _ rec] mem by (auto simp: map_of_None_keys gids_def)
qed

lemma leave_loop_complete:
  "distinct gs \<Longrightarrow> set gs \<subseteq> gids cfg \<Longrightarrow> ch \<or> gs \<noteq> [] \<Longrightarrow> \<exists>cfg'. leave_loop gs ch cfg = Inr (True, cfg')"
proof (induction gs ch cfg rule: leave_loop.induct)
  case (2 gid gs ch cfg)
  then have "map_of (Groups cfg) gid \<noteq> None" by (auto simp: map_of_None_keys gids_def)
  with 2 show ?case by (auto simp: gids_def delete_keys)
qed auto

lemma join_loop_disjoint:
  assumes "join_loop srvs ch cfg = Inr (True, cfg')" and "disjoint_servers cfg"
  shows "disjoint_servers cfg'"
  using assms
proof (induction srvs ch cfg rule: join_loop.induct)
  case (1 ch cfg)
  then have "Groups cfg' = Groups cfg" by (auto split: if_splits)
  with 1 show ?case by (simp add: disjoint_servers_def)
next
  case (2 gid servers rest ch cfg)
  from "2.prems" have na: "\<not> map_of (Groups cfg) gid \<noteq> None" and none: "conflict servers (Groups cfg) = None"
    by (auto split: if_splits option.splits)
  let ?cfg = "cfg\<lparr>Groups := AList.update gid servers (Groups cfg)\<rparr>"
  have "Groups ?cfg = Groups cfg @ [(gid, servers)]"
    using na by (simp add: map_of_None_keys AList_update_absent)
  with none "2.prems"(2) have "disjoint_servers ?cfg"
    unfolding disjoint_servers_def conflict_None by (auto 0 4)
  moreover have "join_loop rest True ?cfg = Inr (True, cfg')"
    using "2.prems" na none by simp
  ultimately show ?case using "2.IH" [OF na none] by blast
qed

subsection \<open>The contract of a membership change, and what balancing makes of it\<close>

text \<open>
  \<open>JoinBalance\<close> and \<open>LeaveBalance\<close> share their shape: a change of \<open>Groups\<close> that keeps the
  shards, then \<open>Rebalance\<close>. The locale states what the change promises.
\<close>

locale membership_change =
  fixes change :: "'a \<Rightarrow> ShardConfig \<Rightarrow> cfg_error + bool \<times> ShardConfig"
  assumes change_wf: "change x c = Inr (True, c') \<Longrightarrow> wf_config c \<Longrightarrow> wf_config c'"
    and change_num: "change x c = Inr (True, c') \<Longrightarrow> Num c' = Num c + 1"
    and change_disjoint: "change x c = Inr (True, c') \<Longrightarrow> disjoint_servers c \<Longrightarrow> disjoint_servers c'"
begin

lemma balance_total: "wf_config c \<Longrightarrow> \<exists>r. then_rebalance (change x c) = Some r"
proof (cases "change x c")
  case (Inr p)
  assume wf: "wf_config c"
  obtain ok c' where p: "p = (ok, c')" by force
  show ?thesis
  proof (cases ok)
    case True
    with p Inr wf have "wf_config c'" by (auto intro: change_wf)
    from Rebalance_valid [OF this] p Inr True show ?thesis
      by (auto simp: then_rebalance_def)
  qed (simp add: Inr p then_rebalance_def)
qed (simp add: then_rebalance_def)

lemma balance_valid:
  assumes "then_rebalance (change x c) = Some (Inr (True, c'))" and "wf_config c"
  shows "\<exists>d. change x c = Inr (True, d) \<and> Groups c' = Groups d \<and> Num c' = Num c + 1 \<and> valid_config c'"
proof -
  from assms(1) obtain d where d: "change x c = Inr (True, d)" "Rebalance d = Some c'"
    by (auto simp: then_rebalance_def split: sum.splits if_splits)
  with assms(2) have "wf_config d" by (auto intro: change_wf)
  with d Rebalance_frame [OF this d(2)] change_num [OF d(1)] show ?thesis by auto
qed

lemma balance_disjoint:
  assumes "then_rebalance (change x c) = Some (Inr (True, c'))" and "wf_config c" and "disjoint_servers c"
  shows "disjoint_servers c'"
proof -
  from balance_valid [OF assms(1,2)] obtain d where "change x c = Inr (True, d)" "Groups c' = Groups d"
    by blast
  with change_disjoint [OF _ assms(3)] show ?thesis by (simp add: disjoint_servers_def)
qed

end

interpretation join_change: membership_change Join
proof (unfold_locales, goal_cases)
  case (1 x c c')
  then show ?case
    using join_loop_True [of x False c c'] by (auto 0 3 simp: Join_def wf_config_def gids_def)
next
  case (2 x c c')
  then show ?case using join_loop_True [of x False c c'] by (simp add: Join_def)
next
  case (3 x c c')
  then show ?case by (simp add: Join_def join_loop_disjoint)
qed

interpretation leave_change: membership_change Leave
proof (unfold_locales, goal_cases)
  case (1 x c c')
  then show ?case
    using leave_loop_True [of x False c c'] by (auto simp: Leave_def wf_config_def distinct_map_filter)
next
  case (2 x c c')
  then show ?case using leave_loop_True [of x False c c'] by (simp add: Leave_def)
next
  case (3 x c c')
  then have "set (Groups c') \<subseteq> set (Groups c)"
    using leave_loop_True [of x False c c'] by (auto simp: Leave_def)
  with 3(2) show ?case unfolding disjoint_servers_def by blast
qed

subsection \<open>The checker\<close>

lemma fold_minmax_step:
  assumes "fold (minmax_step cnt) gs (mx0, mi0) = (mx, mi)"
  shows "mx0 \<le> mx \<and> (\<forall>g \<in> set gs. cnt g \<le> mx) \<and> (mx = mx0 \<or> (\<exists>g \<in> set gs. mx = cnt g))"
    and "mi \<le> mi0 \<and> (\<forall>g \<in> set gs. mi \<le> cnt g) \<and> (mi = mi0 \<or> (\<exists>g \<in> set gs. mi = cnt g))"
  using assms
proof (induction gs arbitrary: mx0 mi0)
  case Nil
  { case 1 then show ?case by simp }
  { case 2 then show ?case by simp }
next
  case (Cons g gs)
  { case 1
    then show ?case using Cons.IH(1) by (fastforce split: if_splits)
  }
  { case 2
    then show ?case using Cons.IH(2) by (fastforce split: if_splits)
  }
qed

lemma minmax_balanced:
  assumes "fold (minmax_step (shard_counts (Shards c))) (keys (Groups c)) (0, 257) = (mx, mi)"
    and "wf_config c"
  shows "mx \<le> mi + 1 \<longleftrightarrow> balanced c"
proof (cases "Groups c = []")
  case True
  with assms show ?thesis by (auto simp: balanced_def gids_def)
next
  case False
  note M = fold_minmax_step(1) [OF assms(1), unfolded shard_counts_eq, folded load_def gids_def]
  note L = fold_minmax_step(2) [OF assms(1), unfolded shard_counts_eq, folded load_def gids_def]
  have small: "load c g < 257" for g
    using wf_config_small [OF assms(2)] count_list_length_ge [of "Shards c" g] by (simp add: load_def)
  obtain a where "a \<in> gids c" using False gids_empty_iff [of c] by blast
  with L small [of a] have "mi \<noteq> 257" by force
  with L obtain l where l: "l \<in> gids c" "mi = int (load c l)" by auto
  show ?thesis
  proof
    assume le: "mx \<le> mi + 1"
    show "balanced c" unfolding balanced_def
    proof (intro ballI)
      fix g h assume "g \<in> gids c" "h \<in> gids c"
      with M L have "int (load c g) \<le> mx" "mi \<le> int (load c h)" by auto
      with le show "load c g \<le> load c h + 1" by linarith
    qed
  next
    assume bal: "balanced c"
    from M consider "mx = 0" | m where "m \<in> gids c" "mx = int (load c m)" by auto
    then show "mx \<le> mi + 1"
    proof cases
      case 1
      then show ?thesis using l by simp
    next
      case 2
      then have "load c m \<le> load c l + 1" using bal l by (simp add: balanced_def)
      then show ?thesis using 2 l by linarith
    qed
  qed
qed

lemma find_enumerate_None:
  "find (\<lambda>(s, g). P g) (enumerate n xs) = None \<longleftrightarrow> (\<forall>x \<in> set xs. \<not> P x)"
  by (induction xs arbitrary: n) auto

lemma CheckConfig_conditions:
  assumes "wf_config c"
  shows "CheckConfig c gs = Inr () \<longleftrightarrow> length gs = length (Groups c) \<and> set gs \<subseteq> gids c \<and>
    (gs \<noteq> [] \<longrightarrow> assigned c) \<and> balanced c"
proof -
  obtain mx mi where m: "fold (minmax_step (shard_counts (Shards c))) (keys (Groups c)) (0, 257) = (mx, mi)"
    by (metis surj_pair)
  have f1: "find (\<lambda>g. map_of (Groups c) g = None) gs = None \<longleftrightarrow> set gs \<subseteq> gids c"
    by (auto simp: find_None_iff map_of_None_keys gids_def simp del: not_None_eq)
  have f2: "find (\<lambda>(s, g). map_of (Groups c) g = None) (enumerate 0 (Shards c)) = None \<longleftrightarrow> assigned c"
    by (auto simp: find_enumerate_None assigned_def map_of_None_keys gids_def simp del: not_None_eq)
  show ?thesis
    using minmax_balanced [OF m assms] f1 f2 m unfolding CheckConfig_def
    by (auto split: option.splits)
qed

subsection \<open>Reachable configurations\<close>

lemma MakeShardConfig_valid: "valid_config MakeShardConfig" "disjoint_servers MakeShardConfig"
  by (simp_all add: valid_config_def wf_config_def MakeShardConfig_def balanced_def gids_def
      disjoint_servers_def NShards_def)

lemma valid_config_wf: "valid_config c \<Longrightarrow> wf_config c"
  by (simp add: valid_config_def)

lemma reachable_config_valid: "reachable_config c \<Longrightarrow> valid_config c \<and> disjoint_servers c"
proof (induction rule: reachable_config.induct)
  case initial
  show ?case by (simp add: MakeShardConfig_valid)
next
  case (joined c servers c')
  then show ?case
    unfolding JoinBalance_def
    by (meson join_change.balance_valid join_change.balance_disjoint valid_config_wf)
next
  case (left c gs c')
  then show ?case
    unfolding LeaveBalance_def
    by (meson leave_change.balance_valid leave_change.balance_disjoint valid_config_wf)
qed

lemma Key2Shard_range: "0 \<le> Key2Shard k" "Key2Shard k < int NShards"
  by (simp_all add: Key2Shard_def NShards_def)

subsection \<open>Independence of the iteration order of \<open>Groups\<close>\<close>

lemma Groups_Shards_update: "c\<lparr>Groups := gs, Shards := xs\<rparr> = c\<lparr>Shards := xs, Groups := gs\<rparr>"
  by (cases c) simp

lemma sort_keys_order: "mset xs = mset ys \<Longrightarrow> sort xs = sort (ys :: int list)"
  by (rule properties_for_sort) simp_all

lemma analyze_Groups_order:
  "mset (keys gs) = mset (keys (Groups c)) \<Longrightarrow> analyze (c\<lparr>Groups := gs\<rparr>) = analyze c"
  using sort_keys_order [of "keys gs" "keys (Groups c)"] by (simp add: analyze_def)

lemma mset_keys_set: "mset (keys gs) = mset (keys hs) \<Longrightarrow> set (keys gs) = set (keys hs)"
  by (metis set_mset_mset)

lemma assign_loop_Groups_order:
  "mset (keys gs) = mset (keys (Groups c)) \<Longrightarrow>
    assign_loop ps (c\<lparr>Groups := gs\<rparr>) = (assign_loop ps c)\<lparr>Groups := gs\<rparr>"
proof (induction ps c rule: assign_loop.induct)
  case (2 s g ps c)
  have "map_of gs g = None \<longleftrightarrow> map_of (Groups c) g = None"
    using mset_keys_set [OF "2.prems"] by (simp only: map_of_None_keys)
  moreover have "least (c\<lparr>Groups := gs\<rparr>) = least c"
    using analyze_Groups_order [OF "2.prems"] by (simp add: least_def)
  ultimately show ?case using 2 by (auto simp: Groups_Shards_update)
qed simp

lemma balance_loop_Groups_order:
  assumes "gids c \<noteq> {}" and "length (Shards c) < 257" and "mset (keys gs) = mset (keys (Groups c))"
  shows "balance_loop (c\<lparr>Groups := gs\<rparr>) = map_option (\<lambda>d. d\<lparr>Groups := gs\<rparr>) (balance_loop c)"
  using assms
proof (induction c rule: measure_induct_rule [of imbalance])
  case (less c)
  obtain mg mn lg ln where a: "analyze c = (mg, mn, lg, ln)" by (metis surj_pair)
  note a' = analyze_Groups_order [OF less.prems(3), unfolded a]
  note ext = analyze_extremes [OF a less.prems(1,2)]
  show ?case
  proof (cases "mn < ln + 2")
    case True
    with a a' show ?thesis by (simp add: balance_loop.simps)
  next
    case False
    let ?c = "c\<lparr>Shards := move_one mg lg (Shards c)\<rparr>"
    from False ext have "imbalance ?c < imbalance c" by (intro imbalance_move) auto
    then have "balance_loop (?c\<lparr>Groups := gs\<rparr>) = map_option (\<lambda>d. d\<lparr>Groups := gs\<rparr>) (balance_loop ?c)"
      using less.IH [of ?c] less.prems by simp
    with False a a' show ?thesis
      by (simp add: balance_loop.simps [of c] balance_loop.simps [of "c\<lparr>Groups := gs\<rparr>"]
          Groups_Shards_update)
  qed
qed

subsection \<open>Concrete configurations for the witnesses\<close>

definition example_config :: ShardConfig where
  "example_config = \<lparr>Num = 3, Shards = [7, 7, 7, 7, 7, 7, 0, 9, 9, 7, 7, 7],
     Groups = [(9, [''s9'']), (4, [''s4a'', ''s4b'']), (7, [''s7''])]\<rparr>"

definition first_config :: ShardConfig where
  "first_config = \<lparr>Num = 1, Shards = replicate 12 1, Groups = [(1, [''server-1-0'', ''server-1-1''])]\<rparr>"

lemma first_config_join:
  "JoinBalance [(1, [''server-1-0'', ''server-1-1''])] MakeShardConfig = Some (Inr (True, first_config))"
  by code_simp

lemma reachable_first: "reachable_config first_config"
  by (rule reachable_config.joined [OF reachable_config.initial first_config_join])

lemma wf_example_config: "wf_config example_config"
  by (simp add: wf_config_def example_config_def NShards_def)

subsection \<open>Properties\<close>

text \<open>C1. \<open>Rebalance\<close> returns on every well-formed configuration: it keeps the groups and the
  number; with no group it unassigns every shard, and otherwise it assigns every shard to a
  present group so that the loads of any two groups differ by at most one.\<close>

theorem Rebalance_correct:
  assumes "wf_config c"
  shows "\<exists>c'. Rebalance c = Some c' \<and> Groups c' = Groups c \<and> Num c' = Num c \<and> length (Shards c') = NShards \<and>
    (if Groups c = [] then set (Shards c') = {0}
     else set (Shards c') \<subseteq> set (keys (Groups c)) \<and>
       (\<forall>g \<in> set (keys (Groups c)). \<forall>h \<in> set (keys (Groups c)).
          count_list (Shards c') g \<le> count_list (Shards c') h + 1))"
proof -
  from Rebalance_valid [OF assms] obtain xs where
    "Rebalance c = Some (c\<lparr>Shards := xs\<rparr>)" "valid_config (c\<lparr>Shards := xs\<rparr>)" by blast
  then show ?thesis
    by (intro exI [of _ "c\<lparr>Shards := xs\<rparr>"])
       (simp add: valid_config_def wf_config_def assigned_def balanced_def gids_def load_def split: if_splits)
qed

theorem Rebalance_correct_witness:
  "wf_config example_config \<and> (\<exists>c'. Rebalance example_config = Some c' \<and> Num c' = 3 \<and>
     count_list (Shards c') 4 \<le> count_list (Shards c') 7 + 1)"
proof -
  from Rebalance_correct [OF wf_example_config] obtain c' where "Rebalance example_config = Some c'" "Num c' = 3"
    "\<forall>g \<in> {9, 4, 7}. \<forall>h \<in> {9, 4, 7}. count_list (Shards c') g \<le> count_list (Shards c') h + 1"
    by (auto simp: example_config_def)
  then show ?thesis using wf_example_config by auto
qed

text \<open>C2. Every configuration that joins and leaves can reach passes \<open>CheckConfig\<close> against its
  own groups, and no server belongs to two of its groups.\<close>

theorem reachable_config_checks:
  assumes "reachable_config c"
  shows "CheckConfig c (keys (Groups c)) = Inr () \<and> disjoint_servers c"
proof -
  from reachable_config_valid [OF assms] have v: "valid_config c" "disjoint_servers c" by auto
  then show ?thesis
    using CheckConfig_conditions [OF valid_config_wf [OF v(1)], of "keys (Groups c)"]
    by (auto simp: valid_config_def gids_def split: if_splits)
qed

theorem reachable_config_checks_witness:
  "reachable_config first_config \<and> CheckConfig first_config [1] = Inr () \<and> disjoint_servers first_config"
  using reachable_config_checks [OF reachable_first] reachable_first by (simp add: first_config_def)

text \<open>In a reachable configuration with at least one group, every key has a shard that is in
  range and owned by a present group, and \<open>GidServers\<close> returns that group's servers.\<close>

theorem reachable_key_lookup:
  assumes "reachable_config c" and "Groups c \<noteq> []"
  shows "\<exists>gid srvs. GidServers c (Key2Shard key) = Inr (gid, srvs, True) \<and> map_of (Groups c) gid = Some srvs \<and>
    IsMember c gid"
proof -
  from reachable_config_valid [OF assms(1)] assms(2) have
    len: "length (Shards c) = NShards" and sub: "set (Shards c) \<subseteq> gids c"
    by (auto simp: valid_config_def wf_config_def assigned_def)
  let ?s = "Key2Shard key"
  have r: "0 \<le> ?s" "nat ?s < length (Shards c)" "?s < int (length (Shards c))"
    using Key2Shard_range [of key] len by auto
  then have mem: "Shards c ! nat ?s \<in> set (Shards c)" by simp
  with sub obtain srvs where "map_of (Groups c) (Shards c ! nat ?s) = Some srvs"
    by (metis (no_types, lifting) gids_def map_of_None_keys not_None_eq subsetD)
  then show ?thesis using r mem by (auto simp: GidServers_def IsMember_def list_ex_iff)
qed

theorem reachable_key_lookup_witness:
  "Groups first_config \<noteq> [] \<and> (\<exists>gid srvs. GidServers first_config (Key2Shard ''x'') = Inr (gid, srvs, True))"
proof -
  have ne: "Groups first_config \<noteq> []" by (simp add: first_config_def)
  from reachable_key_lookup [OF reachable_first ne, of "''x''"] ne show ?thesis by blast
qed

text \<open>\<open>Rebalance\<close> changes nothing in a configuration that is already assigned and balanced:
  running it again after itself moves no shard.\<close>

theorem Rebalance_stable:
  assumes "valid_config c"
  shows "Rebalance c = Some c"
proof (cases "Groups c = []")
  case True
  with assms have "map (\<lambda>_. 0) (Shards c) = Shards c"
    by (intro map_idI) (auto simp: valid_config_def)
  with True show ?thesis by (simp add: Rebalance_def)
next
  case False
  from assms False have c: "gids c \<noteq> {}" "length (Shards c) < 257" "assigned c" "balanced c"
    by (auto simp: valid_config_def gids_empty_iff wf_config_small)
  obtain mg mn lg ln where a: "analyze c = (mg, mn, lg, ln)" by (metis surj_pair)
  note ext = analyze_extremes [OF a c(1,2)]
  from ext c(4) have "load c mg \<le> load c lg + 1" by (simp add: balanced_def)
  with ext a have "balance_loop c = Some c" by (simp add: balance_loop.simps)
  with False assign_loop_assigned(2) [OF c(1-3)] show ?thesis by (simp add: Rebalance_def)
qed

theorem Rebalance_stable_witness: "valid_config first_config \<and> Rebalance first_config = Some first_config"
  using Rebalance_stable reachable_config_valid [OF reachable_first] by blast

text \<open>The result of \<open>Rebalance\<close> does not depend on the order in which Go iterates over the
  map \<open>Groups\<close>: controllers that hold the same configuration compute the same assignment.\<close>

theorem Rebalance_deterministic:
  assumes "wf_config c" and "mset (keys gs) = mset (keys (Groups c))"
  shows "map_option Shards (Rebalance (c\<lparr>Groups := gs\<rparr>)) = map_option Shards (Rebalance c)"
proof (cases "Groups c = []")
  case True
  with assms show ?thesis by (simp add: Rebalance_def)
next
  case False
  let ?d = "assign_loop (enumerate 0 (Shards c)) c"
  from False assms(1) have "gids ?d \<noteq> {}" "length (Shards ?d) < 257"
    by (simp_all add: gids_empty_iff wf_config_small)
  moreover from False assms(2) have "gs \<noteq> []" by auto
  ultimately show ?thesis using False assms(2)
    by (simp add: Rebalance_def assign_loop_Groups_order balance_loop_Groups_order option.map_comp comp_def)
qed

theorem Rebalance_deterministic_witness:
  "map_option Shards (Rebalance (example_config\<lparr>Groups := rev (Groups example_config)\<rparr>)) =
    map_option Shards (Rebalance example_config)"
  by (rule Rebalance_deterministic [OF wf_example_config]) (simp add: rev_map)

text \<open>\<open>Leave\<close> succeeds exactly when it is given distinct groups that are all present, at
  least one; then it removes exactly those and bumps the number once.\<close>

theorem Leave_success_iff:
  "Leave gs c = Inr (True, c') \<longleftrightarrow> gs \<noteq> [] \<and> distinct gs \<and> set gs \<subseteq> set (keys (Groups c)) \<and>
     c' = c\<lparr>Num := Num c + 1, Groups := filter (\<lambda>p. fst p \<notin> set gs) (Groups c)\<rparr>"
  using leave_loop_True [of gs False c c'] leave_loop_True [of gs False c] leave_loop_complete [of gs c False]
  unfolding Leave_def gids_def by auto


end
