(* ===== verification/Shard_Json.thy ===== *)
theory Shard_Json
  imports Shard_Config Go_Json
begin

section \<open>Configurations as text (shardkv1/shardcfg/shardcfg.go)\<close>

text \<open>
  A configuration is kept as JSON text: \<open>String\<close> writes it and \<open>FromString\<close> reads it. A text that
  \<open>FromString\<close> cannot read stops the process (\<^verbatim>\<open>log.Fatalf\<close>): the result is \<open>None\<close>. The fields are
  written in the order of the struct and the groups in the order of the text of their ids. The
  model does not tell a nil map or slice from an empty one: the slices and maps of a configuration
  come from \<open>MakeShardConfig\<close>, \<open>Copy\<close> or the decoder and are written as empty ones.
\<close>

definition cfg_json :: "ShardConfig \<Rightarrow> jvalue" where
  "cfg_json cfg = JObj
     [(''Num'', enc_int (sint (Num cfg))),
      (''Shards'', enc_slice enc_int (Shards cfg)),
      (''Groups'', enc_map (enc_slice JStr) (Groups cfg))]"

definition String :: "ShardConfig \<Rightarrow> string" where
  "String cfg = print (cfg_json cfg)"

definition cfg_field :: "string \<Rightarrow> ShardConfig decoder option" where
  "cfg_field = map_of
     [(''NUM'', \<lambda>v cfg. map_option (\<lambda>n. cfg\<lparr>Num := word_of_int n\<rparr>) (dec_int v (sint (Num cfg)))),
      (''SHARDS'', \<lambda>v cfg. map_option (\<lambda>gs. cfg\<lparr>Shards := gs\<rparr>) (dec_array dec_int 0 v (Shards cfg))),
      (''GROUPS'', \<lambda>v cfg. map_option (\<lambda>m. cfg\<lparr>Groups := m\<rparr>) (dec_map (dec_slice dec_string []) [] v (Groups cfg)))]"

definition FromString :: "string \<Rightarrow> ShardConfig option" where
  "FromString s = Unmarshal_json (dec_struct cfg_field) s \<lparr>Num = 0, Shards = replicate NShards 0, Groups = []\<rparr>"

text \<open>The configurations that fit Go's types, and equality of configurations as Go values: the order
  of the groups does not count.\<close>

definition cfg_fits :: "ShardConfig \<Rightarrow> bool" where
  "cfg_fits cfg \<longleftrightarrow> wf_map (Groups cfg) \<and> length (Shards cfg) = NShards \<and> list_all int64 (Shards cfg) \<and>
     list_all (\<lambda>(g, srvs). int64 g \<and> list_all valid_utf8 srvs) (Groups cfg)"

definition same_config :: "ShardConfig \<Rightarrow> ShardConfig \<Rightarrow> bool" where
  "same_config c d \<longleftrightarrow> Num c = Num d \<and> Shards c = Shards d \<and> map_of (Groups c) = map_of (Groups d)"

lemma fold_names: "foldName ''Num'' = ''NUM''" "foldName ''Shards'' = ''SHARDS''" "foldName ''Groups'' = ''GROUPS''"
  by code_simp+

lemma dec_server_names: "list_all valid_utf8 srvs \<Longrightarrow> dec_slice dec_string [] (enc_slice JStr srvs) old = Some srvs"
  by (rule dec_enc_slice) simp

lemma int64_sint: "int64 (sint (w :: goint))"
  using sint_greater_eq [of w] sint_less [of w] by simp

lemma dec_cfg:
  assumes "cfg_fits c"
  shows "\<exists>m. mset m = mset (Groups c) \<and>
    dec_struct cfg_field (cfg_json c) \<lparr>Num = 0, Shards = replicate NShards 0, Groups = []\<rparr> = Some (c\<lparr>Groups := m\<rparr>)"
proof -
  have "\<exists>m. dec_map (dec_slice dec_string []) [] (enc_map (enc_slice JStr) (Groups c)) [] = Some m \<and> mset m = mset (Groups c)"
    by (rule dec_enc_map) (use assms in \<open>auto simp: cfg_fits_def list_all_iff intro!: dec_server_names\<close>)
  then obtain m where m: "dec_map (dec_slice dec_string []) [] (enc_map (enc_slice JStr) (Groups c)) [] = Some m"
    "mset m = mset (Groups c)" by blast
  have "dec_array dec_int 0 (enc_slice enc_int (Shards c)) (replicate NShards 0) = Some (Shards c)"
    by (rule dec_enc_array) (use assms in \<open>auto simp: cfg_fits_def list_all_iff\<close>)
  moreover have "dec_int (enc_int (sint (Num c))) i = Some (sint (Num c))" for i
    using int64_sint [of "Num c"] by (rule dec_enc_int)
  ultimately have "dec_struct cfg_field (cfg_json c) \<lparr>Num = 0, Shards = replicate NShards 0, Groups = []\<rparr> = Some (c\<lparr>Groups := m\<rparr>)"
    using m(1) by (simp add: cfg_json_def cfg_field_def fold_names del: dec_map.simps dec_array.simps foldName.simps)
  with m(2) show ?thesis by blast
qed

lemma parse_cfg: "cfg_fits c \<Longrightarrow> parse_json (String c) = Some (cfg_json c)"
  unfolding String_def
proof (rule parse_print)
  assume c: "cfg_fits c"
  have "valid_utf8 ''Num''" "valid_utf8 ''Shards''" "valid_utf8 ''Groups''"
    by (rule ascii_valid, simp add: byte_of_def)+
  moreover have "plain (enc_slice enc_int (Shards c))" "plain (enc_map (enc_slice JStr) (Groups c))"
    using c by (auto simp: cfg_fits_def list_all_iff intro!: plain_enc_slice plain_enc_map)
  ultimately show "plain (cfg_json c)" by (simp add: cfg_json_def)
  have "depth (cfg_json c) \<le> Suc (Suc (Suc 0))"
    unfolding cfg_json_def
    by (rule depth_le(2)) (auto intro!: depth_enc_slice depth_enc_map order_trans [OF depth_enc_slice [where n = 0]])
  then show "depth (cfg_json c) \<le> maxNestingDepth" by (simp add: maxNestingDepth_def)
qed

lemma FromString_String:
  assumes "cfg_fits c"
  shows "\<exists>d. FromString (String c) = Some d \<and> cfg_fits d \<and> same_config c d"
proof -
  from dec_cfg [OF assms] obtain m where m: "mset m = mset (Groups c)"
    "dec_struct cfg_field (cfg_json c) \<lparr>Num = 0, Shards = replicate NShards 0, Groups = []\<rparr> = Some (c\<lparr>Groups := m\<rparr>)" by blast
  have "wf_map m \<and> map_of m = map_of (Groups c)"
    using assms wf_map_perm [of "Groups c" m] m(1) by (simp add: cfg_fits_def)
  moreover have "set m = set (Groups c)" using m(1) by (rule mset_eq_setD)
  ultimately show ?thesis using m(2) assms parse_cfg [OF assms]
    by (auto simp: FromString_def Unmarshal_json_def cfg_fits_def same_config_def list_all_iff)
qed

lemma String_same:
  assumes "cfg_fits c" "cfg_fits d" "same_config c d"
  shows "String c = String d"
proof -
  have "mset (Groups c) = mset (Groups d)"
    using assms by (auto simp: cfg_fits_def same_config_def map_of_inject_set set_eq_iff_mset_eq_distinct distinct_map)
  then have "sort_key (\<lambda>(k, v). Itoa k) (Groups c) = sort_key (\<lambda>(k, v). Itoa k) (Groups d)"
    using assms(1)
    by (intro sort_key_inj_key_eq) (auto simp: cfg_fits_def inj_on_def dest: eq_key_imp_eq_value)
  with assms(3) show ?thesis by (simp add: String_def cfg_json_def enc_map_def same_config_def)
qed

interpretation cfg_text: json_format String FromString cfg_fits same_config
proof unfold_locales
  show "\<exists>d. FromString (String c) = Some d \<and> same_config c d" if "cfg_fits c" for c
    using FromString_String [OF that] by blast
  show "String c = String d" if "cfg_fits c" "cfg_fits d" "same_config c d" for c d
    using that by (rule String_same)
qed (simp_all add: same_config_def)

subsection \<open>Properties\<close>

text \<open>C3. A configuration written with \<open>String\<close> is read back by \<open>FromString\<close> as the same
  configuration (number, shards and groups; the order of the groups is not kept), and two
  configurations have the same text exactly when they are the same. The hypothesis says that the
  values fit Go's types: 12 shards, ids of 64 bits, server names in UTF-8.\<close>

theorem config_round_trip:
  assumes "cfg_fits c" and "cfg_fits d"
  shows "(\<exists>e. FromString (String c) = Some e \<and> same_config c e) \<and> (String c = String d \<longleftrightarrow> same_config c d)"
  using cfg_text.read_back [OF assms(1)] cfg_text.text_iff [OF assms] by blast

definition stored_config :: ShardConfig where
  "stored_config = \<lparr>Num = 5, Shards = replicate 6 10 @ replicate 6 (-2), Groups = [(10, [''s-10-0'', ''a<b'']), (-2, [])]\<rparr>"

lemma stored_config_fits:
  "cfg_fits stored_config" "cfg_fits (stored_config\<lparr>Groups := rev (Groups stored_config)\<rparr>)"
proof -
  have "valid_utf8 ''s-10-0''" "valid_utf8 ''a<b''" by (rule ascii_valid, simp add: byte_of_def)+
  then show "cfg_fits stored_config" "cfg_fits (stored_config\<lparr>Groups := rev (Groups stored_config)\<rparr>)"
    by (simp_all add: cfg_fits_def stored_config_def NShards_def list_all_iff)
qed

theorem config_round_trip_witness:
  "(\<exists>e. FromString (String stored_config) = Some e \<and> same_config stored_config e) \<and>
    String stored_config = String (stored_config\<lparr>Groups := rev (Groups stored_config)\<rparr>)"
  using config_round_trip [OF stored_config_fits]
  by (simp add: same_config_def stored_config_def fun_eq_iff)

lemma same_config_valid:
  assumes "same_config c d" "valid_config c" "cfg_fits d"
  shows "valid_config d \<and> length (Groups d) = length (Groups c) \<and> gids d = gids c"
proof -
  have g: "gids d = gids c" using assms(1) unfolding same_config_def gids_def
    by (metis dom_map_of_conv_image_fst set_map)
  have wf: "wf_map (Groups c)" "wf_map (Groups d)"
    using assms(2,3) by (auto simp: valid_config_def wf_config_def cfg_fits_def)
  from g distinct_card [OF wf(1)] distinct_card [OF wf(2)] have len: "length (Groups d) = length (Groups c)"
    by (simp add: gids_def)
  then have "Groups d = [] \<longleftrightarrow> Groups c = []" by (metis length_0_conv)
  with assms g wf len show ?thesis
    by (auto simp: valid_config_def wf_config_def balanced_def assigned_def load_def same_config_def)
qed

lemma stored_valid:
  assumes "valid_config c" and "list_all (\<lambda>(g, srvs). int64 g \<and> list_all valid_utf8 srvs) (Groups c)"
  shows "\<exists>d. FromString (String c) = Some d \<and> CheckConfig d (keys (Groups c)) = Inr () \<and>
    (\<forall>key. GidServers d (Key2Shard key) = GidServers c (Key2Shard key))"
proof -
  have "cfg_fits c"
    using assms by (fastforce simp: valid_config_def wf_config_def assigned_def gids_def cfg_fits_def list_all_iff split: if_splits)
  from FromString_String [OF this] obtain d where d: "FromString (String c) = Some d" "cfg_fits d" "same_config c d" by blast
  from same_config_valid [OF d(3) assms(1) d(2)] have v: "valid_config d" "length (Groups d) = length (Groups c)" "gids d = gids c"
    by auto
  then have "CheckConfig d (keys (Groups c)) = Inr ()"
    using CheckConfig_conditions [OF valid_config_wf [OF v(1)], of "keys (Groups c)"]
    by (auto simp: valid_config_def gids_def split: if_splits)
  moreover have "GidServers d s = GidServers c s" for s
    using d(3) by (simp add: GidServers_def same_config_def)
  ultimately show ?thesis using d(1) by blast
qed

text \<open>C22. What another process reads from the store is as good as what the controller wrote: a
  configuration reached by joins and leaves, written and read back, passes \<open>CheckConfig\<close> for the
  same groups and sends every key to the same group and servers.\<close>

theorem stored_config_routes:
  assumes "reachable_config c" and "list_all (\<lambda>(g, srvs). int64 g \<and> list_all valid_utf8 srvs) (Groups c)"
  shows "\<exists>d. FromString (String c) = Some d \<and> CheckConfig d (keys (Groups c)) = Inr () \<and>
    (\<forall>key. GidServers d (Key2Shard key) = GidServers c (Key2Shard key))"
  using stored_valid assms reachable_config_valid by blast

theorem stored_config_routes_witness:
  "\<exists>d. FromString (String first_config) = Some d \<and> CheckConfig d [1] = Inr ()"
proof -
  have "list_all (\<lambda>(g, srvs). int64 g \<and> list_all valid_utf8 srvs) (Groups first_config)"
    by (simp add: first_config_def) (intro conjI ascii_valid; simp add: byte_of_def)
  from stored_config_routes [OF reachable_first this] show ?thesis by (auto simp: first_config_def)
qed

end
