(* ===== verification/Gob.thy ===== *)
theory Gob
  imports Prelude
begin

section \<open>The checked gob encoder (labgob/labgob.go)\<close>

text \<open>
  \<^verbatim>\<open>labgob\<close> wraps Go's \<^verbatim>\<open>encoding/gob\<close> with two warnings: \<open>checkType\<close> walks a type and
  counts the struct fields whose names gob will not send, and \<open>checkDefault\<close> counts the
  non-default values that gob will not overwrite. The package keeps three things: the types
  already checked, the error count, and what it printed.

  Types may be recursive, so a type is a number and an environment describes it, as
  \<^verbatim>\<open>reflect.Type\<close> does. The walk marks a type before it descends, which is why it ends;
  the loop over the fields and the recursive calls are one function on a list of field and
  element types. Go's gob codec itself is an argument.
\<close>

subsection \<open>Types, values and the package state\<close>

type_synonym tid = nat

datatype rtype =
    TStruct string "(string \<times> tid) list"
  | TElem tid
  | TMap tid tid
  | TOther

type_synonym tenv = "(tid, rtype) gomap"

datatype basic = BBool bool | BInt int | BUint nat | BFloat "64 word" | BString string

datatype gvalue =
    VStruct "(string \<times> gvalue) list"
  | VPtr "gvalue option"
  | VBasic string basic
  | VOther

record gob_state =
  checked :: "tid list"
  errorCount :: nat
  printed :: "string list"

datatype gob_error = NilType

definition init_gob :: gob_state where
  "init_gob = \<lparr>checked = [], errorCount = 0, printed = []\<rparr>"

subsection \<open>checkType\<close>

definition type_of :: "tenv \<Rightarrow> tid \<Rightarrow> rtype" where
  "type_of env t = (case map_of env t of Some r \<Rightarrow> r | None \<Rightarrow> TOther)"

text \<open>
  What a type makes the walk look at next: for a struct its fields in order, each with the
  name to test; for a map first the element, then the key.
\<close>

definition parts :: "rtype \<Rightarrow> ((string \<times> string) option \<times> tid) list" where
  "parts r = (case r of
      TStruct name fs \<Rightarrow> map (\<lambda>(n, t). (Some (n, name), t)) fs
    | TElem e \<Rightarrow> [(None, e)]
    | TMap e k \<Rightarrow> [(None, e), (None, k)]
    | TOther \<Rightarrow> [])"

definition lower_case :: "(nat \<Rightarrow> bool) \<Rightarrow> string \<Rightarrow> bool" where
  "lower_case IsUpper name = (IsUpper (fst (DecodeRune name)) = False)"

definition complain :: "(nat \<Rightarrow> bool) \<Rightarrow> (string \<times> string) option \<Rightarrow> gob_state \<Rightarrow> gob_state" where
  "complain IsUpper nm st = (case nm of
      Some (n, tname) \<Rightarrow>
        if lower_case IsUpper n
        then st\<lparr>errorCount := errorCount st + 1,
                printed := printed st @ [''labgob error: lower-case field '' @ n @ '' of '' @ tname @
                  '' in RPC or persist/snapshot will break your Raft'']\<rparr>
        else st
    | None \<Rightarrow> st)"

function check_parts :: "(nat \<Rightarrow> bool) \<Rightarrow> tenv \<Rightarrow> ((string \<times> string) option \<times> tid) list \<Rightarrow> gob_state \<Rightarrow> gob_state" where
  "check_parts IsUpper env [] st = st"
| "check_parts IsUpper env ((nm, t) # ps) st =
     (let st1 = complain IsUpper nm st in
      if t \<in> set (checked st1) then check_parts IsUpper env ps st1
      else check_parts IsUpper env ps
             (check_parts IsUpper env (parts (type_of env t)) (st1\<lparr>checked := t # checked st1\<rparr>)))"
  by pat_completeness auto

lemma complain_checked [simp]: "checked (complain IsUpper nm st) = checked st"
  by (simp add: complain_def split: option.split)

lemma check_parts_mono_dom:
  "check_parts_dom (IsUpper, env, ps, st) \<Longrightarrow> set (checked st) \<subseteq> set (checked (check_parts IsUpper env ps st))"
  by (induction IsUpper env ps st rule: check_parts.pinduct) (force simp: check_parts.psimps Let_def)+

lemma parts_unknown: "t \<notin> set (keys env) \<Longrightarrow> parts (type_of env t) = []"
  by (simp add: type_of_def parts_def map_of_None_keys [THEN iffD2])

termination check_parts
proof (relation "inv_image (finite_psubset <*lex*> less_than)
    (\<lambda>(IsUpper, env, ps, st). (set (keys env) - set (checked st), length ps))", goal_cases)
  case 1
  show ?case by (intro wf_inv_image wf_lex_prod wf_finite_psubset wf_less_than)
next
  case (2 IsUpper env nm t ps st st1)
  then show ?case by simp
next
  case (3 IsUpper env nm t ps st st1)
  then show ?case
    using parts_unknown [of t env] by (cases "t \<in> set (keys env)") (auto simp: finite_psubset_def)
next
  case (4 IsUpper env nm t ps st st1)
  from check_parts_mono_dom [OF 4(3)] have
    "insert t (set (checked st)) \<subseteq> set (checked (check_parts IsUpper env (parts (type_of env t)) (st1\<lparr>checked := t # checked st1\<rparr>)))"
    by (simp add: 4(1))
  then show ?case
    by (cases "t \<in> set (keys env)") (auto simp: finite_psubset_def)
qed

definition checkType :: "(nat \<Rightarrow> bool) \<Rightarrow> tenv \<Rightarrow> tid \<Rightarrow> gob_state \<Rightarrow> gob_state" where
  "checkType IsUpper env t st = check_parts IsUpper env [(None, t)] st"

text \<open>An interface value is nil or carries its type and its value.\<close>

type_synonym iface = "(tid \<times> gvalue) option"

definition checkValue :: "(nat \<Rightarrow> bool) \<Rightarrow> tenv \<Rightarrow> iface \<Rightarrow> gob_state \<Rightarrow> gob_error + gob_state" where
  "checkValue IsUpper env e st =
     (case e of None \<Rightarrow> Inl NilType | Some (t, _) \<Rightarrow> Inr (checkType IsUpper env t st))"

subsection \<open>checkDefault\<close>

text \<open>\<^verbatim>\<open>reflect.DeepEqual\<close> with the zero value; both float zeros compare equal.\<close>

fun default_basic :: "basic \<Rightarrow> bool" where
  "default_basic (BBool b) = (b = False)"
| "default_basic (BInt i) = (i = 0)"
| "default_basic (BUint n) = (n = 0)"
| "default_basic (BFloat w) = (w = 0 \<or> w = push_bit 63 1)"
| "default_basic (BString s) = (s = [])"

definition warn_default :: "string \<Rightarrow> string \<Rightarrow> gob_state \<Rightarrow> gob_state" where
  "warn_default name tname st =
     (let what = (if name = [] then tname else name);
          st1 = (if errorCount st < 1
                 then st\<lparr>printed := printed st @ [''labgob warning: Decoding into a non-default variable/field '' @
                        what @ '' may not work'']\<rparr>
                 else st)
      in st1\<lparr>errorCount := errorCount st1 + 1\<rparr>)"

fun checkDefault1 :: "gvalue \<Rightarrow> nat \<Rightarrow> string \<Rightarrow> gob_state \<Rightarrow> gob_state"
  and checkDefault_fields :: "(string \<times> gvalue) list \<Rightarrow> nat \<Rightarrow> string \<Rightarrow> gob_state \<Rightarrow> gob_state" where
  "checkDefault1 (VStruct fs) depth name st =
     (if depth > 3 then st else checkDefault_fields fs depth name st)"
| "checkDefault1 (VPtr None) depth name st = st"
| "checkDefault1 (VPtr (Some v)) depth name st =
     (if depth > 3 then st else checkDefault1 v (depth + 1) name st)"
| "checkDefault1 (VBasic tname b) depth name st =
     (if depth > 3 then st
      else if default_basic b = False then warn_default name tname st else st)"
| "checkDefault1 VOther depth name st = st"
| "checkDefault_fields [] depth name st = st"
| "checkDefault_fields ((n, v) # fs) depth name st =
     checkDefault_fields fs depth name
       (checkDefault1 v (depth + 1) (if name \<noteq> [] then name @ ''.'' @ n else n) st)"

definition checkDefault :: "iface \<Rightarrow> gob_state \<Rightarrow> gob_state" where
  "checkDefault e st = (case e of None \<Rightarrow> st | Some (_, v) \<Rightarrow> checkDefault1 v 1 [] st)"

subsection \<open>The wrapped codec\<close>

text \<open>The checked encoder and decoder hold gob's own.\<close>

record 'e LabEncoder =
  enc_gob :: 'e

definition NewEncoder :: "('w \<Rightarrow> 'e) \<Rightarrow> 'w \<Rightarrow> 'e LabEncoder" where
  "NewEncoder gob_NewEncoder w = (let enc = \<lparr>enc_gob = gob_NewEncoder w\<rparr> in enc)"

record 'd LabDecoder =
  dec_gob :: 'd

definition NewDecoder :: "('r \<Rightarrow> 'd) \<Rightarrow> 'r \<Rightarrow> 'd LabDecoder" where
  "NewDecoder gob_NewDecoder r = (let dec = \<lparr>dec_gob = gob_NewDecoder r\<rparr> in dec)"

definition Encode :: "(nat \<Rightarrow> bool) \<Rightarrow> tenv \<Rightarrow> (iface \<Rightarrow> 'r) \<Rightarrow> iface \<Rightarrow> gob_state \<Rightarrow> gob_error + 'r \<times> gob_state" where
  "Encode IsUpper env gob_Encode e st =
     (case checkValue IsUpper env e st of Inl x \<Rightarrow> Inl x | Inr st1 \<Rightarrow> Inr (gob_Encode e, st1))"

definition Decode :: "(nat \<Rightarrow> bool) \<Rightarrow> tenv \<Rightarrow> (iface \<Rightarrow> 'r) \<Rightarrow> iface \<Rightarrow> gob_state \<Rightarrow> gob_error + 'r \<times> gob_state" where
  "Decode IsUpper env gob_Decode e st =
     (case checkValue IsUpper env e st of
        Inl x \<Rightarrow> Inl x
      | Inr st1 \<Rightarrow> Inr (gob_Decode e, checkDefault e st1))"

definition Register :: "(nat \<Rightarrow> bool) \<Rightarrow> tenv \<Rightarrow> iface \<Rightarrow> gob_state \<Rightarrow> gob_error + gob_state" where
  "Register IsUpper env value st = checkValue IsUpper env value st"

subsection \<open>Reference notions\<close>

definition succs :: "tenv \<Rightarrow> tid \<Rightarrow> tid set" where
  "succs env t = snd ` set (parts (type_of env t))"

definition reach :: "tenv \<Rightarrow> tid \<Rightarrow> tid set" where
  "reach env t = {(u, v). v \<in> succs env u}\<^sup>* `` {t}"

definition lower_names :: "(nat \<Rightarrow> bool) \<Rightarrow> ((string \<times> string) option \<times> tid) list \<Rightarrow> nat" where
  "lower_names IsUpper ps =
     length (filter (\<lambda>(nm, _). case nm of Some (n, _) \<Rightarrow> lower_case IsUpper n | None \<Rightarrow> False) ps)"

definition bad_fields :: "(nat \<Rightarrow> bool) \<Rightarrow> tenv \<Rightarrow> tid \<Rightarrow> nat" where
  "bad_fields IsUpper env t = lower_names IsUpper (parts (type_of env t))"

text \<open>Every type the walk has marked has its parts marked too, between calls.\<close>

definition closed :: "tenv \<Rightarrow> gob_state \<Rightarrow> bool" where
  "closed env st \<longleftrightarrow> (\<forall>t \<in> set (checked st). succs env t \<subseteq> set (checked st))"

fun nondefault :: "gvalue \<Rightarrow> nat \<Rightarrow> (nat \<times> basic) list"
  and nondefault_fields :: "(string \<times> gvalue) list \<Rightarrow> nat \<Rightarrow> (nat \<times> basic) list" where
  "nondefault (VStruct fs) depth = nondefault_fields fs depth"
| "nondefault (VPtr None) depth = []"
| "nondefault (VPtr (Some v)) depth = nondefault v (depth + 1)"
| "nondefault (VBasic _ b) depth = (if default_basic b then [] else [(depth, b)])"
| "nondefault VOther depth = []"
| "nondefault_fields [] depth = []"
| "nondefault_fields ((_, v) # fs) depth = nondefault v (depth + 1) @ nondefault_fields fs depth"

subsection \<open>The type walk\<close>

lemma complain_errorCount:
  "errorCount (complain IsUpper nm st) = errorCount st + lower_names IsUpper [(nm, t)]"
  by (auto simp: complain_def lower_names_def split: option.split)

lemma lower_names_Cons: "lower_names IsUpper (p # ps) = lower_names IsUpper [p] + lower_names IsUpper ps"
  by (simp add: lower_names_def)

lemma check_parts_mono: "set (checked st) \<subseteq> set (checked (check_parts IsUpper env ps st))"
  by (induction IsUpper env ps st rule: check_parts.induct) (force simp: Let_def)+

declare check_parts.simps(2) [simp del]

text \<open>The step of the walk on a type that was not marked yet.\<close>

lemma check_parts_new:
  assumes "t \<notin> set (checked st)"
  shows "check_parts IsUpper env ((nm, t) # ps) st =
    check_parts IsUpper env ps (check_parts IsUpper env (parts (type_of env t))
      ((complain IsUpper nm st)\<lparr>checked := t # checked st\<rparr>))"
  using assms by (simp add: check_parts.simps(2) Let_def)

lemma check_parts_old:
  "t \<in> set (checked st) \<Longrightarrow> check_parts IsUpper env ((nm, t) # ps) st = check_parts IsUpper env ps (complain IsUpper nm st)"
  by (simp add: check_parts.simps(2) Let_def)

lemma check_parts_targets: "snd ` set ps \<subseteq> set (checked (check_parts IsUpper env ps st))"
proof (induction IsUpper env ps st rule: check_parts.induct)
  case (2 IsUpper env nm t ps st)
  show ?case
  proof (cases "t \<in> set (checked st)")
    case True
    with "2.IH"(1) [OF refl] check_parts_mono [of "complain IsUpper nm st" IsUpper env ps] show ?thesis
      by (auto simp: check_parts_old)
  next
    case False
    let ?in = "check_parts IsUpper env (parts (type_of env t)) ((complain IsUpper nm st)\<lparr>checked := t # checked st\<rparr>)"
    have "t \<in> set (checked ?in)"
      using check_parts_mono [of "(complain IsUpper nm st)\<lparr>checked := t # checked st\<rparr>"] by fastforce
    with False "2.IH"(3) [OF refl] check_parts_mono [of ?in IsUpper env ps] show ?thesis
      by (auto simp: check_parts_new)
  qed
qed simp

text \<open>Whatever the walk marks, it marks the parts of.\<close>

lemma check_parts_closed_new:
  "u \<in> set (checked (check_parts IsUpper env ps st)) \<Longrightarrow> u \<notin> set (checked st) \<Longrightarrow>
    succs env u \<subseteq> set (checked (check_parts IsUpper env ps st))"
proof (induction IsUpper env ps st rule: check_parts.induct)
  case (2 IsUpper env nm t ps st)
  show ?case
  proof (cases "t \<in> set (checked st)")
    case True
    with 2 show ?thesis by (simp add: check_parts_old)
  next
    case False
    let ?in = "check_parts IsUpper env (parts (type_of env t)) ((complain IsUpper nm st)\<lparr>checked := t # checked st\<rparr>)"
    let ?out = "check_parts IsUpper env ps ?in"
    have out: "check_parts IsUpper env ((nm, t) # ps) st = ?out" using False by (rule check_parts_new)
    have sub: "set (checked ?in) \<subseteq> set (checked ?out)" by (rule check_parts_mono)
    consider "u = t" | "u \<noteq> t" "u \<in> set (checked ?in)" | "u \<notin> set (checked ?in)" by blast
    then show ?thesis unfolding out
    proof cases
      case 1
      have "succs env t \<subseteq> set (checked ?in)" unfolding succs_def by (rule check_parts_targets)
      with 1 sub show "succs env u \<subseteq> set (checked ?out)" by blast
    next
      case 2
      with "2.prems"(2) "2.IH"(2) [OF refl] False have "succs env u \<subseteq> set (checked ?in)" by simp
      with sub show "succs env u \<subseteq> set (checked ?out)" by blast
    next
      case 3
      with "2.prems"(1) "2.IH"(3) [OF refl] False show "succs env u \<subseteq> set (checked ?out)"
        by (simp add: out)
    qed
  qed
qed simp

lemma reach_refl [simp]: "t \<in> reach env t"
  by (simp add: reach_def)

lemma reach_step: "v \<in> succs env t \<Longrightarrow> reach env v \<subseteq> reach env t"
  unfolding reach_def by (auto intro: converse_rtrancl_into_rtrancl)

lemma reach_closed:
  assumes "t \<in> A" and "\<And>u. u \<in> A \<Longrightarrow> succs env u \<subseteq> A"
  shows "reach env t \<subseteq> A"
proof -
  have "v \<in> A" if "(t, v) \<in> {(u, v). v \<in> succs env u}\<^sup>*" for v
    using that by (induction rule: rtrancl_induct) (use assms in auto)
  then show ?thesis by (auto simp: reach_def)
qed

lemma check_parts_reach:
  "set (checked (check_parts IsUpper env ps st)) \<subseteq> set (checked st) \<union> (\<Union>p \<in> set ps. reach env (snd p))"
proof (induction IsUpper env ps st rule: check_parts.induct)
  case (2 IsUpper env nm t ps st)
  show ?case
  proof (cases "t \<in> set (checked st)")
    case True
    with "2.IH"(1) [OF refl] show ?thesis by (auto simp: check_parts_old)
  next
    case False
    have "(\<Union>p \<in> set (parts (type_of env t)). reach env (snd p)) \<subseteq> reach env t"
      using reach_step by (force simp: succs_def)
    with False "2.IH"(2,3) [OF refl] show ?thesis by (fastforce simp: check_parts_new)
  qed
qed simp

text \<open>
  The error count grows by the lower-case names in the list plus, for each newly marked
  type, its lower-case fields: each type is charged once.
\<close>

lemma check_parts_count:
  assumes "distinct (checked st)"
  shows "distinct (checked (check_parts IsUpper env ps st)) \<and>
    errorCount (check_parts IsUpper env ps st) = errorCount st + lower_names IsUpper ps +
      (\<Sum>u \<in> set (checked (check_parts IsUpper env ps st)) - set (checked st). bad_fields IsUpper env u)"
  using assms
proof (induction IsUpper env ps st rule: check_parts.induct)
  case (1 IsUpper env st)
  then show ?case by (simp add: lower_names_def)
next
  case (2 IsUpper env nm t ps st)
  let ?st1 = "complain IsUpper nm st"
  have names: "lower_names IsUpper ((nm, t) # ps) = lower_names IsUpper [(nm, t)] + lower_names IsUpper ps"
    by (rule lower_names_Cons)
  show ?case
  proof (cases "t \<in> set (checked st)")
    case True
    with "2.IH"(1) [OF refl] "2.prems" names show ?thesis
      by (simp add: check_parts_old complain_errorCount [of _ _ _ t])
  next
    case False
    let ?st2 = "?st1\<lparr>checked := t # checked st\<rparr>"
    let ?in = "check_parts IsUpper env (parts (type_of env t)) ?st2"
    let ?out = "check_parts IsUpper env ps ?in" and ?b = "bad_fields IsUpper env"
    have out: "check_parts IsUpper env ((nm, t) # ps) st = ?out" using False by (rule check_parts_new)
    have in2: "distinct (checked ?in) \<and> errorCount ?in = errorCount ?st2 + ?b t +
        sum ?b (set (checked ?in) - insert t (set (checked st)))"
      using "2.IH"(2) [OF refl] False "2.prems" by (simp add: bad_fields_def)
    then have out2: "distinct (checked ?out) \<and> errorCount ?out = errorCount ?in + lower_names IsUpper ps +
        sum ?b (set (checked ?out) - set (checked ?in))"
      using "2.IH"(3) [OF refl] False by simp
    have t_in: "insert t (set (checked st)) \<subseteq> set (checked ?in)"
      using check_parts_mono [of ?st2] by simp
    have in_out: "set (checked ?in) \<subseteq> set (checked ?out)" by (rule check_parts_mono)
    have "set (checked ?out) - set (checked st) =
        insert t ((set (checked ?in) - insert t (set (checked st))) \<union> (set (checked ?out) - set (checked ?in)))"
      using t_in in_out False by auto
    then have "sum ?b (set (checked ?out) - set (checked st)) =
        ?b t + (sum ?b (set (checked ?in) - insert t (set (checked st))) + sum ?b (set (checked ?out) - set (checked ?in)))"
      using t_in by (subst sum.union_disjoint [symmetric]) auto
    with in2 out2 names show ?thesis
      unfolding out by (simp add: complain_errorCount [of _ _ _ t])
  qed
qed

subsection \<open>The default-value check\<close>

lemma warn_default_errorCount [simp]: "errorCount (warn_default name tname st) = errorCount st + 1"
  by (simp add: warn_default_def Let_def)

lemma nondefault_depth:
  "(d, b) \<in> set (nondefault v depth) \<Longrightarrow> depth \<le> d"
  "(d, b) \<in> set (nondefault_fields fs depth) \<Longrightarrow> depth < d"
  by (induction v depth and fs depth rule: nondefault_nondefault_fields.induct) (auto split: if_splits)

lemma filter_deep:
  "depth > k \<Longrightarrow> filter (\<lambda>(d, b). d \<le> k) (nondefault v depth) = []"
  "depth \<ge> k \<Longrightarrow> filter (\<lambda>(d, b). d \<le> k) (nondefault_fields fs depth) = []"
  using nondefault_depth by (fastforce simp: filter_empty_conv)+

lemma checkDefault1_count:
  "errorCount (checkDefault1 v depth name st) =
    errorCount st + length (filter (\<lambda>(d, b). d \<le> 3) (nondefault v depth))"
  "errorCount (checkDefault_fields fs depth name st) =
    errorCount st + length (filter (\<lambda>(d, b). d \<le> 3) (nondefault_fields fs depth))"
  by (induction v depth name st and fs depth name st rule: checkDefault1_checkDefault_fields.induct)
     (auto simp: filter_deep)

lemma checkDefault1_printed:
  "1 \<le> errorCount st \<Longrightarrow> printed (checkDefault1 v depth name st) = printed st \<and> 1 \<le> errorCount (checkDefault1 v depth name st)"
  "1 \<le> errorCount st \<Longrightarrow> printed (checkDefault_fields fs depth name st) = printed st \<and> 1 \<le> errorCount (checkDefault_fields fs depth name st)"
  by (induction v depth name st and fs depth name st rule: checkDefault1_checkDefault_fields.induct)
     (auto simp: warn_default_def Let_def)

lemma checkDefault1_prints_once:
  "errorCount st = 0 \<Longrightarrow> length (printed (checkDefault1 v depth name st)) =
    length (printed st) + (if errorCount (checkDefault1 v depth name st) = 0 then 0 else 1)"
  "errorCount st = 0 \<Longrightarrow> length (printed (checkDefault_fields fs depth name st)) =
    length (printed st) + (if errorCount (checkDefault_fields fs depth name st) = 0 then 0 else 1)"
proof (induction v depth name st and fs depth name st rule: checkDefault1_checkDefault_fields.induct)
  case (7 n v fs depth name st)
  let ?st = "checkDefault1 v (depth + 1) (if name \<noteq> [] then name @ ''.'' @ n else n) st"
  show ?case
  proof (cases "errorCount ?st = 0")
    case True
    with 7 show ?thesis by simp
  next
    case False
    with 7 checkDefault1_printed(2) [of ?st fs depth name] show ?thesis by simp
  qed
qed (auto simp: warn_default_def Let_def)

subsection \<open>Concrete types and values for the witnesses\<close>

text \<open>A recursive list type: \<^verbatim>\<open>type Node struct { val int; Next *Node; Tags map[string]Node }\<close>.\<close>

definition node_env :: tenv where
  "node_env = [(0, TStruct ''Node'' [(''val'', 1), (''Next'', 2), (''Tags'', 3)]),
     (1, TOther), (2, TElem 0), (3, TMap 0 4), (4, TOther)]"

definition ascii_upper :: "nat \<Rightarrow> bool" where
  "ascii_upper r = (65 \<le> r \<and> r \<le> 90)"

definition reply_value :: gvalue where
  "reply_value = VPtr (Some (VStruct [(''Value'', VBasic ''string'' (BString ''x'')), (''Version'', VBasic ''Tversion'' (BUint 0)),
     (''Err'', VBasic ''Err'' (BString ''OK''))]))"

lemma closed_init: "closed env init_gob"
  by (simp add: closed_def init_gob_def)

subsection \<open>Properties\<close>

text \<open>C8. \<open>checkType\<close> ends on every type, also a recursive one: it marks exactly the types
  reachable from its argument, and adds to the error count one for each lower-case field of
  each reachable struct type it had not seen before.\<close>

theorem checkType_exact:
  assumes "closed env st" and "distinct (checked st)"
  shows "set (checked (checkType IsUpper env t st)) = set (checked st) \<union> reach env t \<and>
    errorCount (checkType IsUpper env t st) =
      errorCount st + (\<Sum>u \<in> reach env t - set (checked st). bad_fields IsUpper env u) \<and>
    closed env (checkType IsUpper env t st)"
proof -
  let ?out = "check_parts IsUpper env [(None, t)] st"
  have mono: "set (checked st) \<subseteq> set (checked ?out)" by (rule check_parts_mono)
  have cl: "succs env u \<subseteq> set (checked ?out)" if "u \<in> set (checked ?out)" for u
    using check_parts_closed_new [OF that] assms(1) mono by (auto simp: closed_def)
  have "t \<in> set (checked ?out)" using check_parts_targets [of "[(None, t)]"] by force
  with cl have "reach env t \<subseteq> set (checked ?out)" by (rule reach_closed [rotated])
  with mono check_parts_reach [of IsUpper env "[(None, t)]" st]
  have eq: "set (checked ?out) = set (checked st) \<union> reach env t" by auto
  have "lower_names IsUpper [(None, t)] = 0" by (simp add: lower_names_def)
  moreover have "set (checked ?out) - set (checked st) = reach env t - set (checked st)" using eq by auto
  ultimately show ?thesis
    using check_parts_count [OF assms(2), of IsUpper env "[(None, t)]"] eq cl
    by (simp add: checkType_def closed_def)
qed

theorem checkType_exact_witness:
  "closed node_env init_gob \<and> errorCount (checkType ascii_upper node_env 2 init_gob) =
     (\<Sum>u \<in> reach node_env 2. bad_fields ascii_upper node_env u) \<and>
   errorCount (checkType ascii_upper node_env 2 init_gob) = 1"
proof -
  have d: "distinct (checked init_gob)" by (simp add: init_gob_def)
  have e: "errorCount (checkType ascii_upper node_env 2 init_gob) = 1" by code_simp
  from checkType_exact [where IsUpper = ascii_upper and t = 2 and env = node_env, OF closed_init d] closed_init [of node_env] e
  show ?thesis by (simp add: init_gob_def)
qed

text \<open>The package complains once per type: after \<open>checkType\<close> on a type, checking it again,
  or any type reachable from it, changes nothing.\<close>

theorem checkType_once:
  assumes "u \<in> reach env t" and "closed env st" and "distinct (checked st)"
  shows "checkType IsUpper env u (checkType IsUpper env t st) = checkType IsUpper env t st"
proof -
  let ?st = "checkType IsUpper env t st"
  have "u \<in> set (checked ?st)" using checkType_exact [OF assms(2,3)] assms(1) by blast
  then show ?thesis by (simp add: checkType_def check_parts_old complain_def)
qed

theorem checkType_once_witness:
  "checkType ascii_upper node_env 2 (checkType ascii_upper node_env 2 init_gob) = checkType ascii_upper node_env 2 init_gob"
  by (rule checkType_once [OF reach_refl closed_init]) (simp add: init_gob_def)

text \<open>\<open>checkDefault\<close> counts exactly the non-default basic values at nesting depth at most
  three (the pointer passed in is depth one) and misses every deeper one; from a clean state
  it prints one warning if it counts any, and once the error count is positive it prints none.\<close>

theorem checkDefault_counts:
  "errorCount (checkDefault (Some (t, v)) st) =
     errorCount st + length (filter (\<lambda>(d, b). d \<le> 3) (nondefault v 1)) \<and>
   length (printed (checkDefault (Some (t, v)) st)) = length (printed st) +
     (if errorCount st = 0 \<and> errorCount (checkDefault (Some (t, v)) st) \<noteq> 0 then 1 else 0)"
  using checkDefault1_count(1) [of v 1 "[]" st] checkDefault1_prints_once(1) [of st v 1 "[]"]
    checkDefault1_printed(1) [of st v 1 "[]"]
  by (cases "errorCount st = 0") (simp_all add: checkDefault_def)

end
