(* ===== verification/Rpc_Net.thy ===== *)
theory Rpc_Net
  imports Prelude
begin

section \<open>The simulated network (labrpc/labrpc.go)\<close>

text \<open>
  \<^verbatim>\<open>labrpc\<close> simulates a network that loses, delays and reorders messages. The first part
  models the tables a \<open>Network\<close> keeps and the operations on them, and the dispatch of a
  request inside a server. The second part is a step relation for calls in flight: one call
  is the client's goroutine, the network's \<open>processReq\<close> and the goroutine that runs the
  handler; many calls interleave with each other and with the operations that reconfigure
  the network. Random choices (drops, delays) are choices of the relation; a handler runs
  as one step on an application state.
\<close>

subsection \<open>Messages, services and servers\<close>

type_synonym ename = string
type_synonym sname = string
type_synonym sptr = nat

record reqMsg =
  endname :: ename
  svcMeth :: string
  args :: bytes

record replyMsg =
  ok :: bool
  reply :: bytes

abbreviation failed :: replyMsg where
  "failed \<equiv> \<lparr>ok = False, reply = []\<rparr>"

type_synonym 'w handler = "bytes \<Rightarrow> 'w \<Rightarrow> bytes \<times> 'w"

text \<open>A method as reflection shows it.\<close>

record 'w rmethod =
  mname :: string
  pkgPath :: string
  numIn :: nat
  in2_ptr :: bool
  numOut :: nat
  func :: "'w handler"

record 'w Service =
  sv_name :: string
  methods :: "string \<rightharpoonup> 'w handler"

record 'w Server =
  services :: "string \<rightharpoonup> 'w Service"
  sv_count :: goint

datatype rpc_error =
    EndExists ename
  | NoSuchEnd ename
  | NilServer sname
  | SliceBounds
  | UnknownService string
  | UnknownMethod string

definition suitable :: "'w rmethod \<Rightarrow> bool" where
  "suitable m = (\<not> (pkgPath m \<noteq> [] \<or> numIn m \<noteq> 3 \<or> in2_ptr m = False \<or> numOut m \<noteq> 0))"

fun add_methods :: "'w rmethod list \<Rightarrow> (string \<rightharpoonup> 'w handler) \<Rightarrow> (string \<rightharpoonup> 'w handler)" where
  "add_methods [] mm = mm"
| "add_methods (m # ms) mm = add_methods ms (if suitable m then mm(mname m \<mapsto> func m) else mm)"

definition MakeService :: "string \<Rightarrow> 'w rmethod list \<Rightarrow> 'w Service" where
  "MakeService tname ms = \<lparr>sv_name = tname, methods = add_methods ms Map.empty\<rparr>"

definition Service_dispatch :: "'w Service \<Rightarrow> string \<Rightarrow> reqMsg \<Rightarrow> 'w \<Rightarrow> rpc_error + replyMsg \<times> 'w" where
  "Service_dispatch svc methname req w = (case methods svc methname of
      Some f \<Rightarrow> (case f (args req) w of (r, w') \<Rightarrow> Inr (\<lparr>ok = True, reply = r\<rparr>, w'))
    | None \<Rightarrow> Inl (UnknownMethod methname))"

definition MakeServer :: "'w Server" where
  "MakeServer = \<lparr>services = Map.empty, sv_count = 0\<rparr>"

definition AddService :: "'w Server \<Rightarrow> 'w Service \<Rightarrow> 'w Server" where
  "AddService rs svc = rs\<lparr>services := (services rs)(sv_name svc \<mapsto> svc)\<rparr>"

text \<open>\<^verbatim>\<open>strings.LastIndex(s, ".")\<close>: the position of the last dot, none if there is none.\<close>

fun LastDot :: "string \<Rightarrow> nat option" where
  "LastDot [] = None"
| "LastDot (c # cs) = (case LastDot cs of
      Some i \<Rightarrow> Some (Suc i)
    | None \<Rightarrow> if c = CHR ''.'' then Some 0 else None)"

definition Server_dispatch :: "'w Server \<Rightarrow> reqMsg \<Rightarrow> 'w \<Rightarrow> rpc_error + replyMsg \<times> 'w Server \<times> 'w" where
  "Server_dispatch rs req w =
     (let rs' = rs\<lparr>sv_count := sv_count rs + 1\<rparr> in
      case LastDot (svcMeth req) of
        None \<Rightarrow> Inl SliceBounds
      | Some dot \<Rightarrow>
         (let serviceName = take dot (svcMeth req);
              methodName = drop (dot + 1) (svcMeth req)
          in case services rs serviceName of
               None \<Rightarrow> Inl (UnknownService serviceName)
             | Some svc \<Rightarrow>
                (case Service_dispatch svc methodName req w of
                   Inl e \<Rightarrow> Inl e
                 | Inr (r, w') \<Rightarrow> Inr (r, rs', w'))))"

subsection \<open>The network's tables\<close>

record Network =
  reliable :: bool
  longDelays :: bool
  longReordering :: bool
  ends :: "ename \<rightharpoonup> unit"
  enabled :: "ename \<rightharpoonup> bool"
  servers :: "sname \<rightharpoonup> sptr option"
  connections :: "ename \<rightharpoonup> sname option"
  done_closed :: bool
  rpc_count :: "32 word"
  rpc_bytes :: "64 word"

text \<open>Reading a Go map gives the zero value for a missing key.\<close>

definition is_enabled :: "Network \<Rightarrow> ename \<Rightarrow> bool" where
  "is_enabled rn e = (enabled rn e = Some True)"

definition connection :: "Network \<Rightarrow> ename \<Rightarrow> sname option" where
  "connection rn e = Option.bind (connections rn e) id"

definition server_at :: "Network \<Rightarrow> sname \<Rightarrow> sptr option" where
  "server_at rn s = Option.bind (servers rn s) id"

definition MakeNetwork :: Network where
  "MakeNetwork = \<lparr>reliable = True, longDelays = False, longReordering = False, ends = Map.empty,
     enabled = Map.empty, servers = Map.empty, connections = Map.empty, done_closed = False,
     rpc_count = 0, rpc_bytes = 0\<rparr>"

definition Cleanup :: "Network \<Rightarrow> Network" where
  "Cleanup rn = rn\<lparr>done_closed := True\<rparr>"

definition Reliable :: "bool \<Rightarrow> Network \<Rightarrow> Network" where
  "Reliable yes rn = rn\<lparr>reliable := yes\<rparr>"

definition LongReordering :: "bool \<Rightarrow> Network \<Rightarrow> Network" where
  "LongReordering yes rn = rn\<lparr>longReordering := yes\<rparr>"

definition LongDelays :: "bool \<Rightarrow> Network \<Rightarrow> Network" where
  "LongDelays yes rn = rn\<lparr>longDelays := yes\<rparr>"

definition MakeEnd :: "ename \<Rightarrow> Network \<Rightarrow> rpc_error + Network" where
  "MakeEnd e rn = (case ends rn e of
      Some _ \<Rightarrow> Inl (EndExists e)
    | None \<Rightarrow> Inr (rn\<lparr>ends := (ends rn)(e \<mapsto> ()), enabled := (enabled rn)(e \<mapsto> False),
                     connections := (connections rn)(e \<mapsto> None)\<rparr>))"

definition DeleteEnd :: "ename \<Rightarrow> Network \<Rightarrow> rpc_error + Network" where
  "DeleteEnd e rn = (case ends rn e of
      None \<Rightarrow> Inl (NoSuchEnd e)
    | Some _ \<Rightarrow> Inr (rn\<lparr>ends := (ends rn)(e := None), enabled := (enabled rn)(e := None),
                       connections := (connections rn)(e := None)\<rparr>))"

definition AddServer :: "sname \<Rightarrow> sptr \<Rightarrow> Network \<Rightarrow> Network" where
  "AddServer s p rn = rn\<lparr>servers := (servers rn)(s \<mapsto> Some p)\<rparr>"

definition DeleteServer :: "sname \<Rightarrow> Network \<Rightarrow> Network" where
  "DeleteServer s rn = rn\<lparr>servers := (servers rn)(s \<mapsto> None)\<rparr>"

definition Connect :: "ename \<Rightarrow> sname \<Rightarrow> Network \<Rightarrow> Network" where
  "Connect e s rn = rn\<lparr>connections := (connections rn)(e \<mapsto> Some s)\<rparr>"

definition Enable :: "ename \<Rightarrow> bool \<Rightarrow> Network \<Rightarrow> Network" where
  "Enable e b rn = rn\<lparr>enabled := (enabled rn)(e \<mapsto> b)\<rparr>"

definition GetCount :: "(sptr \<Rightarrow> 'w Server) \<Rightarrow> Network \<Rightarrow> sname \<Rightarrow> rpc_error + goint" where
  "GetCount heap rn s = (case server_at rn s of
      None \<Rightarrow> Inl (NilServer s)
    | Some p \<Rightarrow> Inr (sv_count (heap p)))"

definition GetTotalCount :: "Network \<Rightarrow> int" where
  "GetTotalCount rn = sint (rpc_count rn)"

definition GetTotalBytes :: "Network \<Rightarrow> int" where
  "GetTotalBytes rn = sint (rpc_bytes rn)"

record endinfo =
  i_enabled :: bool
  i_servername :: "sname option"
  i_server :: "sptr option"
  i_reliable :: bool
  i_longreordering :: bool

definition readEndnameInfo :: "Network \<Rightarrow> ename \<Rightarrow> endinfo" where
  "readEndnameInfo rn e =
     \<lparr>i_enabled = is_enabled rn e, i_servername = connection rn e,
      i_server = (case connection rn e of None \<Rightarrow> None | Some s \<Rightarrow> server_at rn s),
      i_reliable = reliable rn, i_longreordering = longReordering rn\<rparr>"

definition isServerDead :: "Network \<Rightarrow> ename \<Rightarrow> sname \<Rightarrow> sptr \<Rightarrow> bool" where
  "isServerDead rn e sn p = (is_enabled rn e = False \<or> server_at rn sn \<noteq> Some p)"

subsection \<open>Calls in flight\<close>

record target =
  t_name :: sname
  t_ptr :: sptr
  t_reliable :: bool
  t_reorder :: bool

text \<open>Where the client's call and the network's \<open>processReq\<close> stand.\<close>

datatype phase =
    Sending
  | Accepted
  | Passed target
  | Waiting target
  | GotReply target replyMsg
  | GaveUp target
  | Timer replyMsg
  | Answered replyMsg
  | Destroyed

text \<open>Where the goroutine that runs the handler stands.\<close>

datatype hnd = NotStarted | Running sptr | Finished replyMsg | Taken

record call =
  c_req :: reqMsg
  c_phase :: phase
  c_hnd :: hnd

text \<open>The last field logs the handlers that ran: call, server and reply.\<close>

record 'w sys =
  s_net :: Network
  s_loop :: bool
  s_heap :: "sptr \<Rightarrow> 'w Server"
  s_world :: 'w
  s_calls :: "nat \<rightharpoonup> call"
  s_log :: "(nat \<times> sptr \<times> bytes) list"

definition set_call :: "nat \<Rightarrow> call \<Rightarrow> 'w sys \<Rightarrow> 'w sys" where
  "set_call i c s = s\<lparr>s_calls := (s_calls s)(i \<mapsto> c)\<rparr>"

definition count_request :: "reqMsg \<Rightarrow> Network \<Rightarrow> Network" where
  "count_request r rn =
     rn\<lparr>rpc_count := rpc_count rn + 1, rpc_bytes := rpc_bytes rn + of_nat (length (args r))\<rparr>"

definition count_reply :: "replyMsg \<Rightarrow> Network \<Rightarrow> Network" where
  "count_reply r rn = rn\<lparr>rpc_bytes := rpc_bytes rn + of_nat (length (reply r))\<rparr>"

definition target_of :: "endinfo \<Rightarrow> target option" where
  "target_of ei =
     (case (i_servername ei, i_server ei) of
        (Some sn, Some p) \<Rightarrow>
          if i_enabled ei
          then Some \<lparr>t_name = sn, t_ptr = p, t_reliable = i_reliable ei, t_reorder = i_longreordering ei\<rparr>
          else None
      | _ \<Rightarrow> None)"

abbreviation dead :: "'w sys \<Rightarrow> call \<Rightarrow> target \<Rightarrow> bool" where
  "dead s c t \<equiv> isServerDead (s_net s) (endname (c_req c)) (t_name t) (t_ptr t)"

inductive admin_step :: "Network \<Rightarrow> Network \<Rightarrow> bool" where
  admin_cleanup: "admin_step rn (Cleanup rn)"
| admin_reliable: "admin_step rn (Reliable b rn)"
| admin_reordering: "admin_step rn (LongReordering b rn)"
| admin_delays: "admin_step rn (LongDelays b rn)"
| admin_make_end: "MakeEnd e rn = Inr rn' \<Longrightarrow> admin_step rn rn'"
| admin_delete_end: "DeleteEnd e rn = Inr rn' \<Longrightarrow> admin_step rn rn'"
| admin_add_server: "admin_step rn (AddServer sn p rn)"
| admin_delete_server: "admin_step rn (DeleteServer sn rn)"
| admin_connect: "admin_step rn (Connect e sn rn)"
| admin_enable: "admin_step rn (Enable e b rn)"

inductive rpc_step :: "'w sys \<Rightarrow> 'w sys \<Rightarrow> bool" where
  issue: "s_calls s i = None \<Longrightarrow>
    rpc_step s (set_call i \<lparr>c_req = r, c_phase = Sending, c_hnd = NotStarted\<rparr> s)"
| destroyed: "s_calls s i = Some c \<Longrightarrow> c_phase c = Sending \<Longrightarrow> done_closed (s_net s) \<Longrightarrow>
    rpc_step s (set_call i (c\<lparr>c_phase := Destroyed\<rparr>) s)"
| accept: "s_calls s i = Some c \<Longrightarrow> c_phase c = Sending \<Longrightarrow> s_loop s \<Longrightarrow>
    rpc_step s (set_call i (c\<lparr>c_phase := Accepted\<rparr>) (s\<lparr>s_net := count_request (c_req c) (s_net s)\<rparr>))"
| loop_exit: "done_closed (s_net s) \<Longrightarrow> rpc_step s (s\<lparr>s_loop := False\<rparr>)"
| reject: "s_calls s i = Some c \<Longrightarrow> c_phase c = Accepted \<Longrightarrow>
    target_of (readEndnameInfo (s_net s) (endname (c_req c))) = None \<Longrightarrow>
    rpc_step s (set_call i (c\<lparr>c_phase := Timer failed\<rparr>) s)"
| pass: "s_calls s i = Some c \<Longrightarrow> c_phase c = Accepted \<Longrightarrow>
    target_of (readEndnameInfo (s_net s) (endname (c_req c))) = Some t \<Longrightarrow>
    rpc_step s (set_call i (c\<lparr>c_phase := Passed t\<rparr>) s)"
| drop_request: "s_calls s i = Some c \<Longrightarrow> c_phase c = Passed t \<Longrightarrow> t_reliable t = False \<Longrightarrow>
    rpc_step s (set_call i (c\<lparr>c_phase := Answered failed\<rparr>) s)"
| start_handler: "s_calls s i = Some c \<Longrightarrow> c_phase c = Passed t \<Longrightarrow>
    rpc_step s (set_call i (c\<lparr>c_phase := Waiting t, c_hnd := Running (t_ptr t)\<rparr>) s)"
| run_handler: "s_calls s i = Some c \<Longrightarrow> c_hnd c = Running p \<Longrightarrow>
    Server_dispatch (s_heap s p) (c_req c) (s_world s) = Inr (r, rs, w) \<Longrightarrow>
    rpc_step s (set_call i (c\<lparr>c_hnd := Finished r\<rparr>)
      (s\<lparr>s_heap := (s_heap s)(p := rs), s_world := w, s_log := s_log s @ [(i, p, reply r)]\<rparr>))"
| receive: "s_calls s i = Some c \<Longrightarrow> c_phase c = Waiting t \<Longrightarrow> c_hnd c = Finished r \<Longrightarrow>
    rpc_step s (set_call i (c\<lparr>c_phase := GotReply t r, c_hnd := Taken\<rparr>) s)"
| poll_dead: "s_calls s i = Some c \<Longrightarrow> c_phase c = Waiting t \<Longrightarrow> dead s c t \<Longrightarrow>
    rpc_step s (set_call i (c\<lparr>c_phase := GaveUp t\<rparr>) s)"
| drain: "s_calls s i = Some c \<Longrightarrow> c_hnd c = Finished r \<Longrightarrow> (\<And>t. c_phase c \<noteq> Waiting t) \<Longrightarrow>
    rpc_step s (set_call i (c\<lparr>c_hnd := Taken\<rparr>) s)"
| fail_gave_up: "s_calls s i = Some c \<Longrightarrow> c_phase c = GaveUp t \<Longrightarrow>
    rpc_step s (set_call i (c\<lparr>c_phase := Answered failed\<rparr>) s)"
| fail_dead: "s_calls s i = Some c \<Longrightarrow> c_phase c = GotReply t r \<Longrightarrow> dead s c t \<Longrightarrow>
    rpc_step s (set_call i (c\<lparr>c_phase := Answered failed\<rparr>) s)"
| drop_reply: "s_calls s i = Some c \<Longrightarrow> c_phase c = GotReply t r \<Longrightarrow> \<not> dead s c t \<Longrightarrow> t_reliable t = False \<Longrightarrow>
    rpc_step s (set_call i (c\<lparr>c_phase := Answered failed\<rparr>) s)"
| delay_reply: "s_calls s i = Some c \<Longrightarrow> c_phase c = GotReply t r \<Longrightarrow> \<not> dead s c t \<Longrightarrow> t_reorder t = True \<Longrightarrow>
    rpc_step s (set_call i (c\<lparr>c_phase := Timer r\<rparr>) s)"
| deliver: "s_calls s i = Some c \<Longrightarrow> c_phase c = GotReply t r \<Longrightarrow> \<not> dead s c t \<Longrightarrow>
    rpc_step s (set_call i (c\<lparr>c_phase := Answered r\<rparr>) (s\<lparr>s_net := count_reply r (s_net s)\<rparr>))"
| timer: "s_calls s i = Some c \<Longrightarrow> c_phase c = Timer r \<Longrightarrow>
    rpc_step s (set_call i (c\<lparr>c_phase := Answered r\<rparr>) (s\<lparr>s_net := count_reply r (s_net s)\<rparr>))"
| reconfigure: "admin_step (s_net s) rn \<Longrightarrow> rpc_step s (s\<lparr>s_net := rn\<rparr>)"

text \<open>What \<open>Call\<close> has returned, if it has.\<close>

definition call_result :: "call \<Rightarrow> (bool \<times> bytes) option" where
  "call_result c = (case c_phase c of
      Answered r \<Rightarrow> Some (ok r, reply r)
    | Destroyed \<Rightarrow> Some (False, [])
    | _ \<Rightarrow> None)"

definition init_sys :: "(sptr \<Rightarrow> 'w Server) \<Rightarrow> 'w \<Rightarrow> 'w sys" where
  "init_sys heap w = \<lparr>s_net = MakeNetwork, s_loop = True, s_heap = heap, s_world = w,
     s_calls = Map.empty, s_log = []\<rparr>"

inductive reachable_sys :: "'w sys \<Rightarrow> bool" where
  sys_start: "reachable_sys (init_sys heap w)"
| sys_step: "reachable_sys s \<Longrightarrow> rpc_step s s' \<Longrightarrow> reachable_sys s'"

subsection \<open>Invariant of the calls in flight\<close>

text \<open>What the log says about call \<open>i\<close>: at most one entry, and the reply in it.\<close>

abbreviation ran :: "(nat \<times> sptr \<times> bytes) list \<Rightarrow> nat \<Rightarrow> bool" where
  "ran lg i \<equiv> i \<in> fst ` set lg"

definition replied :: "(nat \<times> sptr \<times> bytes) list \<Rightarrow> nat \<Rightarrow> replyMsg \<Rightarrow> bool" where
  "replied lg i r \<longleftrightarrow> ok r \<and> (\<exists>p. (i, p, reply r) \<in> set lg)"

definition hnd_ok :: "(nat \<times> sptr \<times> bytes) list \<Rightarrow> nat \<Rightarrow> hnd \<Rightarrow> bool" where
  "hnd_ok lg i h = (case h of
      NotStarted \<Rightarrow> \<not> ran lg i
    | Running _ \<Rightarrow> \<not> ran lg i
    | Finished r \<Rightarrow> replied lg i r
    | Taken \<Rightarrow> ran lg i)"

definition phase_ok :: "(nat \<times> sptr \<times> bytes) list \<Rightarrow> nat \<Rightarrow> call \<Rightarrow> bool" where
  "phase_ok lg i c = (case c_phase c of
      Sending \<Rightarrow> c_hnd c = NotStarted
    | Accepted \<Rightarrow> c_hnd c = NotStarted
    | Passed _ \<Rightarrow> c_hnd c = NotStarted
    | Waiting _ \<Rightarrow> c_hnd c \<noteq> NotStarted
    | GotReply _ r \<Rightarrow> replied lg i r
    | GaveUp _ \<Rightarrow> True
    | Timer r \<Rightarrow> ok r \<longrightarrow> replied lg i r
    | Answered r \<Rightarrow> ok r \<longrightarrow> replied lg i r
    | Destroyed \<Rightarrow> c_hnd c = NotStarted)"

definition sys_inv :: "'w sys \<Rightarrow> bool" where
  "sys_inv s \<longleftrightarrow> distinct (map fst (s_log s)) \<and>
     (\<forall>i. case s_calls s i of
        None \<Rightarrow> \<not> ran (s_log s) i
      | Some c \<Rightarrow> hnd_ok (s_log s) i (c_hnd c) \<and> phase_ok (s_log s) i c)"

lemma sys_inv_init: "sys_inv (init_sys heap w)"
  by (simp add: sys_inv_def init_sys_def)

lemma sys_invD:
  assumes "sys_inv s" and "s_calls s i = Some c"
  shows "hnd_ok (s_log s) i (c_hnd c)" "phase_ok (s_log s) i c"
  using assms by (auto simp: sys_inv_def dest!: spec [of _ i])

lemma set_call_simps [simp]:
  "s_log (set_call i c s) = s_log s" "s_net (set_call i c s) = s_net s" "s_loop (set_call i c s) = s_loop s"
  "s_heap (set_call i c s) = s_heap s" "s_world (set_call i c s) = s_world s"
  "s_calls (set_call i c s) = (s_calls s)(i \<mapsto> c)"
  by (simp_all add: set_call_def)

lemma sys_invI:
  assumes "distinct (map fst (s_log s))" and "\<And>i. s_calls s i = None \<Longrightarrow> \<not> ran (s_log s) i"
    and "\<And>i c. s_calls s i = Some c \<Longrightarrow> hnd_ok (s_log s) i (c_hnd c) \<and> phase_ok (s_log s) i c"
  shows "sys_inv s"
  using assms by (auto simp: sys_inv_def split: option.split)

lemma sys_inv_None: "sys_inv s \<Longrightarrow> s_calls s i = None \<Longrightarrow> \<not> ran (s_log s) i"
  unfolding sys_inv_def by (drule conjunct2, drule spec [of _ i]) simp

lemma sys_inv_distinct: "sys_inv s \<Longrightarrow> distinct (map fst (s_log s))"
  by (simp add: sys_inv_def)

text \<open>Replacing one call, the log unchanged.\<close>

lemma sys_inv_set_call:
  assumes "sys_inv s" and "hnd_ok (s_log s) i (c_hnd c)" and "phase_ok (s_log s) i c"
    and "s_log s' = s_log s" and "s_calls s' = s_calls s"
  shows "sys_inv (set_call i c s')"
proof (rule sys_invI)
  show "distinct (map fst (s_log (set_call i c s')))"
    using assms(1,4) by (simp add: sys_inv_distinct)
  fix j
  show "\<not> ran (s_log (set_call i c s')) j" if "s_calls (set_call i c s') j = None"
    using that assms sys_inv_None [OF assms(1), of j] by (auto split: if_splits)
  fix d
  show "hnd_ok (s_log (set_call i c s')) j (c_hnd d) \<and> phase_ok (s_log (set_call i c s')) j d"
    if "s_calls (set_call i c s') j = Some d"
    using that assms sys_invD [OF assms(1), of j d] by (auto split: if_splits)
qed

lemma replied_ran: "replied lg i r \<Longrightarrow> ran lg i"
  by (force simp: replied_def)

lemma Server_dispatch_ok: "Server_dispatch rs req w = Inr (r, rs', w') \<Longrightarrow> ok r"
  by (auto simp: Server_dispatch_def Service_dispatch_def Let_def split: option.splits sum.splits prod.splits)

lemmas call_ok_defs = hnd_ok_def phase_ok_def

text \<open>Running a handler appends the only log entry of its call.\<close>

lemma sys_inv_run:
  assumes "sys_inv s" and c: "s_calls s i = Some c" and h: "c_hnd c = Running p"
    and d: "Server_dispatch (s_heap s p) (c_req c) (s_world s) = Inr (r, rs, w)"
  shows "sys_inv (set_call i (c\<lparr>c_hnd := Finished r\<rparr>)
      (s\<lparr>s_heap := (s_heap s)(p := rs), s_world := w, s_log := s_log s @ [(i, p, reply r)]\<rparr>))"
proof -
  let ?lg = "s_log s @ [(i, p, reply r)]"
  have fresh: "\<not> ran (s_log s) i" and ph: "phase_ok (s_log s) i c"
    using sys_invD [OF assms(1) c] h by (simp_all add: hnd_ok_def)
  have r: "replied ?lg i r" using Server_dispatch_ok [OF d] by (auto simp: replied_def)
  have other: "hnd_ok ?lg j h' = hnd_ok (s_log s) j h'" "phase_ok ?lg j c' = phase_ok (s_log s) j c'"
    if "j \<noteq> i" for j h' c'
    using that by (auto simp: call_ok_defs replied_def split: hnd.splits phase.splits)
  have "phase_ok ?lg i (c\<lparr>c_hnd := Finished r\<rparr>)"
    using ph h fresh by (auto simp: phase_ok_def replied_def image_iff split: phase.splits)
  moreover have "hnd_ok ?lg i (Finished r)" using r by (simp add: hnd_ok_def)
  ultimately show ?thesis
    using sys_inv_distinct [OF assms(1)] fresh sys_inv_None [OF assms(1)] sys_invD [OF assms(1)]
    by (intro sys_invI) (auto simp: other split: if_splits)
qed

lemma sys_inv_cong: "s_log s' = s_log s \<Longrightarrow> s_calls s' = s_calls s \<Longrightarrow> sys_inv s' = sys_inv s"
  by (simp only: sys_inv_def)

lemma sys_inv_upd:
  assumes "s_calls s i = Some c" and "sys_inv s"
    and "hnd_ok (s_log s) i (c_hnd c) \<Longrightarrow> phase_ok (s_log s) i c \<Longrightarrow>
      hnd_ok (s_log s) i (c_hnd c') \<and> phase_ok (s_log s) i c'"
    and "s_log s' = s_log s" and "s_calls s' = s_calls s"
  shows "sys_inv (set_call i c' s')"
  using assms sys_invD [OF assms(2,1)] by (auto intro: sys_inv_set_call)

lemma rpc_step_inv: "rpc_step s s' \<Longrightarrow> sys_inv s \<Longrightarrow> sys_inv s'"
proof (induction rule: rpc_step.induct)
  case (issue s i r)
  then show ?case
    by (intro sys_inv_set_call [of s]) (simp_all add: call_ok_defs sys_inv_None)
next
  case (run_handler s i c p r rs w)
  then show ?case by (intro sys_inv_run)
next
  case (loop_exit s)
  then show ?case using sys_inv_cong [of "s\<lparr>s_loop := False\<rparr>" s] by simp
next
  case (drain s i c r)
  show ?case
  proof (rule sys_inv_upd [OF drain.hyps(1) drain.prems])
    assume "hnd_ok (s_log s) i (c_hnd c)" and "phase_ok (s_log s) i c"
    then show "hnd_ok (s_log s) i (c_hnd (c\<lparr>c_hnd := Taken\<rparr>)) \<and> phase_ok (s_log s) i (c\<lparr>c_hnd := Taken\<rparr>)"
      using drain.hyps(2,3) by (auto simp: call_ok_defs replied_ran split: phase.splits)
  qed simp_all
next
  case (reconfigure s rn)
  then show ?case using sys_inv_cong [of "s\<lparr>s_net := rn\<rparr>" s] by simp
qed (rule sys_inv_upd, assumption, assumption, (auto simp: call_ok_defs replied_ran)[1], simp, simp)+

lemma reachable_sys_inv: "reachable_sys s \<Longrightarrow> sys_inv s"
  by (induction rule: reachable_sys.induct) (auto intro: sys_inv_init rpc_step_inv)

subsection \<open>A healthy connection\<close>

text \<open>
  The connection of an end to a server is healthy when the network is reliable, the end is
  enabled and connected to the server's name, and the server is registered there.
\<close>

definition healthy :: "ename \<Rightarrow> sname \<Rightarrow> sptr \<Rightarrow> Network \<Rightarrow> bool" where
  "healthy e sn p rn \<longleftrightarrow> reliable rn \<and> is_enabled rn e \<and> connection rn e = Some sn \<and> server_at rn sn = Some p"

text \<open>Runs in which every state has the connection healthy, from the state where call \<open>i\<close> is issued.\<close>

inductive healthy_run :: "nat \<Rightarrow> ename \<Rightarrow> sname \<Rightarrow> sptr \<Rightarrow> 'w sys \<Rightarrow> bool" for i e sn p where
  healthy_start: "reachable_sys s \<Longrightarrow> s_calls s i = Some \<lparr>c_req = r, c_phase = Sending, c_hnd = NotStarted\<rparr> \<Longrightarrow>
    endname r = e \<Longrightarrow> healthy e sn p (s_net s) \<Longrightarrow> \<not> done_closed (s_net s) \<Longrightarrow> healthy_run i e sn p s"
| healthy_step: "healthy_run i e sn p s \<Longrightarrow> rpc_step s s' \<Longrightarrow> healthy e sn p (s_net s') \<Longrightarrow>
    \<not> done_closed (s_net s') \<Longrightarrow> healthy_run i e sn p s'"

definition healthy_phase :: "sname \<Rightarrow> sptr \<Rightarrow> phase \<Rightarrow> bool" where
  "healthy_phase sn p ph = (case ph of
      Passed t \<Rightarrow> t_name t = sn \<and> t_ptr t = p \<and> t_reliable t
    | Waiting t \<Rightarrow> t_name t = sn \<and> t_ptr t = p \<and> t_reliable t
    | GotReply t r \<Rightarrow> t_name t = sn \<and> t_ptr t = p \<and> t_reliable t \<and> ok r
    | GaveUp t \<Rightarrow> False
    | Timer r \<Rightarrow> ok r
    | Answered r \<Rightarrow> ok r
    | Destroyed \<Rightarrow> False
    | _ \<Rightarrow> True)"

lemma healthy_target:
  assumes "healthy e sn p rn"
  shows "target_of (readEndnameInfo rn e) =
    Some \<lparr>t_name = sn, t_ptr = p, t_reliable = True, t_reorder = longReordering rn\<rparr>"
  using assms by (simp add: healthy_def target_of_def readEndnameInfo_def)

lemma healthy_alive: "healthy e sn p rn \<Longrightarrow> \<not> isServerDead rn e sn p"
  by (simp add: healthy_def isServerDead_def)

text \<open>One step of a healthy run, seen from call \<open>i\<close>.\<close>

lemma rpc_step_healthy_phase:
  assumes "rpc_step s s'" and "sys_inv s" and "healthy e sn p (s_net s)" and "\<not> done_closed (s_net s)"
    and "s_calls s i = Some c" and "endname (c_req c) = e" and "healthy_phase sn p (c_phase c)"
  shows "\<exists>c'. s_calls s' i = Some c' \<and> endname (c_req c') = e \<and> healthy_phase sn p (c_phase c')"
  using assms
proof (induction rule: rpc_step.induct)
  case (receive s j d t r)
  then show ?case
    using sys_invD(1) [OF receive.prems(1), of j d]
    by (cases "j = i") (auto simp: healthy_phase_def hnd_ok_def replied_def)
qed (auto simp: healthy_phase_def healthy_target dest: healthy_alive split: if_splits)

lemma healthy_run_inv:
  assumes "healthy_run i e sn p s"
  shows "reachable_sys s \<and> healthy e sn p (s_net s) \<and> \<not> done_closed (s_net s) \<and>
    (\<exists>c. s_calls s i = Some c \<and> endname (c_req c) = e \<and> healthy_phase sn p (c_phase c))"
  using assms
proof (induction rule: healthy_run.induct)
  case (healthy_start s r)
  then show ?case by (auto simp: healthy_phase_def)
next
  case (healthy_step s s')
  then obtain c where "s_calls s i = Some c" "endname (c_req c) = e" "healthy_phase sn p (c_phase c)" by blast
  with healthy_step rpc_step_healthy_phase [of s s' e sn p i c] show ?case
    by (auto intro: sys_step reachable_sys_inv)
qed

lemma count_request_tables [simp]:
  "is_enabled (count_request r rn) e = is_enabled rn e" "connection (count_request r rn) e = connection rn e"
  "server_at (count_request r rn) sn = server_at rn sn" "reliable (count_request r rn) = reliable rn"
  "longReordering (count_request r rn) = longReordering rn"
  by (simp_all add: count_request_def is_enabled_def connection_def server_at_def)

lemma healthy_count_request [simp]: "healthy e sn p (count_request r rn) = healthy e sn p rn"
  by (simp add: healthy_def)

lemma healthy_count_reply [simp]: "healthy e sn p (count_reply r rn) = healthy e sn p rn"
  by (simp add: healthy_def count_reply_def is_enabled_def connection_def server_at_def)

lemma count_done [simp]:
  "done_closed (count_request r rn) = done_closed rn" "done_closed (count_reply r' rn) = done_closed rn"
  by (simp_all add: count_request_def count_reply_def)

text \<open>Steps that leave the connection as healthy as it was.\<close>

definition steady_step :: "ename \<Rightarrow> sname \<Rightarrow> sptr \<Rightarrow> 'w sys \<Rightarrow> 'w sys \<Rightarrow> bool" where
  "steady_step e sn p s s' \<longleftrightarrow> rpc_step s s' \<and> healthy e sn p (s_net s') \<and>
     done_closed (s_net s') = done_closed (s_net s)"

lemma steady_rpc_step: "(steady_step e sn p)\<^sup>*\<^sup>* s s' \<Longrightarrow> rpc_step\<^sup>*\<^sup>* s s'"
  by (induction rule: rtranclp_induct) (auto simp: steady_step_def intro: rtranclp.rtrancl_into_rtrancl)

lemma steady_healthy_run:
  "(steady_step e sn p)\<^sup>*\<^sup>* s s' \<Longrightarrow> healthy_run i e sn p s \<Longrightarrow> healthy_run i e sn p s'"
  by (induction rule: rtranclp_induct) (auto simp: steady_step_def intro: healthy_step dest: healthy_run_inv)

text \<open>A call on a healthy connection can be carried through, handler included.\<close>

lemma healthy_call_completes:
  assumes c: "s_calls s i = Some c" "c_phase c = Sending" and "s_loop s"
    and h: "healthy (endname (c_req c)) sn p (s_net s)"
    and d: "Server_dispatch (s_heap s p) (c_req c) (s_world s) = Inr (r, rs, w)"
  shows "\<exists>s' c'. (steady_step (endname (c_req c)) sn p)\<^sup>*\<^sup>* s s' \<and> s_calls s' i = Some c' \<and>
    call_result c' = Some (True, reply r) \<and> s_world s' = w \<and> s_heap s' = (s_heap s)(p := rs) \<and> s_log s' = s_log s @ [(i, p, reply r)]"
proof -
  define t where "t = \<lparr>t_name = sn, t_ptr = p, t_reliable = True, t_reorder = longReordering (s_net s)\<rparr>"
  define c1 where "c1 = c\<lparr>c_phase := Accepted\<rparr>"
  define c2 where "c2 = c1\<lparr>c_phase := Passed t\<rparr>"
  define c3 where "c3 = c2\<lparr>c_phase := Waiting t, c_hnd := Running (t_ptr t)\<rparr>"
  define c4 where "c4 = c3\<lparr>c_hnd := Finished r\<rparr>"
  define c5 where "c5 = c4\<lparr>c_phase := GotReply t r, c_hnd := Taken\<rparr>"
  define c6 where "c6 = c5\<lparr>c_phase := Answered r\<rparr>"
  note cs = c1_def c2_def c3_def c4_def c5_def c6_def t_def
  have req: "c_req c1 = c_req c" "c_req c3 = c_req c" "c_req c5 = c_req c" by (simp_all add: cs)
  define s1 where "s1 = set_call i c1 (s\<lparr>s_net := count_request (c_req c) (s_net s)\<rparr>)"
  define s3 where "s3 = set_call i c3 (set_call i c2 s1)"
  define s4 where "s4 = set_call i c4 (s3\<lparr>s_heap := (s_heap s3)(p := rs), s_world := w, s_log := s_log s3 @ [(i, p, reply r)]\<rparr>)"
  define s5 where "s5 = set_call i c5 s4"
  define s6 where "s6 = set_call i c6 (s5\<lparr>s_net := count_reply r (s_net s5)\<rparr>)"
  note ss = s1_def s3_def s4_def s5_def s6_def
  have r1: "rpc_step s s1" unfolding s1_def c1_def using c assms(3) by (intro accept)
  have r2: "rpc_step s1 (set_call i c2 s1)"
    unfolding c2_def using healthy_target [of "endname (c_req c)" sn p "s_net s1"] h
    by (intro pass) (simp_all add: s1_def req, simp_all add: cs)
  have r3: "rpc_step (set_call i c2 s1) s3"
    unfolding s3_def c3_def by (rule start_handler) (simp_all add: cs)
  have r4: "rpc_step s3 s4"
    unfolding s4_def c4_def using d by (intro run_handler) (simp_all add: s3_def s1_def req, simp_all add: cs)
  have r5: "rpc_step s4 s5"
    unfolding s5_def c5_def by (rule receive) (simp_all add: s4_def, simp_all add: cs)
  have r6: "rpc_step s5 s6"
    unfolding s6_def c6_def using h healthy_alive [of "endname (c_req c)" sn p "s_net s5"]
    by (intro deliver [where t = t]) (simp_all add: s5_def s4_def s3_def s1_def req, simp_all add: cs)
  let ?H = "steady_step (endname (c_req c)) sn p"
  have "?H s s1" "?H s1 (set_call i c2 s1)" "?H (set_call i c2 s1) s3" "?H s3 s4" "?H s4 s5" "?H s5 s6"
    unfolding steady_step_def using r1 r2 r3 r4 r5 r6 h by (simp_all add: ss)
  then have "?H\<^sup>*\<^sup>* s s6" by (meson converse_rtranclp_into_rtranclp rtranclp.rtrancl_refl)
  moreover have "call_result c6 = Some (True, reply r)"
    using Server_dispatch_ok [OF d] by (simp add: c6_def call_result_def)
  ultimately show ?thesis
    by (intro exI [of _ s6] exI [of _ c6]) (simp add: ss)
qed

subsection \<open>The interface of the end table\<close>

text \<open>
  Clients and server groups switch many ends on and off in loops. The laws they rely on are
  those of a table of switches; connecting an end and switching one are independent.
\<close>

locale end_table =
  fixes enable :: "ename \<Rightarrow> bool \<Rightarrow> 'net \<Rightarrow> 'net"
    and is_on :: "'net \<Rightarrow> ename \<Rightarrow> bool"
    and conn :: "'net \<Rightarrow> ename \<Rightarrow> sname option"
    and live :: "'net \<Rightarrow> sname \<Rightarrow> sptr option"
  assumes is_on_enable: "is_on (enable e b n) e' = (if e' = e then b else is_on n e')"
    and conn_enable: "conn (enable e b n) = conn n"
    and live_enable: "live (enable e b n) = live n"
begin

lemma is_on_enable_all: "is_on (fold (\<lambda>e. enable e b) es n) e' = (if e' \<in> set es then b else is_on n e')"
  by (induction es arbitrary: n) (auto simp: is_on_enable)

lemma conn_enable_all: "conn (fold (\<lambda>e. enable e b) es n) = conn n"
  by (induction es arbitrary: n) (auto simp: conn_enable)

lemma is_on_enable_pairs:
  "is_on (fold (\<lambda>(e, b). enable e b) ps n) e' =
    (case map_of (rev ps) e' of Some b \<Rightarrow> b | None \<Rightarrow> is_on n e')"
  by (induction ps arbitrary: n) (auto simp: is_on_enable map_add_def split: option.splits)

end

interpretation labnet: end_table Enable is_enabled connection server_at
  by unfold_locales (auto simp: Enable_def is_enabled_def connection_def server_at_def)

text \<open>A table in which ends are also created, connected to servers and removed.\<close>

locale end_lifecycle = end_table enable is_on conn live
  for enable :: "ename \<Rightarrow> bool \<Rightarrow> 'net \<Rightarrow> 'net" and is_on conn live +
  fixes make :: "ename \<Rightarrow> 'net \<Rightarrow> rpc_error + 'net"
    and remove :: "ename \<Rightarrow> 'net \<Rightarrow> rpc_error + 'net"
    and connect :: "ename \<Rightarrow> sname \<Rightarrow> 'net \<Rightarrow> 'net"
    and exists :: "'net \<Rightarrow> ename \<Rightarrow> bool"
  assumes make_fails: "exists n e \<Longrightarrow> make e n = Inl (EndExists e)"
    and make_ok: "\<not> exists n e \<Longrightarrow> \<exists>n'. make e n = Inr n' \<and> is_on n' = (is_on n)(e := False) \<and>
      conn n' = (conn n)(e := None) \<and> exists n' = (exists n)(e := True) \<and> live n' = live n"
    and remove_fails: "\<not> exists n e \<Longrightarrow> remove e n = Inl (NoSuchEnd e)"
    and remove_ok: "exists n e \<Longrightarrow> \<exists>n'. remove e n = Inr n' \<and> is_on n' = (is_on n)(e := False) \<and>
      conn n' = (conn n)(e := None) \<and> exists n' = (exists n)(e := False) \<and> live n' = live n"
    and connect_laws: "is_on (connect e s n) = is_on n" "conn (connect e s n) = (conn n)(e := Some s)"
      "exists (connect e s n) = exists n" "live (connect e s n) = live n"
    and exists_enable: "exists (enable e b n) = exists n"
begin

text \<open>Creating an end, connecting it and switching it, as every user of the table does.\<close>

lemma make_connect_enable:
  assumes "\<not> exists n e"
  shows "\<exists>n'. map_sum id (\<lambda>n1. enable e b (connect e s n1)) (make e n) = Inr n' \<and>
    is_on n' = (is_on n)(e := b) \<and> conn n' = (conn n)(e := Some s) \<and> exists n' = (exists n)(e := True) \<and>
    live n' = live n"
proof -
  from make_ok [OF assms] obtain n' where "make e n = Inr n'" "is_on n' = (is_on n)(e := False)"
    "conn n' = (conn n)(e := None)" "exists n' = (exists n)(e := True)" "live n' = live n" by blast
  then show ?thesis
    by (intro exI [of _ "enable e b (connect e s n')"])
       (auto simp: is_on_enable conn_enable connect_laws exists_enable live_enable fun_eq_iff)
qed

end

definition end_exists :: "Network \<Rightarrow> ename \<Rightarrow> bool" where
  "end_exists rn e = (ends rn e \<noteq> None)"

interpretation lablife: end_lifecycle Enable is_enabled connection server_at MakeEnd DeleteEnd Connect end_exists
proof (unfold_locales, goal_cases)
  case (2 n e)
  then show ?case
    by (cases "ends n e") (auto simp: MakeEnd_def end_exists_def is_enabled_def connection_def server_at_def fun_eq_iff)
next
  case (4 n e)
  then show ?case
    by (cases "ends n e") (auto simp: DeleteEnd_def end_exists_def is_enabled_def connection_def server_at_def fun_eq_iff)
qed (auto simp: MakeEnd_def DeleteEnd_def Connect_def Enable_def end_exists_def is_enabled_def
    connection_def server_at_def fun_eq_iff split: option.splits)

subsection \<open>A concrete system for the witnesses\<close>

definition demo_server :: "nat Server" where
  "demo_server = AddService MakeServer (MakeService ''KV''
     [\<lparr>mname = ''Inc'', pkgPath = [], numIn = 3, in2_ptr = True, numOut = 0, func = (\<lambda>b w. ([7], w + 1))\<rparr>])"

definition demo_req :: reqMsg where
  "demo_req = \<lparr>endname = ''e'', svcMeth = ''KV.Inc'', args = [1, 2]\<rparr>"

definition demo_net :: Network where
  "demo_net = Enable ''e'' True (AddServer ''s'' 0 (Connect ''e'' ''s''
     (MakeNetwork\<lparr>ends := [''e'' \<mapsto> ()], enabled := [''e'' \<mapsto> False], connections := [''e'' \<mapsto> None]\<rparr>)))"

definition demo_sys :: "nat sys" where
  "demo_sys = set_call 0 \<lparr>c_req = demo_req, c_phase = Sending, c_hnd = NotStarted\<rparr>
     ((init_sys (\<lambda>_. demo_server) 0)\<lparr>s_net := demo_net\<rparr>)"

lemma reachable_admin:
  "reachable_sys s \<Longrightarrow> admin_step (s_net s) rn \<Longrightarrow> reachable_sys (s\<lparr>s_net := rn\<rparr>)"
  by (rule sys_step, assumption, rule reconfigure)

lemma reachable_demo_net: "reachable_sys ((init_sys (\<lambda>_. demo_server) 0)\<lparr>s_net := demo_net\<rparr>)"
proof -
  let ?s = "init_sys (\<lambda>_. demo_server) (0 :: nat)"
  let ?n1 = "MakeNetwork\<lparr>ends := [''e'' \<mapsto> ()], enabled := [''e'' \<mapsto> False], connections := [''e'' \<mapsto> None]\<rparr>"
  have "admin_step (s_net ?s) ?n1"
    by (rule admin_make_end [of "''e''"]) (simp add: MakeEnd_def init_sys_def MakeNetwork_def)
  then have 1: "reachable_sys (?s\<lparr>s_net := ?n1\<rparr>)" by (rule reachable_admin [OF sys_start])
  have 2: "reachable_sys (?s\<lparr>s_net := Connect ''e'' ''s'' ?n1\<rparr>)"
    using reachable_admin [OF 1 admin_connect [of _ "''e''" "''s''"]] by simp
  have 3: "reachable_sys (?s\<lparr>s_net := AddServer ''s'' 0 (Connect ''e'' ''s'' ?n1)\<rparr>)"
    using reachable_admin [OF 2 admin_add_server [of _ "''s''" 0]] by simp
  show ?thesis
    using reachable_admin [OF 3 admin_enable [of _ "''e''" True]] by (simp add: demo_net_def)
qed

lemma reachable_demo: "reachable_sys demo_sys"
  unfolding demo_sys_def
  by (rule sys_step [OF reachable_demo_net issue]) (simp add: init_sys_def)

lemma demo_healthy: "healthy ''e'' ''s'' 0 demo_net" "\<not> done_closed demo_net"
  by (simp_all add: healthy_def demo_net_def Enable_def AddServer_def Connect_def MakeNetwork_def
      is_enabled_def connection_def server_at_def)

lemma demo_dispatch:
  "Server_dispatch demo_server demo_req 0 = Inr (\<lparr>ok = True, reply = [7]\<rparr>, demo_server\<lparr>sv_count := 1\<rparr>, 1)"
  by (simp add: Server_dispatch_def Service_dispatch_def demo_server_def demo_req_def AddService_def
      MakeServer_def MakeService_def suitable_def)

lemma demo_call: "s_calls demo_sys 0 = Some \<lparr>c_req = demo_req, c_phase = Sending, c_hnd = NotStarted\<rparr>"
  "s_loop demo_sys" "s_net demo_sys = demo_net" "s_heap demo_sys 0 = demo_server" "s_world demo_sys = 0"
  by (simp_all add: demo_sys_def init_sys_def)

lemma rtranclp_reachable: "rpc_step\<^sup>*\<^sup>* s s' \<Longrightarrow> reachable_sys s \<Longrightarrow> reachable_sys s'"
  by (induction rule: rtranclp_induct) (auto intro: sys_step)

lemma demo_answered:
  "\<exists>s c. reachable_sys (s :: nat sys) \<and> s_calls s 0 = Some c \<and> call_result c = Some (True, [7]) \<and>
    s_log s = [(0, 0, [7])]"
proof -
  have h: "healthy (endname demo_req) ''s'' 0 (s_net demo_sys)"
    using demo_healthy by (simp add: demo_call demo_req_def)
  have "s_log demo_sys = []" by (simp add: demo_sys_def init_sys_def)
  with healthy_call_completes [of demo_sys 0 "\<lparr>c_req = demo_req, c_phase = Sending, c_hnd = NotStarted\<rparr>" "''s''" 0]
  show ?thesis
    using h demo_dispatch rtranclp_reachable [OF steady_rpc_step reachable_demo] by (fastforce simp: demo_call)
qed

subsection \<open>Dispatch\<close>

lemma LastDot_Some: "LastDot s = Some i \<Longrightarrow> i < length s \<and> s ! i = CHR ''.'' \<and> CHR ''.'' \<notin> set (drop (Suc i) s)"
proof (induction s arbitrary: i)
  case (Cons c cs)
  show ?case
  proof (cases "LastDot cs")
    case None
    then have "CHR ''.'' \<notin> set cs" by (induction cs) (auto split: option.splits if_splits)
    with None Cons.prems show ?thesis by (auto split: if_splits)
  next
    case (Some j)
    with Cons show ?thesis by auto
  qed
qed simp

lemma LastDot_append: "CHR ''.'' \<notin> set m \<Longrightarrow> LastDot (s @ ''.'' @ m) = Some (length s)"
proof (induction s)
  case Nil
  have "LastDot m = None" using Nil by (induction m) (auto split: option.splits)
  then show ?case by simp
qed auto

lemma add_methods_lookup:
  "add_methods ms mm m = (case map_of (rev (map (\<lambda>x. (mname x, func x)) (filter suitable ms))) m of
     Some f \<Rightarrow> Some f | None \<Rightarrow> mm m)"
  by (induction ms arbitrary: mm) (auto simp: map_add_def split: option.splits)

subsection \<open>Properties\<close>

text \<open>C4. In every reachable state of the network, under any interleaving of calls, drops,
  delays and reconfigurations, each call has its handler run at most once, and a call that
  returned true carries the reply that its own handler computed.\<close>

theorem rpc_at_most_once:
  assumes "reachable_sys s"
  shows "distinct (map fst (s_log s)) \<and>
    (\<forall>i c b. s_calls s i = Some c \<and> call_result c = Some (True, b) \<longrightarrow> (\<exists>p. (i, p, b) \<in> set (s_log s)))"
proof -
  have inv: "sys_inv s" using assms by (rule reachable_sys_inv)
  have "\<exists>p. (i, p, b) \<in> set (s_log s)" if "s_calls s i = Some c" "call_result c = Some (True, b)" for i c b
    using sys_invD(2) [OF inv that(1)] that(2)
    by (auto simp: call_result_def phase_ok_def replied_def split: phase.splits)
  then show ?thesis using sys_inv_distinct [OF inv] by blast
qed

theorem rpc_at_most_once_witness:
  "\<exists>s c. reachable_sys (s :: nat sys) \<and> s_calls s 0 = Some c \<and> call_result c = Some (True, [7]) \<and>
     distinct (map fst (s_log s)) \<and> (\<exists>p. (0, p, [7]) \<in> set (s_log s))"
  using demo_answered rpc_at_most_once by blast

text \<open>C5. On a connection that stays healthy (reliable network, end enabled and connected, server
  registered, network not destroyed) a call never returns false, whatever else happens.\<close>

theorem healthy_call_never_fails:
  assumes "healthy_run i e sn p s" and "s_calls s i = Some c" and "call_result c = Some (b, r)"
  shows "b = True"
  using healthy_run_inv [OF assms(1)] assms(2,3)
  by (auto simp: call_result_def healthy_phase_def split: phase.splits)

lemma demo_healthy_run: "healthy_run 0 ''e'' ''s'' 0 demo_sys"
  by (rule healthy_start [OF reachable_demo demo_call(1)]) (simp_all add: demo_call demo_healthy demo_req_def)

theorem healthy_call_never_fails_witness:
  "\<exists>s c b r. healthy_run 0 ''e'' ''s'' 0 (s :: nat sys) \<and> s_calls s 0 = Some c \<and> call_result c = Some (b, r) \<and> b = True"
proof -
  have h: "healthy (endname demo_req) ''s'' 0 (s_net demo_sys)" and e: "endname demo_req = ''e''"
    using demo_healthy by (simp_all add: demo_call demo_req_def)
  from healthy_call_completes [OF demo_call(1) _ demo_call(2), of "''s''" 0, simplified, OF h]
  obtain s c where "(steady_step ''e'' ''s'' 0)\<^sup>*\<^sup>* demo_sys s" "s_calls s 0 = Some c" "call_result c = Some (True, [7])"
    using demo_dispatch e by (auto simp: demo_call)
  then show ?thesis
    using steady_healthy_run [OF _ demo_healthy_run] healthy_call_never_fails by blast
qed





text \<open>Dispatch by name: a request for \<open>service.method\<close> counts once and runs exactly the method
  registered under that name, also when the service's own name contains dots; a method that
  does not look like a handler is not registered.\<close>

theorem dispatch_registered:
  assumes "services rs svc = Some (MakeService svc ms)" and "CHR ''.'' \<notin> set m"
    and "svcMeth req = svc @ ''.'' @ m"
    and "map_of (rev (map (\<lambda>x. (mname x, func x)) (filter suitable ms))) m = Some f"
  shows "Server_dispatch rs req w =
    Inr (\<lparr>ok = True, reply = fst (f (args req) w)\<rparr>, rs\<lparr>sv_count := sv_count rs + 1\<rparr>, snd (f (args req) w))"
proof -
  have dot: "LastDot (svc @ CHR ''.'' # m) = Some (length svc)"
    using LastDot_append [OF assms(2), of svc] by simp
  show ?thesis using assms
    by (simp add: Server_dispatch_def dot Service_dispatch_def MakeService_def add_methods_lookup
        split: prod.split)
qed

theorem dispatch_registered_witness:
  "Server_dispatch demo_server demo_req 4 = Inr (\<lparr>ok = True, reply = [7]\<rparr>, demo_server\<lparr>sv_count := sv_count demo_server + 1\<rparr>, 5)"
proof -
  define ms :: "nat rmethod list" where "ms = [\<lparr>mname = ''Inc'', pkgPath = [], numIn = 3, in2_ptr = True, numOut = 0,
    func = (\<lambda>b w. ([7], w + 1))\<rparr>]"
  have "services demo_server ''KV'' = Some (MakeService ''KV'' ms)"
    by (simp add: demo_server_def AddService_def MakeServer_def MakeService_def ms_def)
  from dispatch_registered [OF this, of "''Inc''" demo_req "\<lambda>b w. ([7], w + 1)" 4] show ?thesis
    by (simp add: demo_req_def ms_def suitable_def)
qed

end
