(* ===== verification/Persist.thy ===== *)
theory Persist
  imports Prelude
begin

text \<open>The \<open>Persister\<close> of \<^verbatim>\<open>tester1/persister.go\<close>: the stable storage that a service keeps
  across a crash. Go slices are references, so the model has a heap of byte arrays, slices
  pointing into it, and a table of persister objects. The services that use the persister hold
  slices of their own and may write through them at any time; the theorems show that they
  cannot reach the arrays inside a persister, so that a persister behaves like a pair of
  immutable byte strings. The locale \<open>stable_storage\<close> is what the server groups rely on.\<close>

subsection \<open>Arrays and slices\<close>

datatype slice = NilSlice | Slice (arr: nat) (off: nat) (len: nat)

fun slen :: "slice \<Rightarrow> nat" where
  "slen NilSlice = 0"
| "slen (Slice a i n) = n"

fun contents :: "bytes list \<Rightarrow> slice \<Rightarrow> bytes" where
  "contents h NilSlice = []"
| "contents h (Slice a i n) = take n (drop i (h ! a))"

fun slice_ok :: "bytes list \<Rightarrow> slice \<Rightarrow> bool" where
  "slice_ok h NilSlice = True"
| "slice_ok h (Slice a i n) = (a < length h \<and> i + n \<le> length (h ! a))"

fun points_to :: "slice \<Rightarrow> nat set" where
  "points_to NilSlice = {}"
| "points_to (Slice a i n) = {a}"

text \<open>Go's \<^verbatim>\<open>copy(dst, src)\<close>: as many elements as both have.\<close>

definition copy_bytes :: "bytes \<Rightarrow> bytes \<Rightarrow> bytes" where
  "copy_bytes dst src = take (length dst) src @ drop (length src) dst"

definition clone :: "slice \<Rightarrow> bytes list \<Rightarrow> slice \<times> bytes list" where
  "clone orig h =
     (let x = replicate (slen orig) 0
      in (Slice (length h) 0 (slen orig), h @ [copy_bytes x (contents h orig)]))"

subsection \<open>The persister\<close>

record Persister =
  raftstate :: slice
  snapshot :: slice

text \<open>\<open>held\<close> lists the arrays that the services can reach: it only records who may write where.\<close>

record pstore =
  heap :: "bytes list"
  persisters :: "Persister list"
  held :: "nat list"

definition init_pstore :: pstore where
  "init_pstore = \<lparr>heap = [], persisters = [], held = []\<rparr>"

definition MakePersister :: "pstore \<Rightarrow> nat \<times> pstore" where
  "MakePersister s =
     (length (persisters s),
      s\<lparr>persisters := persisters s @ [\<lparr>raftstate = NilSlice, snapshot = NilSlice\<rparr>]\<rparr>)"

definition Persister_Copy :: "nat \<Rightarrow> pstore \<Rightarrow> nat \<times> pstore" where
  "Persister_Copy ps s =
     (case MakePersister s of (np, s1) \<Rightarrow>
        (np, s1\<lparr>persisters := (persisters s1)
           [np := \<lparr>raftstate = raftstate (persisters s ! ps), snapshot = snapshot (persisters s ! ps)\<rparr>]\<rparr>))"

definition Save :: "nat \<Rightarrow> slice \<Rightarrow> slice \<Rightarrow> pstore \<Rightarrow> pstore" where
  "Save ps rs sn s =
     (case clone rs (heap s) of (rs', h1) \<Rightarrow>
      case clone sn h1 of (sn', h2) \<Rightarrow>
        s\<lparr>heap := h2, persisters := (persisters s)[ps := \<lparr>raftstate = rs', snapshot = sn'\<rparr>]\<rparr>)"

text \<open>The reads hand a fresh array to the caller.\<close>

definition ReadRaftState :: "nat \<Rightarrow> pstore \<Rightarrow> slice \<times> pstore" where
  "ReadRaftState ps s =
     (case clone (raftstate (persisters s ! ps)) (heap s) of (x, h) \<Rightarrow>
        (x, s\<lparr>heap := h, held := length (heap s) # held s\<rparr>))"

definition ReadSnapshot :: "nat \<Rightarrow> pstore \<Rightarrow> slice \<times> pstore" where
  "ReadSnapshot ps s =
     (case clone (snapshot (persisters s ! ps)) (heap s) of (x, h) \<Rightarrow>
        (x, s\<lparr>heap := h, held := length (heap s) # held s\<rparr>))"

definition RaftStateSize :: "nat \<Rightarrow> pstore \<Rightarrow> nat" where
  "RaftStateSize ps s = slen (raftstate (persisters s ! ps))"

definition SnapshotSize :: "nat \<Rightarrow> pstore \<Rightarrow> nat" where
  "SnapshotSize ps s = slen (snapshot (persisters s ! ps))"

text \<open>What the services do with arrays of their own: allocate one, or write one element of one
  that they hold.\<close>

definition service_alloc :: "bytes \<Rightarrow> pstore \<Rightarrow> pstore" where
  "service_alloc b s = s\<lparr>heap := heap s @ [b], held := length (heap s) # held s\<rparr>"

definition service_write :: "nat \<Rightarrow> nat \<Rightarrow> 8 word \<Rightarrow> pstore \<Rightarrow> pstore" where
  "service_write a i b s = s\<lparr>heap := (heap s)[a := (heap s ! a)[i := b]]\<rparr>"

subsection \<open>Specification: persisters are pairs of byte strings\<close>

type_synonym disk = "(bytes \<times> bytes) list"

definition disk_of :: "pstore \<Rightarrow> disk" where
  "disk_of s = map (\<lambda>p. (contents (heap s) (raftstate p), contents (heap s) (snapshot p))) (persisters s)"

abbreviation valid_ptr :: "pstore \<Rightarrow> nat \<Rightarrow> bool" where
  "valid_ptr s p \<equiv> p < length (persisters s)"

text \<open>A slice that a service may pass: it lies in an array that the service holds.\<close>

definition service_slice :: "pstore \<Rightarrow> slice \<Rightarrow> bool" where
  "service_slice s x \<longleftrightarrow> slice_ok (heap s) x \<and> points_to x \<subseteq> set (held s)"

inductive store_step :: "pstore \<Rightarrow> disk \<Rightarrow> pstore \<Rightarrow> disk \<Rightarrow> bool" where
  make: "store_step s d (snd (MakePersister s)) (d @ [([], [])])"
| dup: "valid_ptr s p \<Longrightarrow> store_step s d (snd (Persister_Copy p s)) (d @ [d ! p])"
| save: "valid_ptr s p \<Longrightarrow> service_slice s r \<Longrightarrow> service_slice s n \<Longrightarrow>
    store_step s d (Save p r n s) (d[p := (contents (heap s) r, contents (heap s) n)])"
| read_state: "valid_ptr s p \<Longrightarrow> store_step s d (snd (ReadRaftState p s)) d"
| read_snap: "valid_ptr s p \<Longrightarrow> store_step s d (snd (ReadSnapshot p s)) d"
| alloc: "store_step s d (service_alloc b s) d"
| poke: "a \<in> set (held s) \<Longrightarrow> store_step s d (service_write a i b s) d"

inductive store_run :: "pstore \<Rightarrow> disk \<Rightarrow> bool" where
  start: "store_run init_pstore []"
| step: "store_run s d \<Longrightarrow> store_step s d s' d' \<Longrightarrow> store_run s' d'"

definition pstore_inv :: "pstore \<Rightarrow> bool" where
  "pstore_inv s \<longleftrightarrow>
     (\<forall>a \<in> set (held s). a < length (heap s)) \<and>
     (\<forall>p \<in> set (persisters s). \<forall>x \<in> {raftstate p, snapshot p}.
        slice_ok (heap s) x \<and> points_to x \<inter> set (held s) = {})"

subsection \<open>Heap lemmas\<close>

lemma contents_append [simp]: "slice_ok h x \<Longrightarrow> contents (h @ ys) x = contents h x"
  by (cases x) (auto simp: nth_append)

lemma slice_ok_append [simp]: "slice_ok h x \<Longrightarrow> slice_ok (h @ ys) x"
  by (cases x) (auto simp: nth_append)

lemma length_contents [simp]: "slice_ok h x \<Longrightarrow> length (contents h x) = slen x"
  by (cases x) auto

lemma copy_bytes_same [simp]: "length x = length y \<Longrightarrow> copy_bytes x y = y"
  by (simp add: copy_bytes_def)

lemma clone_eq:
  "slice_ok h x \<Longrightarrow> clone x h = (Slice (length h) 0 (slen x), h @ [contents h x])"
  by (simp add: clone_def Let_def)

lemma contents_update [simp]: "a \<notin> points_to x \<Longrightarrow> contents (h[a := v]) x = contents h x"
  by (cases x) auto

lemma slice_ok_update [simp]: "length v = length (h ! a) \<Longrightarrow> slice_ok (h[a := v]) x = slice_ok h x"
  by (cases x; cases "a < length h") (auto simp: nth_list_update list_update_beyond)

lemma slice_ok_bound: "slice_ok h x \<Longrightarrow> points_to x \<subseteq> {..<length h}"
  by (cases x) auto

subsection \<open>The invariant and the refinement\<close>

lemma pstore_invD:
  assumes "pstore_inv s" and "p \<in> set (persisters s)"
  shows "slice_ok (heap s) (raftstate p)" "slice_ok (heap s) (snapshot p)"
    "points_to (raftstate p) \<inter> set (held s) = {}" "points_to (snapshot p) \<inter> set (held s) = {}"
  using assms by (auto simp: pstore_inv_def)

lemma length_disk_of [simp]: "length (disk_of s) = length (persisters s)"
  by (simp add: disk_of_def)

lemma disk_of_nth:
  "valid_ptr s p \<Longrightarrow> disk_of s ! p =
     (contents (heap s) (raftstate (persisters s ! p)), contents (heap s) (snapshot (persisters s ! p)))"
  by (simp add: disk_of_def)

lemma MakePersister_refines:
  "pstore_inv s \<Longrightarrow> pstore_inv (snd (MakePersister s)) \<and> disk_of (snd (MakePersister s)) = disk_of s @ [([], [])]"
  by (simp add: MakePersister_def pstore_inv_def disk_of_def)

lemma Copy_refines:
  assumes "pstore_inv s" and "valid_ptr s p"
  shows "pstore_inv (snd (Persister_Copy p s)) \<and> disk_of (snd (Persister_Copy p s)) = disk_of s @ [disk_of s ! p]"
proof -
  have "persisters s ! p \<in> set (persisters s)" using assms(2) by simp
  from pstore_invD [OF assms(1) this] assms show ?thesis
    by (simp add: Persister_Copy_def MakePersister_def pstore_inv_def disk_of_def)
qed

text \<open>Storing a fresh array in the heap keeps the invariant whether or not the services hold it.\<close>

lemma grow_inv:
  assumes "pstore_inv s"
  shows "pstore_inv (s\<lparr>heap := heap s @ ys\<rparr>)"
    and "disk_of (s\<lparr>heap := heap s @ ys\<rparr>) = disk_of s"
    and "pstore_inv (s\<lparr>heap := heap s @ [y], held := length (heap s) # held s\<rparr>)"
    and "disk_of (s\<lparr>heap := heap s @ [y], held := length (heap s) # held s\<rparr>) = disk_of s"
proof -
  have bound: "a < length (heap s)" if "p \<in> set (persisters s)" "a \<in> points_to (raftstate p) \<union> points_to (snapshot p)" for p a
    using pstore_invD(1,2) [OF assms that(1), THEN slice_ok_bound] that(2) by auto
  show "pstore_inv (s\<lparr>heap := heap s @ ys\<rparr>)" using assms by (auto simp: pstore_inv_def)
  show "disk_of (s\<lparr>heap := heap s @ ys\<rparr>) = disk_of s"
    using pstore_invD(1,2) [OF assms] by (simp add: disk_of_def)
  show "pstore_inv (s\<lparr>heap := heap s @ [y], held := length (heap s) # held s\<rparr>)"
    using assms bound by (fastforce simp: pstore_inv_def)
  show "disk_of (s\<lparr>heap := heap s @ [y], held := length (heap s) # held s\<rparr>) = disk_of s"
    using pstore_invD(1,2) [OF assms] by (simp add: disk_of_def)
qed

lemma Save_refines:
  assumes inv: "pstore_inv s" and p: "valid_ptr s p"
    and r: "slice_ok (heap s) r" and n: "slice_ok (heap s) n"
  shows "pstore_inv (Save p r n s) \<and>
    disk_of (Save p r n s) = (disk_of s)[p := (contents (heap s) r, contents (heap s) n)]"
proof -
  let ?h = "heap s @ [contents (heap s) r, contents (heap s) n]"
  let ?q = "\<lparr>raftstate = Slice (length (heap s)) 0 (slen r), snapshot = Slice (Suc (length (heap s))) 0 (slen n)\<rparr>"
  have eq: "Save p r n s = s\<lparr>heap := ?h, persisters := (persisters s)[p := ?q]\<rparr>"
    using r n by (simp add: Save_def clone_eq)
  have fresh: "length (heap s) \<notin> set (held s)" "Suc (length (heap s)) \<notin> set (held s)"
    using inv by (auto simp: pstore_inv_def)
  have "pstore_inv (s\<lparr>heap := ?h\<rparr>)" using inv by (rule grow_inv(1))
  then have "pstore_inv (Save p r n s)"
    unfolding eq pstore_inv_def using r n fresh
    by (auto simp: nth_append dest!: set_update_subset_insert [THEN subsetD])
  moreover have "disk_of (s\<lparr>heap := ?h\<rparr>) = disk_of s" using inv by (rule grow_inv(2))
  then have "disk_of (Save p r n s) = (disk_of s)[p := (contents (heap s) r, contents (heap s) n)]"
    unfolding eq disk_of_def using r n by (simp add: map_update nth_append cong: map_cong)
  ultimately show ?thesis ..
qed

lemma read_refines:
  assumes "pstore_inv s" and "valid_ptr s p"
  shows "pstore_inv (snd (ReadRaftState p s)) \<and> disk_of (snd (ReadRaftState p s)) = disk_of s"
    and "pstore_inv (snd (ReadSnapshot p s)) \<and> disk_of (snd (ReadSnapshot p s)) = disk_of s"
  using assms pstore_invD(1,2) [OF assms(1), of "persisters s ! p"] grow_inv(3,4) [OF assms(1)]
  by (simp_all add: ReadRaftState_def ReadSnapshot_def clone_eq)

lemma service_write_refines:
  assumes "pstore_inv s" and "a \<in> set (held s)"
  shows "pstore_inv (service_write a i b s) \<and> disk_of (service_write a i b s) = disk_of s"
proof -
  have "a \<notin> points_to (raftstate p) \<and> a \<notin> points_to (snapshot p)" if "p \<in> set (persisters s)" for p
    using pstore_invD(3,4) [OF assms(1) that] assms(2) by auto
  then show ?thesis using assms
    by (auto simp: service_write_def pstore_inv_def disk_of_def)
qed

lemma store_step_refines:
  assumes "store_step s d s' d'" and "pstore_inv s" and "d = disk_of s"
  shows "pstore_inv s' \<and> d' = disk_of s'"
  using assms
proof cases
  case make then show ?thesis using assms(2,3) MakePersister_refines [of s] by simp
next
  case (dup p) then show ?thesis using assms(2,3) Copy_refines [of s p] by simp
next
  case (save p r n) then show ?thesis using assms(2,3) Save_refines [of s p r n] by (simp add: service_slice_def)
next
  case (read_state p) then show ?thesis using assms(2,3) read_refines(1) [of s p] by simp
next
  case (read_snap p) then show ?thesis using assms(2,3) read_refines(2) [of s p] by simp
next
  case (alloc b) then show ?thesis using assms(2,3) grow_inv(3,4) [of s b] by (simp add: service_alloc_def)
next
  case (poke a i b) then show ?thesis using assms(2,3) service_write_refines [of s a i b] by simp
qed

lemma store_run_refines: "store_run s d \<Longrightarrow> pstore_inv s \<and> d = disk_of s"
proof (induction rule: store_run.induct)
  case start
  then show ?case by (simp add: init_pstore_def pstore_inv_def disk_of_def)
next
  case (step s d s' d')
  then show ?case using store_step_refines [of s d s' d'] by blast
qed


subsection \<open>Stable storage as an interface\<close>

text \<open>What a server group needs of a persister: fresh objects, copies that are independent of the
  original, and saves that touch one object only.\<close>

text \<open>A service that was given the persister \<open>p\<close>: it saves to \<open>p\<close> and to no other, and it may read,
  allocate and write arrays of its own at any time.\<close>

inductive service_run :: "nat \<Rightarrow> pstore \<Rightarrow> pstore \<Rightarrow> bool" where
  idle: "service_run p s s"
| saves: "service_run p s s1 \<Longrightarrow> service_slice s1 r \<Longrightarrow> service_slice s1 n \<Longrightarrow> service_run p s (Save p r n s1)"
| reads_state: "service_run p s s1 \<Longrightarrow> valid_ptr s1 p \<Longrightarrow> service_run p s (snd (ReadRaftState p s1))"
| reads_snap: "service_run p s s1 \<Longrightarrow> valid_ptr s1 p \<Longrightarrow> service_run p s (snd (ReadSnapshot p s1))"
| allocs: "service_run p s s1 \<Longrightarrow> service_run p s (service_alloc b s1)"
| pokes: "service_run p s s1 \<Longrightarrow> a \<in> set (held s1) \<Longrightarrow> service_run p s (service_write a i b s1)"

lemma service_run_frame:
  assumes "service_run p s s'" and "pstore_inv s" and "valid_ptr s p"
  shows "pstore_inv s' \<and> length (persisters s') = length (persisters s) \<and>
    (\<forall>q. q \<noteq> p \<longrightarrow> disk_of s' ! q = disk_of s ! q)"
  using assms
proof (induction rule: service_run.induct)
  case (saves p s s1 r n)
  then have "pstore_inv s1" "valid_ptr s1 p" by auto
  from Save_refines [OF this, of r n] saves have
    "pstore_inv (Save p r n s1)" "disk_of (Save p r n s1) = (disk_of s1)[p := (contents (heap s1) r, contents (heap s1) n)]"
    by (auto simp: service_slice_def)
  moreover from this(2) have "length (persisters (Save p r n s1)) = length (persisters s1)"
    by (metis length_disk_of length_list_update)
  ultimately show ?case using saves by auto
next
  case (reads_state p s s1)
  then show ?case using read_refines(1) [of s1 p] by (metis length_disk_of)
next
  case (reads_snap p s s1)
  then show ?case using read_refines(2) [of s1 p] by (metis length_disk_of)
next
  case (allocs p s s1 b)
  then show ?case using grow_inv(3,4) [of s1 b] by (simp add: service_alloc_def)
next
  case (pokes p s s1 a i b)
  then show ?case using service_write_refines [of s1 a i b] by (metis length_disk_of)
qed simp

locale stable_storage =
  fixes ok :: "'s \<Rightarrow> bool"
    and stored :: "'s \<Rightarrow> 'c list"
    and new :: "'s \<Rightarrow> nat \<times> 's"
    and dup :: "nat \<Rightarrow> 's \<Rightarrow> nat \<times> 's"
    and holder :: "nat \<Rightarrow> 's \<Rightarrow> 's \<Rightarrow> bool"
    and empty :: 'c
  assumes new_ok: "ok s \<Longrightarrow> ok (snd (new s))"
    and new_ptr: "fst (new s) = length (stored s)"
    and new_stored: "ok s \<Longrightarrow> stored (snd (new s)) = stored s @ [empty]"
    and dup_ok: "ok s \<Longrightarrow> p < length (stored s) \<Longrightarrow> ok (snd (dup p s))"
    and dup_ptr: "fst (dup p s) = length (stored s)"
    and dup_stored: "ok s \<Longrightarrow> p < length (stored s) \<Longrightarrow> stored (snd (dup p s)) = stored s @ [stored s ! p]"
    and holder_frame: "holder p s s' \<Longrightarrow> ok s \<Longrightarrow> p < length (stored s) \<Longrightarrow>
      ok s' \<and> length (stored s') = length (stored s) \<and> (\<forall>q. q \<noteq> p \<longrightarrow> stored s' ! q = stored s ! q)"
begin

text \<open>Crash and restart: the state is copied at the crash and again at the restart, and in between
  the old instance may still write to the object that it holds.\<close>

lemma restart:
  assumes "ok s" and "p < length (stored s)" and "dup p s = (q, s1)" and "holder p s1 s2" and "dup q s2 = (r, s3)"
  shows "ok s3 \<and> stored s3 ! r = stored s ! p \<and> r < length (stored s3) \<and> p \<noteq> q \<and> p \<noteq> r \<and> q \<noteq> r"
proof -
  have q: "q = length (stored s)" "ok s1" "stored s1 = stored s @ [stored s ! p]"
    using dup_ptr [of p s] dup_ok [OF assms(1,2)] dup_stored [OF assms(1,2)] assms(3) by simp_all
  from holder_frame [OF assms(4) q(2)] q assms(2)
  have s2: "ok s2" "length (stored s2) = Suc (length (stored s))" "stored s2 ! q = stored s ! p" by auto
  have "r = length (stored s2)" "ok s3" "stored s3 = stored s2 @ [stored s2 ! q]"
    using dup_ptr [of q s2] dup_ok [of s2 q] dup_stored [of s2 q] assms(5) s2 q(1) by simp_all
  with s2 q assms(2) show ?thesis by (simp add: nth_append)
qed

end

interpretation disk: stable_storage pstore_inv disk_of MakePersister Persister_Copy service_run "([], [])"
proof
  fix s p
  show "fst (MakePersister s) = length (disk_of s)" by (simp add: MakePersister_def)
  show "fst (Persister_Copy p s) = length (disk_of s)" by (simp add: Persister_Copy_def MakePersister_def)
qed (use MakePersister_refines Copy_refines service_run_frame in auto)

subsection \<open>Properties\<close>


lemma demo_store: "store_run (Save 0 (Slice 0 0 2) NilSlice (service_alloc [1, 2] (snd (MakePersister init_pstore)))) [([1, 2], [])]"
proof -
  let ?s1 = "snd (MakePersister init_pstore)"
  let ?s2 = "service_alloc [1, 2] ?s1"
  have "store_run ?s1 [([], [])]" using store_run.step [OF store_run.start store_step.make] by simp
  then have "store_run ?s2 [([], [])]" by (rule store_run.step) (rule store_step.alloc)
  moreover have "store_step ?s2 [([], [])] (Save 0 (Slice 0 0 2) NilSlice ?s2)
      ([([], [])][0 := (contents (heap ?s2) (Slice 0 0 2), contents (heap ?s2) NilSlice)])"
    by (rule store_step.save)
       (simp_all add: service_alloc_def MakePersister_def init_pstore_def service_slice_def)
  ultimately show ?thesis
    by (auto simp: service_alloc_def MakePersister_def init_pstore_def dest: store_run.step)
qed


text \<open>What was saved is what is read: after \<open>Save\<close> both reads return the saved bytes, in
  arrays of their own and never nil, and the sizes are the lengths of the saved slices.\<close>

theorem Save_then_read:
  assumes "pstore_inv s" and "valid_ptr s p" and "slice_ok (heap s) r" and "slice_ok (heap s) n"
  shows "(case ReadRaftState p (Save p r n s) of (x, s') \<Rightarrow> x \<noteq> NilSlice \<and> contents (heap s') x = contents (heap s) r) \<and>
    (case ReadSnapshot p (Save p r n s) of (x, s') \<Rightarrow> x \<noteq> NilSlice \<and> contents (heap s') x = contents (heap s) n) \<and>
    RaftStateSize p (Save p r n s) = slen r \<and> SnapshotSize p (Save p r n s) = slen n"
  using assms
  by (simp add: Save_def clone_eq ReadRaftState_def ReadSnapshot_def RaftStateSize_def SnapshotSize_def
      clone_def Let_def nth_append)

theorem Save_then_read_witness:
  "RaftStateSize 0 (Save 0 (Slice 0 1 2) NilSlice (service_alloc [4, 5, 6] (snd (MakePersister init_pstore)))) = 2"
  using Save_then_read [of "service_alloc [4, 5, 6] (snd (MakePersister init_pstore))" 0 "Slice 0 1 2" NilSlice]
  by (simp add: service_alloc_def MakePersister_def init_pstore_def pstore_inv_def)


end
