(* ===== verification/Clients.thy ===== *)
theory Clients
  imports Rpc_Net
begin

text \<open>The clients of the test network, \<^verbatim>\<open>tester1/clnts.go\<close>: each clerk has a \<open>Clnt\<close> that
  lazily makes one end per server, and a \<open>Clnts\<close> keeps the set of clerks so that the harness can
  remove their ends. The random names drawn by \<^verbatim>\<open>Randstring\<close> are arguments; a name that is
  already in use stops the program in \<open>MakeEnd\<close>, which is the error value. The order in which Go
  iterates over the map of ends is the order of the association list.\<close>

subsection \<open>One client\<close>

record Clnt =
  c_ends :: "(sname, ename) gomap"
  c_srvs :: "sname list option"

definition makeClntTo :: "sname list option \<Rightarrow> Clnt" where
  "makeClntTo srvs = \<lparr>c_ends = [], c_srvs = srvs\<rparr>"

definition allowedL :: "Clnt \<Rightarrow> sname \<Rightarrow> bool" where
  "allowedL c server = (case c_srvs c of None \<Rightarrow> True | Some ns \<Rightarrow> server \<in> set ns)"

definition Clnt_makeEnd :: "ename \<Rightarrow> sname \<Rightarrow> Clnt \<Rightarrow> Network \<Rightarrow> rpc_error + (ename \<times> Clnt \<times> Network)" where
  "Clnt_makeEnd name server c rn =
     (case map_of (c_ends c) server of
        Some e \<Rightarrow> Inr (e, c, rn)
      | None \<Rightarrow>
         (case MakeEnd name rn of
            Inl err \<Rightarrow> Inl err
          | Inr rn1 \<Rightarrow>
             (let rn2 = Connect name server rn1;
                  rn3 = (if allowedL c server then Enable name True rn2 else Enable name False rn2)
              in Inr (name, c\<lparr>c_ends := (server, name) # c_ends c\<rparr>, rn3))))"

text \<open>The request that \<^verbatim>\<open>Clnt.Call\<close> hands to the network; its fate is the subject of
  \<open>rpc_step\<close>.\<close>

definition Clnt_Call ::
  "ename \<Rightarrow> sname \<Rightarrow> string \<Rightarrow> bytes \<Rightarrow> Clnt \<Rightarrow> Network \<Rightarrow> rpc_error + (reqMsg \<times> Clnt \<times> Network)" where
  "Clnt_Call name server meth a c rn =
     (case Clnt_makeEnd name server c rn of
        Inl err \<Rightarrow> Inl err
      | Inr (e, c', rn') \<Rightarrow> Inr (\<lparr>endname = e, svcMeth = meth, args = a\<rparr>, c', rn'))"

definition Clnt_ConnectAll :: "Clnt \<Rightarrow> Network \<Rightarrow> Clnt \<times> Network" where
  "Clnt_ConnectAll c rn = (c\<lparr>c_srvs := None\<rparr>, fold (\<lambda>(s, e). Enable e True) (c_ends c) rn)"

definition Clnt_ConnectTo :: "sname list option \<Rightarrow> Clnt \<Rightarrow> Network \<Rightarrow> Clnt \<times> Network" where
  "Clnt_ConnectTo srvs c rn =
     (let c' = c\<lparr>c_srvs := srvs\<rparr>
      in (c', fold (\<lambda>(s, e) n. if allowedL c' s then Enable e True n else n) (c_ends c') rn))"

definition Clnt_Disconnect :: "sname \<Rightarrow> Clnt \<Rightarrow> Network \<Rightarrow> Network" where
  "Clnt_Disconnect srv c rn = fold (\<lambda>(s, e) n. if s = srv then Enable e False n else n) (c_ends c) rn"

definition Clnt_DisconnectAll :: "Clnt \<Rightarrow> Network \<Rightarrow> Clnt \<times> Network" where
  "Clnt_DisconnectAll c rn = (c\<lparr>c_srvs := Some []\<rparr>, fold (\<lambda>(s, e). Enable e False) (c_ends c) rn)"

definition Clnt_remove :: "Clnt \<Rightarrow> Network \<Rightarrow> rpc_error + Network" where
  "Clnt_remove c rn = each DeleteEnd (map snd (c_ends c)) rn"

subsection \<open>The set of clients\<close>

datatype clnt_error = NetError rpc_error | NilMapWrite

text \<open>Client objects are numbered in the order in which they are made; \<open>clerks\<close> is the Go map
  that \<open>cleanup\<close> sets to nil.\<close>

record Clnts =
  w_net :: Network
  w_clnts :: "Clnt list"
  clerks :: "nat list option"

definition makeClnts :: "Network \<Rightarrow> Clnts" where
  "makeClnts rn = \<lparr>w_net = rn, w_clnts = [], clerks = Some []\<rparr>"

definition Clnts_makeEnd :: "ename \<Rightarrow> sname \<Rightarrow> Clnts \<Rightarrow> clnt_error + Clnts" where
  "Clnts_makeEnd name server w =
     (case MakeEnd name (w_net w) of
        Inl err \<Rightarrow> Inl (NetError err)
      | Inr rn \<Rightarrow> Inr (w\<lparr>w_net := Enable name True (Connect name server rn)\<rparr>))"

definition MakeClientTo :: "sname list option \<Rightarrow> Clnts \<Rightarrow> clnt_error + (nat \<times> Clnts)" where
  "MakeClientTo srvs w =
     (case clerks w of
        None \<Rightarrow> Inl NilMapWrite
      | Some ks \<Rightarrow> Inr (length (w_clnts w),
          w\<lparr>w_clnts := w_clnts w @ [makeClntTo srvs], clerks := Some (length (w_clnts w) # ks)\<rparr>))"

definition MakeClient :: "Clnts \<Rightarrow> clnt_error + (nat \<times> Clnts)" where
  "MakeClient w = MakeClientTo None w"

definition Clnts_cleanup :: "Clnts \<Rightarrow> clnt_error + Clnts" where
  "Clnts_cleanup w =
     (case each (\<lambda>k. Clnt_remove (w_clnts w ! k)) (case clerks w of None \<Rightarrow> [] | Some ks \<Rightarrow> ks) (w_net w) of
        Inl err \<Rightarrow> Inl (NetError err)
      | Inr rn \<Rightarrow> Inr (w\<lparr>w_net := rn, clerks := None\<rparr>))"

definition DeleteClient :: "nat \<Rightarrow> Clnts \<Rightarrow> clnt_error + Clnts" where
  "DeleteClient k w =
     (case clerks w of
        None \<Rightarrow> Inr w
      | Some ks \<Rightarrow>
          if k \<in> set ks then
            (case Clnt_remove (w_clnts w ! k) (w_net w) of
               Inl err \<Rightarrow> Inl (NetError err)
             | Inr rn \<Rightarrow> Inr (w\<lparr>w_net := rn, clerks := Some (filter (\<lambda>x. x \<noteq> k) ks)\<rparr>))
          else Inr w)"

subsection \<open>Executions\<close>

text \<open>Any client object may be used at any time, also after it was deleted; the rest of the
  harness adds and removes servers, makes ends of its own and switches ends at will.\<close>

inductive clnts_step :: "Clnts \<Rightarrow> Clnts \<Rightarrow> bool" where
  client: "MakeClientTo srvs w = Inr (k, w') \<Longrightarrow> clnts_step w w'"
| make_end: "k < length (w_clnts w) \<Longrightarrow> Clnt_makeEnd name s (w_clnts w ! k) (w_net w) = Inr (e, c, rn) \<Longrightarrow>
    clnts_step w (w\<lparr>w_net := rn, w_clnts := (w_clnts w)[k := c]\<rparr>)"
| connect_all: "k < length (w_clnts w) \<Longrightarrow> Clnt_ConnectAll (w_clnts w ! k) (w_net w) = (c, rn) \<Longrightarrow>
    clnts_step w (w\<lparr>w_net := rn, w_clnts := (w_clnts w)[k := c]\<rparr>)"
| connect_to: "k < length (w_clnts w) \<Longrightarrow> Clnt_ConnectTo srvs (w_clnts w ! k) (w_net w) = (c, rn) \<Longrightarrow>
    clnts_step w (w\<lparr>w_net := rn, w_clnts := (w_clnts w)[k := c]\<rparr>)"
| disconnect: "k < length (w_clnts w) \<Longrightarrow> Clnt_Disconnect s (w_clnts w ! k) (w_net w) = rn \<Longrightarrow>
    clnts_step w (w\<lparr>w_net := rn\<rparr>)"
| disconnect_all: "k < length (w_clnts w) \<Longrightarrow> Clnt_DisconnectAll (w_clnts w ! k) (w_net w) = (c, rn) \<Longrightarrow>
    clnts_step w (w\<lparr>w_net := rn, w_clnts := (w_clnts w)[k := c]\<rparr>)"
| delete: "DeleteClient k w = Inr w' \<Longrightarrow> clnts_step w w'"
| own_end: "Clnts_makeEnd name s w = Inr w' \<Longrightarrow> clnts_step w w'"
| server: "clnts_step w (w\<lparr>w_net := AddServer s p (w_net w)\<rparr>)"
| unserver: "clnts_step w (w\<lparr>w_net := DeleteServer s (w_net w)\<rparr>)"
| switch: "clnts_step w (w\<lparr>w_net := Enable e b (w_net w)\<rparr>)"

inductive reachable_clnts :: "Clnts \<Rightarrow> bool" where
  start: "reachable_clnts (makeClnts rn)"
| step: "reachable_clnts w \<Longrightarrow> clnts_step w w' \<Longrightarrow> reachable_clnts w'"

text \<open>The ends that belong to the registered clerks, with the servers they are for.\<close>

definition clerk_ends :: "Clnts \<Rightarrow> (sname \<times> ename) list" where
  "clerk_ends w = (case clerks w of None \<Rightarrow> [] | Some ks \<Rightarrow> concat (map (\<lambda>k. c_ends (w_clnts w ! k)) ks))"

definition clnts_inv :: "Clnts \<Rightarrow> bool" where
  "clnts_inv w \<longleftrightarrow>
     (case clerks w of None \<Rightarrow> True | Some ks \<Rightarrow> distinct ks \<and> (\<forall>k \<in> set ks. k < length (w_clnts w))) \<and>
     (\<forall>c \<in> set (w_clnts w). wf_map (c_ends c)) \<and>
     distinct (map snd (clerk_ends w)) \<and>
     (\<forall>(s, e) \<in> set (clerk_ends w). end_exists (w_net w) e \<and> connection (w_net w) e = Some s)"

subsection \<open>Switching and removing many ends\<close>

context end_lifecycle
begin

lemma switch_some:
  shows "is_on (fold (\<lambda>(s, e) n. if P s then enable e b n else n) es n) e' =
    (if \<exists>s. (s, e') \<in> set es \<and> P s then b else is_on n e')"
    and "conn (fold (\<lambda>(s, e) n. if P s then enable e b n else n) es n) = conn n"
    and "exists (fold (\<lambda>(s, e) n. if P s then enable e b n else n) es n) = exists n"
proof -
  show "is_on (fold (\<lambda>(s, e) n. if P s then enable e b n else n) es n) e' =
    (if \<exists>s. (s, e') \<in> set es \<and> P s then b else is_on n e')"
  proof (induction es arbitrary: n)
    case (Cons p es)
    show ?case by (cases p; cases "P (fst p)"; cases "snd p = e'") (auto simp: Cons.IH is_on_enable)
  qed simp
  show "conn (fold (\<lambda>(s, e) n. if P s then enable e b n else n) es n) = conn n"
    by (induction es arbitrary: n) (auto simp: conn_enable)
  show "exists (fold (\<lambda>(s, e) n. if P s then enable e b n else n) es n) = exists n"
    by (induction es arbitrary: n) (auto simp: exists_enable)
qed

lemma switch_all:
  shows "is_on (fold (\<lambda>(s, e). enable e b) es n) e' = (if e' \<in> snd ` set es then b else is_on n e')"
    and "conn (fold (\<lambda>(s, e). enable e b) es n) = conn n"
    and "exists (fold (\<lambda>(s, e). enable e b) es n) = exists n"
  by (induction es arbitrary: n) (auto simp: is_on_enable conn_enable exists_enable)

lemma remove_each:
  assumes "distinct es" and "\<forall>e \<in> set es. exists n e"
  shows "\<exists>n'. each remove es n = Inr n' \<and> (\<forall>e. exists n' e = (exists n e \<and> e \<notin> set es)) \<and>
    (\<forall>e. is_on n' e = (is_on n e \<and> e \<notin> set es)) \<and> (\<forall>e. e \<notin> set es \<longrightarrow> conn n' e = conn n e)"
proof (rule each_succeeds)
  fix ys x zs m
  assume es: "es = ys @ x # zs"
    and m: "(\<forall>e. exists m e = (exists n e \<and> e \<notin> set ys)) \<and> (\<forall>e. is_on m e = (is_on n e \<and> e \<notin> set ys)) \<and>
      (\<forall>e. e \<notin> set ys \<longrightarrow> conn m e = conn n e)"
  then have "exists m x" using assms by auto
  from remove_ok [OF this] m
  show "\<exists>m'. remove x m = Inr m' \<and> (\<forall>e. exists m' e = (exists n e \<and> e \<notin> set (ys @ [x]))) \<and>
      (\<forall>e. is_on m' e = (is_on n e \<and> e \<notin> set (ys @ [x]))) \<and> (\<forall>e. e \<notin> set (ys @ [x]) \<longrightarrow> conn m' e = conn n e)"
    by auto
qed simp

end

lemma Clnt_remove_ok:
  assumes "distinct (map snd (c_ends c))" and "\<forall>e \<in> snd ` set (c_ends c). end_exists rn e"
  shows "\<exists>rn'. Clnt_remove c rn = Inr rn' \<and> (\<forall>e. end_exists rn' e = (end_exists rn e \<and> e \<notin> snd ` set (c_ends c))) \<and>
    (\<forall>e. is_enabled rn' e = (is_enabled rn e \<and> e \<notin> snd ` set (c_ends c))) \<and>
    (\<forall>e. e \<notin> snd ` set (c_ends c) \<longrightarrow> connection rn' e = connection rn e)"
  using lablife.remove_each [of "map snd (c_ends c)" rn] assms by (simp add: Clnt_remove_def)

lemma switch_frame [frame]:
  "Clnt_ConnectAll c rn = (c', rn') \<Longrightarrow> c_ends c' = c_ends c \<and> connection rn' = connection rn \<and> end_exists rn' = end_exists rn"
  "Clnt_ConnectTo srvs c rn = (c', rn') \<Longrightarrow> c_ends c' = c_ends c \<and> connection rn' = connection rn \<and> end_exists rn' = end_exists rn"
  "Clnt_DisconnectAll c rn = (c', rn') \<Longrightarrow> c_ends c' = c_ends c \<and> connection rn' = connection rn \<and> end_exists rn' = end_exists rn"
  "connection (Clnt_Disconnect s c rn) = connection rn" "end_exists (Clnt_Disconnect s c rn) = end_exists rn"
  by (auto simp: Clnt_ConnectAll_def Clnt_ConnectTo_def Clnt_DisconnectAll_def Clnt_Disconnect_def Let_def
      lablife.switch_all lablife.switch_some)


subsection \<open>The invariant of the clients\<close>

lemma clerk_ends_clerks:
  "clerks w = Some ks \<Longrightarrow> clerk_ends w = concat (map (\<lambda>k. c_ends (w_clnts w ! k)) ks)"
  by (simp add: clerk_ends_def)

text \<open>Replacing a client by one with the same ends, or changing only switches and servers.\<close>

lemma clnts_inv_same_ends:
  assumes "clnts_inv w" and "k < length (w_clnts w)" and "c_ends c = c_ends (w_clnts w ! k)"
    and "connection rn = connection (w_net w)" and "end_exists rn = end_exists (w_net w)"
  shows "clnts_inv (w\<lparr>w_net := rn, w_clnts := (w_clnts w)[k := c]\<rparr>)"
proof -
  have same: "c_ends ((w_clnts w)[k := c] ! j) = c_ends (w_clnts w ! j)" for j
    using assms(2,3) by (cases "j = k") auto
  have "clerk_ends (w\<lparr>w_net := rn, w_clnts := (w_clnts w)[k := c]\<rparr>) = clerk_ends w"
    by (simp add: clerk_ends_def same split: option.split)
  moreover have "wf_map (c_ends x)" if "x \<in> set ((w_clnts w)[k := c])" for x
    using that assms(1-3) by (auto simp: clnts_inv_def dest!: set_update_subset_insert [THEN subsetD])
  ultimately show ?thesis using assms(1,4,5) by (auto simp: clnts_inv_def split: option.splits)
qed

lemma clnts_inv_net:
  assumes "clnts_inv w" and "\<And>e. e \<in> snd ` set (clerk_ends w) \<Longrightarrow>
    connection rn e = connection (w_net w) e \<and> (end_exists (w_net w) e \<longrightarrow> end_exists rn e)"
  shows "clnts_inv (w\<lparr>w_net := rn\<rparr>)"
proof -
  have "clerk_ends (w\<lparr>w_net := rn\<rparr>) = clerk_ends w" by (simp add: clerk_ends_def split: option.split)
  then show ?thesis using assms by (fastforce simp: clnts_inv_def split: option.splits)
qed

lemma MakeEnd_Inr:
  assumes "MakeEnd e rn = Inr rn'"
  shows "\<not> end_exists rn e" "end_exists rn' = (end_exists rn)(e := True)" "connection rn' = (connection rn)(e := None)"
    "is_enabled rn' = (is_enabled rn)(e := False)" "server_at rn' = server_at rn"
proof -
  show new: "\<not> end_exists rn e" using assms lablife.make_fails [of rn e] by auto
  from lablife.make_ok [OF new] assms
  show "end_exists rn' = (end_exists rn)(e := True)" "connection rn' = (connection rn)(e := None)"
    "is_enabled rn' = (is_enabled rn)(e := False)" "server_at rn' = server_at rn" by auto
qed

text \<open>What making an end does, in the terms of the interface of the network.\<close>

lemma Clnt_makeEnd_cases:
  assumes "Clnt_makeEnd name s c rn = Inr (e, c', rn')"
  obtains (old) "map_of (c_ends c) s = Some e" "c' = c" "rn' = rn"
  | (new) "map_of (c_ends c) s = None" "e = name" "c' = c\<lparr>c_ends := (s, name) # c_ends c\<rparr>" "\<not> end_exists rn name"
      "end_exists rn' = (end_exists rn)(name := True)" "connection rn' = (connection rn)(name := Some s)"
      "is_enabled rn' = (is_enabled rn)(name := allowedL c s)" "server_at rn' = server_at rn"
proof (cases "map_of (c_ends c) s")
  case None
  with assms obtain rn1 where m: "MakeEnd name rn = Inr rn1"
    and r: "e = name" "c' = c\<lparr>c_ends := (s, name) # c_ends c\<rparr>" "rn' = Enable name (allowedL c s) (Connect name s rn1)"
    by (auto simp: Clnt_makeEnd_def Let_def split: sum.splits if_splits)
  show thesis
    using MakeEnd_Inr [OF m] r None
    by (intro new) (auto simp: labnet.is_on_enable labnet.conn_enable labnet.live_enable lablife.connect_laws
        lablife.exists_enable fun_eq_iff)
next
  case (Some e')
  with assms show thesis by (intro old) (simp_all add: Clnt_makeEnd_def)
qed

lemma concat_update:
  assumes "distinct ks" and "k \<in> set ks" and "k < length cs"
  shows "mset (concat (map (\<lambda>j. f (cs[k := c] ! j)) ks)) + mset (f (cs ! k)) =
    mset (concat (map (\<lambda>j. f (cs ! j)) ks)) + mset (f c)"
  using assms
proof (induction ks)
  case (Cons j ks)
  show ?case
  proof (cases "j = k")
    case True
    then have "map (\<lambda>j. f (cs[k := c] ! j)) ks = map (\<lambda>j. f (cs ! j)) ks" using Cons.prems
      by (intro map_cong refl) (metis distinct.simps(2) nth_list_update_neq)
    with True Cons.prems(3) show ?thesis by (simp del: map_eq_conv)
  next
    case False
    with Cons show ?thesis by (simp add: union_ac)
  qed
qed simp


lemma clnts_inv_make_end:
  assumes inv: "clnts_inv w" and k: "k < length (w_clnts w)"
    and m: "Clnt_makeEnd name s (w_clnts w ! k) (w_net w) = Inr (e, c, rn)"
  shows "clnts_inv (w\<lparr>w_net := rn, w_clnts := (w_clnts w)[k := c]\<rparr>)"
  using m
proof (cases rule: Clnt_makeEnd_cases)
  case old
  with inv show ?thesis by simp
next
  case new
  let ?w = "w\<lparr>w_net := rn, w_clnts := (w_clnts w)[k := c]\<rparr>"
  have wf: "wf_map (c_ends x)" if "x \<in> set ((w_clnts w)[k := c])" for x
  proof -
    have "wf_map (c_ends (w_clnts w ! k))" using inv k by (simp add: clnts_inv_def)
    then have "wf_map (c_ends c)" using new(1,3) by (simp add: map_of_None_keys)
    then show ?thesis using that inv by (auto simp: clnts_inv_def dest!: set_update_subset_insert [THEN subsetD])
  qed
  have fresh: "name \<notin> snd ` set (clerk_ends w)" using inv new(4) by (auto simp: clnts_inv_def)
  show ?thesis
  proof (cases "clerks w")
    case None
    then show ?thesis using wf by (simp add: clnts_inv_def clerk_ends_def)
  next
    case (Some ks)
    have ks: "distinct ks" "\<forall>k \<in> set ks. k < length (w_clnts w)" using inv Some by (auto simp: clnts_inv_def)
    have "mset (clerk_ends ?w) = (if k \<in> set ks then {#(s, name)#} else {#}) + mset (clerk_ends w)"
    proof (cases "k \<in> set ks")
      case True
      with concat_update [OF ks(1) True k, of c_ends c] new(3) Some show ?thesis by (simp add: clerk_ends_def)
    next
      case False
      then have "map (\<lambda>j. c_ends ((w_clnts w)[k := c] ! j)) ks = map (\<lambda>j. c_ends (w_clnts w ! j)) ks"
        by (intro map_cong refl) (metis nth_list_update_neq)
      with False Some show ?thesis by (simp add: clerk_ends_def del: map_eq_conv)
    qed
    then have ms: "mset (clerk_ends ?w) \<subseteq># mset ((s, name) # clerk_ends w)" by (auto split: if_splits)
    from mset_subset_eqD [OF ms]
    have sub: "set (clerk_ends ?w) \<subseteq> insert (s, name) (set (clerk_ends w))" by auto
    have "distinct (map snd ((s, name) # clerk_ends w))" using inv fresh by (simp add: clnts_inv_def)
    moreover have "mset (map snd (clerk_ends ?w)) \<subseteq># mset (map snd ((s, name) # clerk_ends w))"
      using image_mset_subseteq_mono [OF ms, of snd] by simp
    ultimately have "distinct (map snd (clerk_ends ?w))" by (metis distinct_mset_sub)
    then show ?thesis using wf ks Some new(5,6) sub fresh inv
      by (auto simp: clnts_inv_def image_iff dest!: subsetD split: if_splits)
  qed
qed


text \<open>Removing one registered clerk: all of its ends exist, so no deletion fails, and the ends of
  the other clerks are untouched.\<close>

lemma remove_clerk:
  assumes inv: "clnts_inv w" and ks: "clerks w = Some (as @ k # bs)"
  shows "\<exists>rn. Clnt_remove (w_clnts w ! k) (w_net w) = Inr rn \<and>
    clnts_inv (w\<lparr>w_net := rn, clerks := Some (as @ bs)\<rparr>) \<and>
    (\<forall>e \<in> snd ` set (c_ends (w_clnts w ! k)). \<not> end_exists rn e \<and> \<not> is_enabled rn e) \<and>
    (\<forall>e. \<not> end_exists (w_net w) e \<longrightarrow> \<not> end_exists rn e) \<and> (\<forall>e. \<not> is_enabled (w_net w) e \<longrightarrow> \<not> is_enabled rn e)"
proof -
  let ?E = "\<lambda>k. c_ends (w_clnts w ! k)"
  have ends: "clerk_ends w = concat (map ?E as) @ ?E k @ concat (map ?E bs)"
    using ks by (simp add: clerk_ends_def)
  define A B where "A = concat (map ?E as)" and "B = concat (map ?E bs)"
  have e1: "clerk_ends w = A @ ?E k @ B" and e2: "concat (map ?E (as @ bs)) = A @ B"
    using ends by (simp_all add: A_def B_def)
  have dd: "distinct (map snd (A @ ?E k @ B))" using inv unfolding clnts_inv_def e1 by blast
  then have d: "distinct (map snd (?E k))" by simp
  have ex: "\<forall>e \<in> snd ` set (?E k). end_exists (w_net w) e"
    using inv unfolding clnts_inv_def e1 by auto
  have own: "snd ` set (?E k) \<inter> snd ` set (concat (map ?E (as @ bs))) = {}"
    unfolding e2 set_append image_Un using dd by (simp add: Int_Un_distrib inf_commute)
  have d': "distinct (map snd (concat (map ?E (as @ bs))))"
    unfolding e2 using dd by (simp add: Int_Un_distrib)
  from Clnt_remove_ok [OF d ex] obtain rn where rn: "Clnt_remove (w_clnts w ! k) (w_net w) = Inr rn"
    "\<forall>e. end_exists rn e = (end_exists (w_net w) e \<and> e \<notin> snd ` set (?E k))"
    "\<forall>e. is_enabled rn e = (is_enabled (w_net w) e \<and> e \<notin> snd ` set (?E k))"
    "\<forall>e. e \<notin> snd ` set (?E k) \<longrightarrow> connection rn e = connection (w_net w) e" by blast
  have left: "clerk_ends (w\<lparr>w_net := rn, clerks := Some (as @ bs)\<rparr>) = concat (map ?E (as @ bs))"
    by (simp add: clerk_ends_def)
  have "end_exists rn e \<and> connection rn e = Some s" if "(s, e) \<in> set (concat (map ?E (as @ bs)))" for s e
  proof -
    have "e \<notin> snd ` set (?E k)" using own that by (metis disjoint_iff image_eqI snd_conv)
    moreover have "(s, e) \<in> set (clerk_ends w)" using that ends by auto
    ultimately show ?thesis using inv rn(2,4) by (auto simp: clnts_inv_def)
  qed
  then have "clnts_inv (w\<lparr>w_net := rn, clerks := Some (as @ bs)\<rparr>)"
    using inv ks d' unfolding clnts_inv_def left by auto
  with rn show ?thesis by auto
qed

lemma filter_neq_split: "distinct (as @ k # bs) \<Longrightarrow> filter (\<lambda>x. x \<noteq> k) (as @ k # bs) = as @ bs"
  by (auto simp: filter_id_conv intro!: arg_cong2 [where f = append])

lemma clnts_inv_delete:
  assumes inv: "clnts_inv w"
  shows "\<exists>w'. DeleteClient k w = Inr w' \<and> clnts_inv w'"
proof (cases "clerks w")
  case None
  then show ?thesis using inv by (simp add: DeleteClient_def)
next
  case (Some ks)
  show ?thesis
  proof (cases "k \<in> set ks")
    case True
    then obtain as bs where ks: "ks = as @ k # bs" by (meson split_list)
    have "distinct ks" using inv Some by (simp add: clnts_inv_def)
    then have f: "filter (\<lambda>x. x \<noteq> k) ks = as @ bs" unfolding ks by (rule filter_neq_split)
    from remove_clerk [OF inv, of as k bs] Some ks f True show ?thesis by (auto simp: DeleteClient_def)
  qed (use Some inv in \<open>simp add: DeleteClient_def\<close>)
qed

lemma clnts_inv_client:
  assumes inv: "clnts_inv w" and "MakeClientTo srvs w = Inr (k, w')"
  shows "clnts_inv w'"
proof -
  from assms(2) obtain ks where ks: "clerks w = Some ks"
    and w': "w' = w\<lparr>w_clnts := w_clnts w @ [makeClntTo srvs], clerks := Some (length (w_clnts w) # ks)\<rparr>"
    by (auto simp: MakeClientTo_def split: option.splits)
  have old: "\<forall>k \<in> set ks. k < length (w_clnts w)" using inv ks by (simp add: clnts_inv_def)
  then have "map (\<lambda>j. c_ends ((w_clnts w @ [makeClntTo srvs]) ! j)) ks = map (\<lambda>j. c_ends (w_clnts w ! j)) ks"
    by (intro map_cong refl) (simp add: nth_append)
  then have "clerk_ends w' = clerk_ends w"
    using ks by (simp add: w' clerk_ends_def makeClntTo_def del: map_eq_conv)
  with inv ks old show ?thesis by (auto simp: clnts_inv_def w' makeClntTo_def)
qed

lemma clnts_inv_own_end:
  assumes inv: "clnts_inv w" and "Clnts_makeEnd name s w = Inr w'"
  shows "clnts_inv w'"
proof -
  from assms(2) obtain rn where m: "MakeEnd name (w_net w) = Inr rn"
    and w': "w' = w\<lparr>w_net := Enable name True (Connect name s rn)\<rparr>"
    by (auto simp: Clnts_makeEnd_def split: sum.splits)
  have "e \<noteq> name" if "e \<in> snd ` set (clerk_ends w)" for e
    using that inv MakeEnd_Inr(1) [OF m] by (auto simp: clnts_inv_def)
  then show ?thesis unfolding w' using MakeEnd_Inr [OF m]
    by (intro clnts_inv_net [OF inv]) (auto simp: labnet.conn_enable lablife.connect_laws lablife.exists_enable)
qed

lemma clnts_step_inv: "clnts_step w w' \<Longrightarrow> clnts_inv w \<Longrightarrow> clnts_inv w'"
proof (induction rule: clnts_step.induct)
  case (delete k w w')
  then show ?case using clnts_inv_delete [of w k] by auto
next
  case (connect_all k w c rn)
  then show ?case using switch_frame(1) [of "w_clnts w ! k"] by (intro clnts_inv_same_ends) auto
next
  case (connect_to k w srvs c rn)
  then show ?case using switch_frame(2) [of srvs "w_clnts w ! k"] by (intro clnts_inv_same_ends) auto
next
  case (disconnect_all k w c rn)
  then show ?case using switch_frame(3) [of "w_clnts w ! k"] by (intro clnts_inv_same_ends) auto
next
  case (disconnect k w s rn)
  then show ?case by (auto intro!: clnts_inv_net simp: switch_frame(4,5))
qed (auto intro: clnts_inv_client clnts_inv_make_end clnts_inv_own_end
    intro!: clnts_inv_net simp: AddServer_def DeleteServer_def Enable_def connection_def end_exists_def)

lemma reachable_clnts_inv: "reachable_clnts w \<Longrightarrow> clnts_inv w"
proof (induction rule: reachable_clnts.induct)
  case (start rn)
  then show ?case by (simp add: makeClnts_def clnts_inv_def clerk_ends_def)
qed (rule clnts_step_inv)


lemma cleanup_loop:
  assumes "clnts_inv w" and "clerks w = Some ks"
  shows "\<exists>rn. each (\<lambda>k. Clnt_remove (w_clnts w ! k)) ks (w_net w) = Inr rn \<and>
    (\<forall>e \<in> snd ` set (clerk_ends w). \<not> end_exists rn e \<and> \<not> is_enabled rn e) \<and>
    (\<forall>e. \<not> end_exists (w_net w) e \<longrightarrow> \<not> end_exists rn e) \<and> (\<forall>e. \<not> is_enabled (w_net w) e \<longrightarrow> \<not> is_enabled rn e)"
  using assms
proof (induction ks arbitrary: w)
  case Nil
  then show ?case by (simp add: clerk_ends_def)
next
  case (Cons k ks)
  from remove_clerk [OF Cons.prems(1), of "[]" k ks] Cons.prems(2) obtain rn1
    where r: "Clnt_remove (w_clnts w ! k) (w_net w) = Inr rn1"
      and inv1: "clnts_inv (w\<lparr>w_net := rn1, clerks := Some ks\<rparr>)"
      and gone: "\<forall>e \<in> snd ` set (c_ends (w_clnts w ! k)). \<not> end_exists rn1 e \<and> \<not> is_enabled rn1 e"
      and mono: "\<forall>e. \<not> end_exists (w_net w) e \<longrightarrow> \<not> end_exists rn1 e" "\<forall>e. \<not> is_enabled (w_net w) e \<longrightarrow> \<not> is_enabled rn1 e"
    by auto
  from Cons.IH [OF inv1] obtain rn where rn: "each (\<lambda>k. Clnt_remove (w_clnts w ! k)) ks rn1 = Inr rn"
    "\<forall>e \<in> snd ` set (concat (map (\<lambda>k. c_ends (w_clnts w ! k)) ks)). \<not> end_exists rn e \<and> \<not> is_enabled rn e"
    "\<forall>e. \<not> end_exists rn1 e \<longrightarrow> \<not> end_exists rn e" "\<forall>e. \<not> is_enabled rn1 e \<longrightarrow> \<not> is_enabled rn e"
    by (auto simp: clerk_ends_def)
  have "\<not> end_exists rn e \<and> \<not> is_enabled rn e" if "e \<in> snd ` set (clerk_ends w)" for e
  proof (cases "e \<in> snd ` set (c_ends (w_clnts w ! k))")
    case True
    with gone rn(3,4) show ?thesis by blast
  next
    case False
    with that Cons.prems(2) have "e \<in> snd ` set (concat (map (\<lambda>k. c_ends (w_clnts w ! k)) ks))"
      by (auto simp: clerk_ends_def)
    with rn(2) show ?thesis by blast
  qed
  with r rn mono show ?case by auto
qed

subsection \<open>The calls of one client\<close>

inductive client_calls :: "Clnt \<Rightarrow> Network \<Rightarrow> reqMsg list \<Rightarrow> Clnt \<Rightarrow> Network \<Rightarrow> bool" where
  none: "client_calls c rn [] c rn"
| call: "client_calls c rn rs c1 rn1 \<Longrightarrow> Clnt_Call name s m a c1 rn1 = Inr (r, c2, rn2) \<Longrightarrow>
    client_calls c rn (rs @ [r]) c2 rn2"

lemma client_calls_switched:
  assumes "client_calls c rn rs c' rn'"
    and "\<And>s. allowedL c s = b" and "\<forall>e \<in> snd ` set (c_ends c). is_enabled rn e = b"
  shows "(\<forall>s. allowedL c' s = b) \<and> (\<forall>e \<in> snd ` set (c_ends c'). is_enabled rn' e = b) \<and>
    (\<forall>r \<in> set rs. endname r \<in> snd ` set (c_ends c'))"
  using assms
proof (induction rule: client_calls.induct)
  case (call c rn rs c1 rn1 name s m a r c2 rn2)
  then obtain e where m: "Clnt_makeEnd name s c1 rn1 = Inr (e, c2, rn2)" and r: "endname r = e"
    by (auto simp: Clnt_Call_def split: sum.splits)
  from call have IH: "\<forall>s. allowedL c1 s = b" "\<forall>e \<in> snd ` set (c_ends c1). is_enabled rn1 e = b"
    "\<forall>r \<in> set rs. endname r \<in> snd ` set (c_ends c1)" by auto
  from m show ?case
  proof (cases rule: Clnt_makeEnd_cases)
    case old
    then have "e \<in> snd ` set (c_ends c2)" by (metis map_of_SomeD image_eqI snd_conv)
    with old IH r show ?thesis by simp
  next
    case new
    then have "allowedL c2 = allowedL c1" by (simp add: allowedL_def fun_eq_iff)
    with new IH r show ?thesis by auto
  qed
qed simp

lemma all_switched:
  "allowedL (fst (Clnt_DisconnectAll c rn)) s = False" "allowedL (fst (Clnt_ConnectAll c rn)) s = True"
  "\<forall>e \<in> snd ` set (c_ends (fst (Clnt_DisconnectAll c rn))). is_enabled (snd (Clnt_DisconnectAll c rn)) e = False"
  "\<forall>e \<in> snd ` set (c_ends (fst (Clnt_ConnectAll c rn))). is_enabled (snd (Clnt_ConnectAll c rn)) e = True"
  by (simp_all add: Clnt_DisconnectAll_def Clnt_ConnectAll_def allowedL_def lablife.switch_all)

lemma all_switches_differ: "Clnt_DisconnectAll c rn \<noteq> Clnt_ConnectAll c rn"
  using all_switched(1,2) [of c rn "[]"] by fastforce

lemma ConnectTo_enabled:
  "is_enabled (snd (Clnt_ConnectTo srvs c rn)) e =
     ((\<exists>s. (s, e) \<in> set (c_ends c) \<and> allowedL (c\<lparr>c_srvs := srvs\<rparr>) s) \<or> is_enabled rn e)"
  by (auto simp: Clnt_ConnectTo_def Let_def lablife.switch_some)

subsection \<open>Properties\<close>

lemma cleanup_removes:
  assumes "reachable_clnts w"
  shows "distinct (map snd (clerk_ends w)) \<and>
    (\<forall>(s, e) \<in> set (clerk_ends w). connection (w_net w) e = Some s) \<and>
    (\<exists>w'. Clnts_cleanup w = Inr w' \<and> clerks w' = None \<and>
      (\<forall>e \<in> snd ` set (clerk_ends w). \<not> end_exists (w_net w') e \<and> \<not> is_enabled (w_net w') e))"
proof -
  have inv: "clnts_inv w" using assms by (rule reachable_clnts_inv)
  have "\<exists>w'. Clnts_cleanup w = Inr w' \<and> clerks w' = None \<and>
      (\<forall>e \<in> snd ` set (clerk_ends w). \<not> end_exists (w_net w') e \<and> \<not> is_enabled (w_net w') e)"
  proof (cases "clerks w")
    case None
    then show ?thesis by (simp add: Clnts_cleanup_def clerk_ends_def)
  next
    case (Some ks)
    with cleanup_loop [OF inv Some] show ?thesis by (auto simp: Clnts_cleanup_def)
  qed
  with inv show ?thesis by (auto simp: clnts_inv_def)
qed


definition demo_clnts :: Clnts where
  "demo_clnts = \<lparr>w_net = Enable ''e1'' True (Connect ''e1'' ''s'' (projr (MakeEnd ''e1'' MakeNetwork))),
     w_clnts = [\<lparr>c_ends = [(''s'', ''e1'')], c_srvs = None\<rparr>], clerks = Some [0]\<rparr>"


text \<open>\<open>DisconnectAll\<close> cuts a client off and \<open>ConnectAll\<close> reconnects it: every request of
  every later call uses an end that is disabled, respectively enabled, whether that end existed
  before or is made by the call.\<close>

theorem disconnect_and_connect_all:
  assumes "client_calls (fst sw) (snd sw) rs c' rn'" and "sw = Clnt_DisconnectAll c rn \<or> sw = Clnt_ConnectAll c rn"
  shows "\<forall>r \<in> set rs. is_enabled rn' (endname r) = (sw = Clnt_ConnectAll c rn)"
proof -
  let ?b = "sw = Clnt_ConnectAll c rn"
  note ne = all_switches_differ [of c rn]
  have al: "allowedL (fst sw) s = ?b" for s using assms(2) ne all_switched(1,2) [of c rn s] by auto
  have "\<forall>e \<in> snd ` set (c_ends (fst sw)). is_enabled (snd sw) e = ?b"
    using assms(2) ne all_switched(3,4) [of c rn] by (elim disjE) simp_all
  from client_calls_switched [OF assms(1) al this]
  have "\<forall>e \<in> snd ` set (c_ends c'). is_enabled rn' e = ?b" "\<forall>r \<in> set rs. endname r \<in> snd ` set (c_ends c')"
    by simp_all
  then show ?thesis by metis
qed

theorem disconnect_and_connect_all_witness:
  "\<exists>r c' rn'. Clnt_Call ''e2'' ''t'' ''KV.Get'' [] (fst (Clnt_DisconnectAll (w_clnts demo_clnts ! 0) (w_net demo_clnts)))
      (snd (Clnt_DisconnectAll (w_clnts demo_clnts ! 0) (w_net demo_clnts))) = Inr (r, c', rn') \<and> \<not> is_enabled rn' (endname r)"
proof -
  let ?c = "w_clnts demo_clnts ! 0" and ?rn = "w_net demo_clnts"
  let ?sw = "Clnt_DisconnectAll ?c ?rn"
  have "\<exists>r c' rn'. Clnt_Call ''e2'' ''t'' ''KV.Get'' [] (fst ?sw) (snd ?sw) = Inr (r, c', rn')"
    by (simp add: demo_clnts_def Clnt_Call_def Clnt_makeEnd_def Clnt_DisconnectAll_def MakeEnd_def Connect_def Enable_def
        MakeNetwork_def allowedL_def Let_def)
  then obtain r c' rn' where call: "Clnt_Call ''e2'' ''t'' ''KV.Get'' [] (fst ?sw) (snd ?sw) = Inr (r, c', rn')" by blast
  have "client_calls (fst ?sw) (snd ?sw) [r] c' rn'" using client_calls.call [OF client_calls.none call] by simp
  from disconnect_and_connect_all [OF this, of ?c ?rn]
  have "is_enabled rn' (endname r) = (?sw = Clnt_ConnectAll ?c ?rn)" by simp
  with call all_switches_differ [of ?c ?rn] show ?thesis by blast
qed

text \<open>\<open>ConnectTo\<close> enables exactly the ends to allowed servers and leaves every other end as it
  was: an end that was enabled before stays enabled even if its server is not in the new list, so
  the empty list does not cut a client off from the servers it already talks to.\<close>

theorem ConnectTo_exact:
  "is_enabled (snd (Clnt_ConnectTo srvs c rn)) e =
     ((\<exists>s. (s, e) \<in> set (c_ends c) \<and> allowedL (c\<lparr>c_srvs := srvs\<rparr>) s) \<or> is_enabled rn e) \<and>
   is_enabled (snd (Clnt_ConnectTo (Some []) c rn)) = is_enabled rn"
  by (simp add: ConnectTo_enabled allowedL_def fun_eq_iff)


end
