(* ===== verification/Server_Groups.thy ===== *)
theory Server_Groups
  imports Rpc_Net Persist
begin

text \<open>Server groups of the test harness, \<^verbatim>\<open>tester1/srv.go\<close> and \<^verbatim>\<open>tester1/group.go\<close>: the
  servers of a group, the ends between each pair of them, which of them are connected, crash and
  restart with the persisted state, and network partitions. The services that a group runs are
  code outside the harness: \<open>mks\<close> makes them, and stopping one is recorded. Random end names are
  arguments. Slice indexing out of range, nil pointers and the stops of \<open>MakeEnd\<close> are error
  values.\<close>

definition ServerName :: "Tgid \<Rightarrow> int \<Rightarrow> string" where
  "ServerName g i = ''server-'' @ Itoa g @ ''-'' @ Itoa i"

datatype grp_error = GNet rpc_error | IndexRange | NilPersister | NilService | NilGroup

text \<open>Go indexes slices with signed integers and panics outside the bounds.\<close>

definition in_range :: "'a list \<Rightarrow> int \<Rightarrow> bool" where
  "in_range xs i \<longleftrightarrow> 0 \<le> i \<and> i < int (length xs)"

definition at :: "'a list \<Rightarrow> int \<Rightarrow> grp_error + 'a" where
  "at xs i = (if in_range xs i then Inr (xs ! nat i) else Inl IndexRange)"

definition put :: "'a list \<Rightarrow> int \<Rightarrow> 'a \<Rightarrow> grp_error + 'a list" where
  "put xs i x = (if in_range xs i then Inr (xs[nat i := x]) else Inl IndexRange)"

definition andthen :: "grp_error + 'a \<Rightarrow> ('a \<Rightarrow> grp_error + 'b) \<Rightarrow> grp_error + 'b" where
  "andthen r f = (case r of Inl e \<Rightarrow> Inl e | Inr x \<Rightarrow> f x)"

subsection \<open>Servers\<close>

record 'svc Srv =
  saved :: "nat option"
  svcs :: "'svc option list"
  endNames :: "ename list"

text \<open>What a group shares with the rest of the test: the network, the persisters, the RPC servers
  that were created, and which services were told to stop.\<close>

record ('svc, 'w) env =
  net :: Network
  store :: pstore
  labs :: "'w Server list"
  killed :: "'svc list"

fun make_ends :: "(int \<times> ename) list \<Rightarrow> Tgid \<Rightarrow> Network \<Rightarrow> grp_error + Network" where
  "make_ends [] g rn = Inr rn"
| "make_ends ((j, name) # js) g rn =
     (case MakeEnd name rn of
        Inl e \<Rightarrow> Inl (GNet e)
      | Inr rn' \<Rightarrow> make_ends js g (Connect name (ServerName g j) rn'))"

definition makeServer :: "(nat \<Rightarrow> ename) \<Rightarrow> Tgid \<Rightarrow> nat \<Rightarrow> Network \<Rightarrow> grp_error + ('svc Srv \<times> Network)" where
  "makeServer rnd g nsrv rn =
     (let names = map rnd [0..<nsrv]
      in andthen (make_ends (zip (map int [0..<nsrv]) names) g rn)
           (\<lambda>rn'. Inr (\<lparr>saved = None, svcs = [], endNames = names\<rparr>, rn')))"

definition startServer :: "(nat \<Rightarrow> ename) \<Rightarrow> Tgid \<Rightarrow> 'svc Srv \<Rightarrow> ('svc, 'w) env \<Rightarrow> grp_error + ('svc Srv \<times> ('svc, 'w) env)" where
  "startServer rnd g s v =
     andthen (makeServer rnd g (length (endNames s)) (net v)) (\<lambda>(srv, rn).
       case (case saved s of Some p \<Rightarrow> Persister_Copy p (store v) | None \<Rightarrow> MakePersister (store v)) of
         (np, st) \<Rightarrow> Inr (srv\<lparr>saved := Some np\<rparr>, v\<lparr>net := rn, store := st\<rparr>))"

text \<open>The flags \<open>conn\<close> are the group's \<open>connected\<close> slice.\<close>

definition Srv_connect :: "'svc Srv \<Rightarrow> bool list \<Rightarrow> int list \<Rightarrow> Network \<Rightarrow> grp_error + Network" where
  "Srv_connect s conn to = each (\<lambda>j rn.
     andthen (at conn j) (\<lambda>c.
       if c then andthen (at (endNames s) j) (\<lambda>e. Inr (Enable e True rn)) else Inr rn)) to"

definition Srv_disconnect :: "'svc Srv \<Rightarrow> int list \<Rightarrow> Network \<Rightarrow> grp_error + Network" where
  "Srv_disconnect s from = each (\<lambda>j rn.
     andthen (at (endNames s) j) (\<lambda>e. Inr (Enable e False rn))) from"

definition kill_all :: "'svc option list \<Rightarrow> 'svc list" where
  "kill_all ss = concat (map (\<lambda>s. case s of None \<Rightarrow> [] | Some x \<Rightarrow> [x]) ss)"

definition shutdownServer :: "'svc Srv \<Rightarrow> ('svc, 'w) env \<Rightarrow> 'svc Srv \<times> ('svc, 'w) env" where
  "shutdownServer s v =
     (case saved s of
        Some p \<Rightarrow> (case Persister_Copy p (store v) of (np, st) \<Rightarrow>
          (s\<lparr>saved := Some np, svcs := []\<rparr>, v\<lparr>store := st, killed := killed v @ kill_all (svcs s)\<rparr>))
      | None \<Rightarrow> (s\<lparr>svcs := []\<rparr>, v\<lparr>killed := killed v @ kill_all (svcs s)\<rparr>))"

subsection \<open>Groups\<close>

record 'svc ServerGrp =
  srvs :: "'svc Srv list"
  servernames :: "string list"
  gid :: Tgid
  connected :: "bool list"

text \<open>\<open>rnd i j\<close> is the random name drawn for the end from server \<open>i\<close> to server \<open>j\<close>.\<close>

fun make_servers :: "nat list \<Rightarrow> (nat \<Rightarrow> nat \<Rightarrow> ename) \<Rightarrow> Tgid \<Rightarrow> nat \<Rightarrow> Network \<Rightarrow> grp_error + ('svc Srv list \<times> Network)" where
  "make_servers [] rnd g n rn = Inr ([], rn)"
| "make_servers (i # is) rnd g n rn =
     andthen (makeServer (rnd i) g n rn) (\<lambda>(s, rn1).
     andthen (make_servers is rnd g n rn1) (\<lambda>(ss, rn2). Inr (s # ss, rn2)))"

definition makeSrvGrp :: "(nat \<Rightarrow> nat \<Rightarrow> ename) \<Rightarrow> Tgid \<Rightarrow> nat \<Rightarrow> Network \<Rightarrow> grp_error + ('svc ServerGrp \<times> Network)" where
  "makeSrvGrp rnd g n rn =
     andthen (make_servers [0..<n] rnd g n rn) (\<lambda>(ss, rn').
       Inr (\<lparr>srvs = ss, servernames = map (\<lambda>i. ServerName g (int i)) [0..<n], gid = g,
             connected = replicate n False\<rparr>, rn'))"

definition SrvName :: "'svc ServerGrp \<Rightarrow> int \<Rightarrow> grp_error + string" where
  "SrvName sg i = at (servernames sg) i"

fun SrvNamesTo :: "'svc ServerGrp \<Rightarrow> int list \<Rightarrow> grp_error + string list" where
  "SrvNamesTo sg [] = Inr []"
| "SrvNamesTo sg (i # to) = andthen (at (servernames sg) i) (\<lambda>n.
     andthen (SrvNamesTo sg to) (\<lambda>ns. Inr (n # ns)))"

definition all :: "'svc ServerGrp \<Rightarrow> int list" where
  "all sg = map int [0..<length (srvs sg)]"

definition IsConnected :: "'svc ServerGrp \<Rightarrow> int \<Rightarrow> grp_error + bool" where
  "IsConnected sg i = at (connected sg) i"

definition connect_in :: "'svc ServerGrp \<Rightarrow> int \<Rightarrow> int list \<Rightarrow> Network \<Rightarrow> grp_error + Network" where
  "connect_in sg i to = each (\<lambda>j rn.
     andthen (IsConnected sg j) (\<lambda>c.
       if c then andthen (at (srvs sg) j) (\<lambda>s. andthen (at (endNames s) i) (\<lambda>e. Inr (Enable e True rn)))
       else Inr rn)) to"

definition disconnect_in :: "'svc ServerGrp \<Rightarrow> int \<Rightarrow> int list \<Rightarrow> Network \<Rightarrow> grp_error + Network" where
  "disconnect_in sg i from = each (\<lambda>j rn.
     andthen (at (srvs sg) j) (\<lambda>s. andthen (at (endNames s) i) (\<lambda>e. Inr (Enable e False rn)))) from"

text \<open>The operations on connections change the group's flags and the network.\<close>

type_synonym 'svc gn = "'svc ServerGrp \<times> Network"

definition connect :: "int \<Rightarrow> int list \<Rightarrow> 'svc gn \<Rightarrow> grp_error + 'svc gn" where
  "connect i to gn = (case gn of (sg, rn) \<Rightarrow>
     andthen (put (connected sg) i True) (\<lambda>cs.
       let sg' = sg\<lparr>connected := cs\<rparr> in
       andthen (at (srvs sg') i) (\<lambda>s.
       andthen (Srv_connect s cs to rn) (\<lambda>rn1.
       andthen (connect_in sg' i to rn1) (\<lambda>rn2. Inr (sg', rn2))))))"

definition disconnect :: "int \<Rightarrow> int list \<Rightarrow> 'svc gn \<Rightarrow> grp_error + 'svc gn" where
  "disconnect i from gn = (case gn of (sg, rn) \<Rightarrow>
     andthen (put (connected sg) i False) (\<lambda>cs.
       let sg' = sg\<lparr>connected := cs\<rparr> in
       andthen (at (srvs sg') i) (\<lambda>s.
       andthen (Srv_disconnect s from rn) (\<lambda>rn1.
       andthen (disconnect_in sg' i from rn1) (\<lambda>rn2. Inr (sg', rn2))))))"

definition ConnectOne :: "int \<Rightarrow> 'svc gn \<Rightarrow> grp_error + 'svc gn" where
  "ConnectOne i gn = connect i (all (fst gn)) gn"

definition ConnectAll :: "'svc gn \<Rightarrow> grp_error + 'svc gn" where
  "ConnectAll gn = each ConnectOne (all (fst gn)) gn"

definition DisconnectAll :: "int \<Rightarrow> 'svc gn \<Rightarrow> grp_error + 'svc gn" where
  "DisconnectAll i gn = disconnect i (all (fst gn)) gn"

definition Partition :: "int list \<Rightarrow> int list \<Rightarrow> 'svc gn \<Rightarrow> grp_error + 'svc gn" where
  "Partition p1 p2 gn =
     andthen (each (\<lambda>i g. andthen (disconnect i p2 g) (connect i p1)) p1 gn)
       (each (\<lambda>i g. andthen (disconnect i p1 g) (connect i p2)) p2)"

fun partition_loop :: "int \<Rightarrow> nat list \<Rightarrow> int list \<Rightarrow> int list \<Rightarrow> nat \<Rightarrow> grp_error + (int list \<times> int list)" where
  "partition_loop l [] p1 p2 j = Inr (p1, p2)"
| "partition_loop l (i # is) p1 p2 j =
     (if int i \<noteq> l then
        (if j < length p1 then partition_loop l is (p1[j := int i]) p2 (j + 1)
         else andthen (put p2 (int j - int (length p1)) (int i)) (\<lambda>p2'. partition_loop l is p1 p2' (j + 1)))
      else partition_loop l is p1 p2 j)"

definition MakePartition :: "'svc ServerGrp \<Rightarrow> int \<Rightarrow> grp_error + (int list \<times> int list)" where
  "MakePartition sg l =
     (let n = length (srvs sg)
      in andthen (partition_loop l [0..<n] (replicate (n div 2 + 1) 0) (replicate (n div 2) 0) 0)
           (\<lambda>(p1, p2). andthen (put p2 (int (length p2) - 1) l) (\<lambda>p2'. Inr (p1, p2'))))"

subsection \<open>Starting and stopping servers\<close>

fun max_size :: "(nat \<Rightarrow> nat) \<Rightarrow> 'svc Srv list \<Rightarrow> nat \<Rightarrow> grp_error + nat" where
  "max_size sz [] m = Inr m"
| "max_size sz (s # ss) m = (case saved s of
      None \<Rightarrow> Inl NilPersister
    | Some p \<Rightarrow> max_size sz ss (if sz p > m then sz p else m))"

definition LogSize :: "'svc ServerGrp \<Rightarrow> pstore \<Rightarrow> grp_error + nat" where
  "LogSize sg st = max_size (\<lambda>p. RaftStateSize p st) (srvs sg) 0"

definition Grp_SnapshotSize :: "'svc ServerGrp \<Rightarrow> pstore \<Rightarrow> grp_error + nat" where
  "Grp_SnapshotSize sg st = max_size (\<lambda>p. SnapshotSize p st) (srvs sg) 0"

text \<open>\<open>mks\<close> starts the services of a server, given its ends, group, index and persister;
  \<open>svcOf\<close> is what reflection finds of a service.\<close>

type_synonym 'svc mks = "ename list \<Rightarrow> Tgid \<Rightarrow> int \<Rightarrow> nat \<Rightarrow> 'svc option list"

type_synonym ('svc, 'w) ge = "'svc ServerGrp \<times> ('svc, 'w) env"

definition StartServer :: "'svc mks \<Rightarrow> ('svc option \<Rightarrow> 'w Service) \<Rightarrow> (nat \<Rightarrow> ename) \<Rightarrow> int \<Rightarrow> ('svc, 'w) ge \<Rightarrow> grp_error + ('svc, 'w) ge" where
  "StartServer mks svcOf rnd i ge = (case ge of (sg, v) \<Rightarrow>
     andthen (at (srvs sg) i) (\<lambda>s.
     andthen (startServer rnd (gid sg) s v) (\<lambda>(srv, v1).
       let ss = mks (endNames srv) (gid sg) i (the (saved srv));
           srv' = srv\<lparr>svcs := ss\<rparr>;
           labsrv = foldl AddService MakeServer (map svcOf ss);
           v2 = v1\<lparr>labs := labs v1 @ [labsrv],
                   net := AddServer (ServerName (gid sg) i) (length (labs v1)) (net v1)\<rparr>
       in Inr (sg\<lparr>srvs := (srvs sg)[nat i := srv']\<rparr>, v2))))"

definition start :: "'svc mks \<Rightarrow> ('svc option \<Rightarrow> 'w Service) \<Rightarrow> (int \<Rightarrow> nat \<Rightarrow> ename) \<Rightarrow> ('svc, 'w) ge \<Rightarrow> grp_error + ('svc, 'w) ge" where
  "start mks svcOf rnd ge = each (\<lambda>i. StartServer mks svcOf (rnd i) i) (all (fst ge)) ge"

text \<open>The operations on connections, lifted to the environment.\<close>

definition on_net :: "('svc gn \<Rightarrow> grp_error + 'svc gn) \<Rightarrow> ('svc, 'w) ge \<Rightarrow> grp_error + ('svc, 'w) ge" where
  "on_net f ge = (case ge of (sg, v) \<Rightarrow> andthen (f (sg, net v)) (\<lambda>(sg', rn). Inr (sg', v\<lparr>net := rn\<rparr>)))"

definition StartServers :: "'svc mks \<Rightarrow> ('svc option \<Rightarrow> 'w Service) \<Rightarrow> (int \<Rightarrow> nat \<Rightarrow> ename) \<Rightarrow> ('svc, 'w) ge \<Rightarrow> grp_error + ('svc, 'w) ge" where
  "StartServers mks svcOf rnd ge = andthen (start mks svcOf rnd ge) (on_net ConnectAll)"

definition ShutdownServer :: "int \<Rightarrow> ('svc, 'w) ge \<Rightarrow> grp_error + ('svc, 'w) ge" where
  "ShutdownServer i ge =
     andthen (on_net (\<lambda>gn. disconnect i (all (fst gn)) gn) ge) (\<lambda>(sg, v).
       let v1 = v\<lparr>net := DeleteServer (ServerName (gid sg) i) (net v)\<rparr>
       in andthen (at (srvs sg) i) (\<lambda>s.
            case shutdownServer s v1 of (s', v2) \<Rightarrow> Inr (sg\<lparr>srvs := (srvs sg)[nat i := s']\<rparr>, v2)))"

definition Shutdown :: "('svc, 'w) ge \<Rightarrow> grp_error + ('svc, 'w) ge" where
  "Shutdown ge = each ShutdownServer (all (fst ge)) ge"

text \<open>At the end of a test the services are stopped without the test for nil that
  \<open>shutdownServer\<close> makes.\<close>

definition Grp_cleanup :: "'svc ServerGrp \<Rightarrow> ('svc, 'w) env \<Rightarrow> grp_error + ('svc, 'w) env" where
  "Grp_cleanup sg = each (\<lambda>x v. case x of None \<Rightarrow> Inl NilService | Some svc \<Rightarrow> Inr (v\<lparr>killed := killed v @ [svc]\<rparr>))
     (concat (map svcs (srvs sg)))"

definition RpcCount :: "'svc ServerGrp \<Rightarrow> int \<Rightarrow> ('svc, 'w) env \<Rightarrow> grp_error + goint" where
  "RpcCount sg i v = (case GetCount (\<lambda>p. labs v ! p) (net v) (ServerName (gid sg) i) of
      Inl e \<Rightarrow> Inl (GNet e) | Inr c \<Rightarrow> Inr c)"

subsection \<open>All groups of a test\<close>

record ('svc, 'w) Groups =
  grps :: "(Tgid, 'svc ServerGrp) gomap"
  genv :: "('svc, 'w) env"

definition newGroups :: "('svc, 'w) env \<Rightarrow> ('svc, 'w) Groups" where
  "newGroups v = \<lparr>grps = [], genv = v\<rparr>"

definition MakeGroup :: "(nat \<Rightarrow> nat \<Rightarrow> ename) \<Rightarrow> Tgid \<Rightarrow> nat \<Rightarrow> ('svc, 'w) Groups \<Rightarrow> grp_error + ('svc, 'w) Groups" where
  "MakeGroup rnd g n gs =
     andthen (makeSrvGrp rnd g n (net (genv gs))) (\<lambda>(sg, rn).
       Inr (gs\<lparr>grps := AList.update g sg (grps gs), genv := (genv gs)\<lparr>net := rn\<rparr>\<rparr>))"

text \<open>Looking up a group that is not there gives a nil pointer; every method called on it panics.\<close>

definition on_group :: "Tgid \<Rightarrow> (('svc, 'w) ge \<Rightarrow> grp_error + ('svc, 'w) ge) \<Rightarrow> ('svc, 'w) Groups \<Rightarrow> grp_error + ('svc, 'w) Groups" where
  "on_group g f gs = (case map_of (grps gs) g of
      None \<Rightarrow> Inl NilGroup
    | Some sg \<Rightarrow> andthen (f (sg, genv gs)) (\<lambda>(sg', v). Inr (gs\<lparr>grps := AList.update g sg' (grps gs), genv := v\<rparr>)))"

definition delete_group :: "Tgid \<Rightarrow> ('svc, 'w) Groups \<Rightarrow> ('svc, 'w) Groups" where
  "delete_group g gs = gs\<lparr>grps := AList.delete g (grps gs)\<rparr>"

definition Groups_cleanup :: "('svc, 'w) Groups \<Rightarrow> grp_error + ('svc, 'w) Groups" where
  "Groups_cleanup gs =
     andthen (each Grp_cleanup (map snd (grps gs)) (genv gs)) (\<lambda>v. Inr (gs\<lparr>genv := v\<rparr>))"

text \<open>\<^verbatim>\<open>Config.MakeGroupStart\<close> and \<^verbatim>\<open>Config.ExitGroup\<close>.\<close>

definition MakeGroupStart where
  "MakeGroupStart mks svcOf rnd rnd' g n gs =
     andthen (MakeGroup rnd g n gs) (on_group g (StartServers mks svcOf rnd'))"

definition ExitGroup :: "Tgid \<Rightarrow> ('svc, 'w) Groups \<Rightarrow> grp_error + ('svc, 'w) Groups" where
  "ExitGroup g gs = andthen (on_group g Shutdown gs) (\<lambda>gs'. Inr (delete_group g gs'))"

subsection \<open>Well-formed groups\<close>

text \<open>The name of the end from server \<open>i\<close> to server \<open>j\<close>, and whether that link is up.\<close>

definition link :: "'svc ServerGrp \<Rightarrow> nat \<Rightarrow> nat \<Rightarrow> ename" where
  "link sg i j = endNames (srvs sg ! i) ! j"

definition up :: "'svc gn \<Rightarrow> nat \<Rightarrow> nat \<Rightarrow> bool" where
  "up gn i j = is_enabled (snd gn) (link (fst gn) i j)"

definition wf_grp :: "'svc ServerGrp \<Rightarrow> bool" where
  "wf_grp sg \<longleftrightarrow>
     length (connected sg) = length (srvs sg) \<and>
     (\<forall>s \<in> set (srvs sg). length (endNames s) = length (srvs sg)) \<and>
     (\<forall>i < length (srvs sg). \<forall>j < length (srvs sg). \<forall>i' < length (srvs sg). \<forall>j' < length (srvs sg).
        link sg i j = link sg i' j' \<longrightarrow> i = i' \<and> j = j')"

lemmas grp_defs = at_def put_def in_range_def andthen_def

lemma at_int [simp]: "at xs (int i) = (if i < length xs then Inr (xs ! i) else Inl IndexRange)"
  by (simp add: grp_defs)

lemma put_int [simp]: "put xs (int i) x = (if i < length xs then Inr (xs[i := x]) else Inl IndexRange)"
  by (simp add: grp_defs)

lemma andthen_simps [simp]: "andthen (Inr x) f = f x" "andthen (Inl e) f = Inl e"
  by (simp_all add: andthen_def)

lemma wf_grpD:
  assumes "wf_grp sg"
  shows "length (connected sg) = length (srvs sg)"
    and "i < length (srvs sg) \<Longrightarrow> length (endNames (srvs sg ! i)) = length (srvs sg)"
    and "i < length (srvs sg) \<Longrightarrow> j < length (srvs sg) \<Longrightarrow> i' < length (srvs sg) \<Longrightarrow> j' < length (srvs sg) \<Longrightarrow>
      link sg i j = link sg i' j' \<longleftrightarrow> i = i' \<and> j = j'"
  using assms by (auto simp: wf_grp_def)

lemma wf_grp_connected [simp]:
  "length cs = length (connected sg) \<Longrightarrow> wf_grp (sg\<lparr>connected := cs\<rparr>) = wf_grp sg"
  by (simp add: wf_grp_def link_def)

lemma link_connected [simp]: "link (sg\<lparr>connected := cs\<rparr>) = link sg"
  by (simp add: link_def fun_eq_iff)

subsection \<open>The four switching loops\<close>

lemma Srv_disconnect_eq:
  assumes "wf_grp sg" and "i < length (srvs sg)" and "set fs \<subseteq> {..<length (srvs sg)}"
  shows "Srv_disconnect (srvs sg ! i) (map int fs) rn = Inr (fold (\<lambda>e. Enable e False) (map (link sg i) fs) rn)"
  using assms wf_grpD(2) [OF assms(1,2)] unfolding Srv_disconnect_def each_map fold_map comp_def
  by (intro each_in_range) (auto simp: link_def)

lemma disconnect_in_eq:
  assumes "wf_grp sg" and "i < length (srvs sg)" and "set fs \<subseteq> {..<length (srvs sg)}"
  shows "disconnect_in sg (int i) (map int fs) rn = Inr (fold (\<lambda>e. Enable e False) (map (\<lambda>j. link sg j i) fs) rn)"
  using assms wf_grpD(2) [OF assms(1)] unfolding disconnect_in_def each_map fold_map comp_def
  by (intro each_in_range) (auto simp: link_def)

lemma fold_when: "fold (\<lambda>x s. if P x then f x s else s) xs s = fold f (filter P xs) s"
  by (induction xs arbitrary: s) auto

lemma Srv_connect_eq:
  assumes "wf_grp sg" and "i < length (srvs sg)" and "set ts \<subseteq> {..<length (srvs sg)}"
  shows "Srv_connect (srvs sg ! i) (connected sg) (map int ts) rn =
    Inr (fold (\<lambda>e. Enable e True) (map (link sg i) (filter (\<lambda>j. connected sg ! j) ts)) rn)"
proof -
  have "Srv_connect (srvs sg ! i) (connected sg) (map int ts) rn =
    Inr (fold (\<lambda>j rn. if connected sg ! j then Enable (link sg i j) True rn else rn) ts rn)"
    using assms wf_grpD(1,2) [OF assms(1)] unfolding Srv_connect_def each_map
    by (intro each_in_range) (auto simp: link_def)
  then show ?thesis by (simp add: fold_when fold_map comp_def)
qed

lemma connect_in_eq:
  assumes "wf_grp sg" and "i < length (srvs sg)" and "set ts \<subseteq> {..<length (srvs sg)}"
  shows "connect_in sg (int i) (map int ts) rn =
    Inr (fold (\<lambda>e. Enable e True) (map (\<lambda>j. link sg j i) (filter (\<lambda>j. connected sg ! j) ts)) rn)"
proof -
  have "connect_in sg (int i) (map int ts) rn =
    Inr (fold (\<lambda>j rn. if connected sg ! j then Enable (link sg j i) True rn else rn) ts rn)"
    using assms wf_grpD(1,2) [OF assms(1)] unfolding connect_in_def each_map
    by (intro each_in_range) (auto simp: link_def IsConnected_def)
  then show ?thesis by (simp add: fold_when fold_map comp_def)
qed

text \<open>What the operations on connections keep: everything but the flags and the group's own ends.\<close>

definition grp_frame :: "'svc gn \<Rightarrow> 'svc Srv list \<times> string list \<times> Tgid \<times> (ename \<Rightarrow> sname option) \<times>
    (sname \<Rightarrow> sptr option) \<times> (ename \<Rightarrow> bool) \<times> ename set" where
  "grp_frame gn = (case gn of (sg, rn) \<Rightarrow>
     (srvs sg, servernames sg, gid sg, connection rn, server_at rn, end_exists rn,
      {e. is_enabled rn e \<and> (\<forall>i < length (srvs sg). \<forall>j < length (srvs sg). e \<noteq> link sg i j)}))"

lemma switch_links_frame:
  assumes "\<And>e. e \<in> set es \<union> set es' \<Longrightarrow> \<exists>i < length (srvs sg). \<exists>j < length (srvs sg). e = link sg i j"
  shows "grp_frame (sg\<lparr>connected := cs\<rparr>, fold (\<lambda>e. Enable e b) es' (fold (\<lambda>e. Enable e b) es rn)) = grp_frame (sg, rn)"
proof -
  have ex: "end_exists (fold (\<lambda>e. Enable e b) es rn) = end_exists rn" for es rn
    by (induction es arbitrary: rn) (auto simp: lablife.exists_enable)
  have sv: "server_at (fold (\<lambda>e. Enable e b) es rn) = server_at rn" for es rn
    by (induction es arbitrary: rn) (auto simp: labnet.live_enable)
  show ?thesis using assms
    by (auto simp: grp_frame_def ex sv labnet.conn_enable_all labnet.is_on_enable_all)
qed


lemma disconnect_ok:
  assumes "wf_grp sg" and "i < length (srvs sg)" and "set fs \<subseteq> {..<length (srvs sg)}"
  shows "\<exists>rn'. disconnect (int i) (map int fs) (sg, rn) = Inr (sg\<lparr>connected := (connected sg)[i := False]\<rparr>, rn') \<and>
    grp_frame (sg\<lparr>connected := (connected sg)[i := False]\<rparr>, rn') = grp_frame (sg, rn) \<and>
    (\<forall>a < length (srvs sg). \<forall>b < length (srvs sg). is_enabled rn' (link sg a b) =
       (is_enabled rn (link sg a b) \<and> \<not> (a = i \<and> b \<in> set fs) \<and> \<not> (b = i \<and> a \<in> set fs)))"
proof -
  let ?sg = "sg\<lparr>connected := (connected sg)[i := False]\<rparr>"
  let ?rn = "fold (\<lambda>e. Enable e False) (map (\<lambda>j. link sg j i) fs) (fold (\<lambda>e. Enable e False) (map (link sg i) fs) rn)"
  have "disconnect (int i) (map int fs) (sg, rn) = Inr (?sg, ?rn)"
    using assms Srv_disconnect_eq [OF assms] disconnect_in_eq [of ?sg i fs] wf_grpD(1) [OF assms(1)]
    by (simp add: disconnect_def Let_def)
  moreover have "grp_frame (?sg, ?rn) = grp_frame (sg, rn)"
    using assms(2,3) by (intro switch_links_frame) auto
  moreover have "is_enabled ?rn (link sg a b) =
      (is_enabled rn (link sg a b) \<and> \<not> (a = i \<and> b \<in> set fs) \<and> \<not> (b = i \<and> a \<in> set fs))"
    if "a < length (srvs sg)" "b < length (srvs sg)" for a b
    using wf_grpD(3) [OF assms(1)] that assms(2,3)
    by (auto simp: labnet.is_on_enable_all image_iff subset_iff)
  ultimately show ?thesis by blast
qed

lemma connect_ok:
  assumes "wf_grp sg" and "i < length (srvs sg)" and "set ts \<subseteq> {..<length (srvs sg)}"
  shows "\<exists>rn'. connect (int i) (map int ts) (sg, rn) = Inr (sg\<lparr>connected := (connected sg)[i := True]\<rparr>, rn') \<and>
    grp_frame (sg\<lparr>connected := (connected sg)[i := True]\<rparr>, rn') = grp_frame (sg, rn) \<and>
    (\<forall>a < length (srvs sg). \<forall>b < length (srvs sg). is_enabled rn' (link sg a b) =
       (is_enabled rn (link sg a b) \<or> (a = i \<and> b \<in> set ts \<and> (b = i \<or> connected sg ! b)) \<or>
        (b = i \<and> a \<in> set ts \<and> (a = i \<or> connected sg ! a))))"
proof -
  let ?sg = "sg\<lparr>connected := (connected sg)[i := True]\<rparr>"
  let ?fs = "filter (\<lambda>j. (connected sg)[i := True] ! j) ts"
  let ?rn = "fold (\<lambda>e. Enable e True) (map (\<lambda>j. link sg j i) ?fs) (fold (\<lambda>e. Enable e True) (map (link sg i) ?fs) rn)"
  have len: "length (connected sg) = length (srvs sg)" using assms(1) by (rule wf_grpD)
  have "connect (int i) (map int ts) (sg, rn) = Inr (?sg, ?rn)"
    using assms Srv_connect_eq [of ?sg i ts] connect_in_eq [of ?sg i ts] len
    by (simp add: connect_def Let_def)
  moreover have "grp_frame (?sg, ?rn) = grp_frame (sg, rn)"
    using assms(2,3) by (intro switch_links_frame) auto
  moreover have "is_enabled ?rn (link sg a b) =
       (is_enabled rn (link sg a b) \<or> (a = i \<and> b \<in> set ts \<and> (b = i \<or> connected sg ! b)) \<or>
        (b = i \<and> a \<in> set ts \<and> (a = i \<or> connected sg ! a)))"
    if "a < length (srvs sg)" "b < length (srvs sg)" for a b
    using wf_grpD(3) [OF assms(1)] that assms(2,3) len
    by (auto simp: labnet.is_on_enable_all image_iff subset_iff nth_list_update)
  ultimately show ?thesis by blast
qed

subsection \<open>Connectivity as an interface\<close>

text \<open>The laws of connecting and disconnecting a member of a group, on the graph of live links:
  \<open>conn i ts\<close> marks \<open>i\<close> as connected and brings up its links with the marked members of \<open>ts\<close>;
  \<open>disc i fs\<close> unmarks it and takes down its links with \<open>fs\<close>; nothing else changes.\<close>

locale linked_group =
  fixes good :: "'g \<Rightarrow> bool" and size_of :: "'g \<Rightarrow> nat" and marked :: "'g \<Rightarrow> nat \<Rightarrow> bool"
    and edge :: "'g \<Rightarrow> nat \<Rightarrow> nat \<Rightarrow> bool" and rest :: "'g \<Rightarrow> 'f"
    and conn :: "int \<Rightarrow> int list \<Rightarrow> 'g \<Rightarrow> grp_error + 'g"
    and disc :: "int \<Rightarrow> int list \<Rightarrow> 'g \<Rightarrow> grp_error + 'g"
  assumes conn_law: "good g \<Longrightarrow> i < size_of g \<Longrightarrow> set ts \<subseteq> {..<size_of g} \<Longrightarrow>
      \<exists>g'. conn (int i) (map int ts) g = Inr g' \<and> good g' \<and> size_of g' = size_of g \<and> rest g' = rest g \<and>
        (\<forall>a < size_of g. marked g' a = (a = i \<or> marked g a)) \<and>
        (\<forall>a < size_of g. \<forall>b < size_of g. edge g' a b =
          (edge g a b \<or> (a = i \<and> b \<in> set ts \<and> (b = i \<or> marked g b)) \<or> (b = i \<and> a \<in> set ts \<and> (a = i \<or> marked g a))))"
    and disc_law: "good g \<Longrightarrow> i < size_of g \<Longrightarrow> set fs \<subseteq> {..<size_of g} \<Longrightarrow>
      \<exists>g'. disc (int i) (map int fs) g = Inr g' \<and> good g' \<and> size_of g' = size_of g \<and> rest g' = rest g \<and>
        (\<forall>a < size_of g. marked g' a = (a \<noteq> i \<and> marked g a)) \<and>
        (\<forall>a < size_of g. \<forall>b < size_of g. edge g' a b =
          (edge g a b \<and> \<not> (a = i \<and> b \<in> set fs) \<and> \<not> (b = i \<and> a \<in> set fs)))"
begin

text \<open>Moving one member \<open>x\<close> of \<open>p\<close> away from \<open>q\<close> and into \<open>p\<close>.\<close>

lemma move_law:
  assumes "good g" and "x < size_of g" and "set p \<subseteq> {..<size_of g}" and "set q \<subseteq> {..<size_of g}"
  shows "\<exists>g'. andthen (disc (int x) (map int q) g) (conn (int x) (map int p)) = Inr g' \<and>
    good g' \<and> size_of g' = size_of g \<and> rest g' = rest g \<and>
    (\<forall>a < size_of g. marked g' a = (a = x \<or> marked g a)) \<and>
    (\<forall>a < size_of g. \<forall>b < size_of g. edge g' a b =
      (edge g a b \<and> \<not> (a = x \<and> b \<in> set q) \<and> \<not> (b = x \<and> a \<in> set q) \<or>
       (a = x \<and> b \<in> set p \<and> (b = x \<or> marked g b)) \<or> (b = x \<and> a \<in> set p \<and> (a = x \<or> marked g a))))"
proof -
  from disc_law [OF assms(1,2,4)] obtain g1 where g1: "disc (int x) (map int q) g = Inr g1" "good g1"
    "size_of g1 = size_of g" "rest g1 = rest g" "\<forall>a < size_of g. marked g1 a = (a \<noteq> x \<and> marked g a)"
    "\<forall>a < size_of g. \<forall>b < size_of g. edge g1 a b =
      (edge g a b \<and> \<not> (a = x \<and> b \<in> set q) \<and> \<not> (b = x \<and> a \<in> set q))" by blast
  from conn_law [of g1 x p] g1 assms obtain g2 where g2: "conn (int x) (map int p) g1 = Inr g2" "good g2"
    "size_of g2 = size_of g" "rest g2 = rest g" "\<forall>a < size_of g. marked g2 a = (a = x \<or> marked g1 a)"
    "\<forall>a < size_of g. \<forall>b < size_of g. edge g2 a b =
      (edge g1 a b \<or> (a = x \<and> b \<in> set p \<and> (b = x \<or> marked g1 b)) \<or> (b = x \<and> a \<in> set p \<and> (a = x \<or> marked g1 a)))"
    by auto
  show ?thesis using g1 g2 by (intro exI [of _ g2]) auto
qed

text \<open>The loop over one side: afterwards it is fully connected inside and has no link to the
  other side.\<close>

lemma side_loop:
  assumes "good g" and p: "set p \<subseteq> {..<size_of g}" and q: "set q \<subseteq> {..<size_of g}" and "set p \<inter> set q = {}"
  shows "\<exists>g'. each (\<lambda>i g. andthen (disc i (map int q) g) (conn i (map int p))) (map int p) g = Inr g' \<and>
    good g' \<and> size_of g' = size_of g \<and> rest g' = rest g \<and>
    (\<forall>a < size_of g. marked g' a = (a \<in> set p \<or> marked g a)) \<and>
    (\<forall>a \<in> set p. \<forall>b \<in> set p. edge g' a b) \<and> (\<forall>a \<in> set p. \<forall>b \<in> set q. \<not> edge g' a b \<and> \<not> edge g' b a) \<and>
    (\<forall>a < size_of g. \<forall>b < size_of g. a \<notin> set p \<longrightarrow> b \<notin> set p \<longrightarrow> edge g' a b = edge g a b)"
  unfolding each_map
proof (rule each_succeeds [where P = "\<lambda>ys h. good h \<and> size_of h = size_of g \<and> rest h = rest g \<and>
    (\<forall>a < size_of g. marked h a = (a \<in> set ys \<or> marked g a)) \<and>
    (\<forall>a \<in> set ys. \<forall>b \<in> set ys. edge h a b) \<and> (\<forall>a \<in> set ys. \<forall>b \<in> set q. \<not> edge h a b \<and> \<not> edge h b a) \<and>
    (\<forall>a < size_of g. \<forall>b < size_of g. a \<notin> set p \<longrightarrow> b \<notin> set p \<longrightarrow> edge h a b = edge g a b)"])
  fix ys x zs h
  assume pxs: "p = ys @ x # zs"
    and h: "good h \<and> size_of h = size_of g \<and> rest h = rest g \<and> (\<forall>a < size_of g. marked h a = (a \<in> set ys \<or> marked g a)) \<and>
      (\<forall>a \<in> set ys. \<forall>b \<in> set ys. edge h a b) \<and> (\<forall>a \<in> set ys. \<forall>b \<in> set q. \<not> edge h a b \<and> \<not> edge h b a) \<and>
      (\<forall>a < size_of g. \<forall>b < size_of g. a \<notin> set p \<longrightarrow> b \<notin> set p \<longrightarrow> edge h a b = edge g a b)"
  let ?n = "size_of g"
  have x: "x < ?n" "x \<in> set p" "x \<notin> set q" and ys: "set ys \<subseteq> set p" using p assms(4) pxs by auto
  have marks: "\<forall>a \<in> set ys. marked h a" using h ys p by auto
  from move_law [of h x p q] h x p q obtain h' where
    h': "andthen (disc (int x) (map int q) h) (conn (int x) (map int p)) = Inr h'" "good h'" "size_of h' = ?n" "rest h' = rest g"
      "\<forall>a < ?n. marked h' a = (a = x \<or> marked h a)"
      "\<forall>a < ?n. \<forall>b < ?n. edge h' a b = (edge h a b \<and> \<not> (a = x \<and> b \<in> set q) \<and> \<not> (b = x \<and> a \<in> set q) \<or>
        (a = x \<and> b \<in> set p \<and> (b = x \<or> marked h b)) \<or> (b = x \<and> a \<in> set p \<and> (a = x \<or> marked h a)))"
    by auto
  have lt: "a < ?n" if "a \<in> set p \<union> set q" for a using that p q by auto
  have "edge h' a b" if "a \<in> set (ys @ [x])" "b \<in> set (ys @ [x])" for a b
    using that h h'(6) lt ys x marks assms(4) by (auto simp: subset_iff disjoint_iff)
  moreover have "\<not> edge h' a b \<and> \<not> edge h' b a" if "a \<in> set (ys @ [x])" "b \<in> set q" for a b
    using that h h'(6) lt ys x assms(4) by (auto simp: subset_iff disjoint_iff)
  moreover have "edge h' a b = edge g a b" if "a < ?n" "b < ?n" "a \<notin> set p" "b \<notin> set p" for a b
    using that h h'(6) x by auto
  ultimately show "\<exists>h'. andthen (disc (int x) (map int q) h) (conn (int x) (map int p)) = Inr h' \<and>
      good h' \<and> size_of h' = ?n \<and> rest h' = rest g \<and> (\<forall>a < ?n. marked h' a = (a \<in> set (ys @ [x]) \<or> marked g a)) \<and>
      (\<forall>a \<in> set (ys @ [x]). \<forall>b \<in> set (ys @ [x]). edge h' a b) \<and>
      (\<forall>a \<in> set (ys @ [x]). \<forall>b \<in> set q. \<not> edge h' a b \<and> \<not> edge h' b a) \<and>
      (\<forall>a < ?n. \<forall>b < ?n. a \<notin> set p \<longrightarrow> b \<notin> set p \<longrightarrow> edge h' a b = edge g a b)"
    using h' h by (intro exI [of _ h']) auto
qed (use assms in simp)

end


context linked_group
begin

lemma two_sides:
  assumes "good g" and p: "set p \<subseteq> {..<size_of g}" and q: "set q \<subseteq> {..<size_of g}" and dis: "set p \<inter> set q = {}"
  shows "\<exists>g'. andthen (each (\<lambda>i g. andthen (disc i (map int q) g) (conn i (map int p))) (map int p) g)
      (each (\<lambda>i g. andthen (disc i (map int p) g) (conn i (map int q))) (map int q)) = Inr g' \<and>
    good g' \<and> rest g' = rest g \<and> (\<forall>a \<in> set p \<union> set q. marked g' a) \<and>
    (\<forall>a \<in> set p \<union> set q. \<forall>b \<in> set p \<union> set q. edge g' a b = (a \<in> set p \<longleftrightarrow> b \<in> set p))"
proof -
  from side_loop [OF assms(1) p q dis] obtain g1 where
    g1: "each (\<lambda>i g. andthen (disc i (map int q) g) (conn i (map int p))) (map int p) g = Inr g1"
      "good g1" "size_of g1 = size_of g" "rest g1 = rest g" "\<forall>a < size_of g. marked g1 a = (a \<in> set p \<or> marked g a)"
      "\<forall>a \<in> set p. \<forall>b \<in> set p. edge g1 a b" by blast
  from side_loop [of g1 q p] g1 p q dis obtain g2 where
    g2: "each (\<lambda>i g. andthen (disc i (map int p) g) (conn i (map int q))) (map int q) g1 = Inr g2"
      "good g2" "rest g2 = rest g" "\<forall>a < size_of g. marked g2 a = (a \<in> set q \<or> marked g1 a)"
      "\<forall>a \<in> set q. \<forall>b \<in> set q. edge g2 a b" "\<forall>a \<in> set q. \<forall>b \<in> set p. \<not> edge g2 a b \<and> \<not> edge g2 b a"
      "\<forall>a < size_of g. \<forall>b < size_of g. a \<notin> set q \<longrightarrow> b \<notin> set q \<longrightarrow> edge g2 a b = edge g1 a b"
    by (auto simp: inf_commute)
  have lt: "a < size_of g" if "a \<in> set p \<union> set q" for a using that p q by auto
  have "marked g2 a" if "a \<in> set p \<union> set q" for a using that lt [OF that] g1(5) g2(4) by auto
  moreover have "edge g2 a b = (a \<in> set p \<longleftrightarrow> b \<in> set p)" if "a \<in> set p \<union> set q" "b \<in> set p \<union> set q" for a b
    using that lt g1(6) g2(5-7) dis by (auto simp: disjoint_iff)
  ultimately show ?thesis using g1(1) g2(1-3) by auto
qed

text \<open>Connecting every member to all members: the last of two members to be connected brings up
  the links between them.\<close>

lemma connect_each:
  assumes "good g"
  defines "ns \<equiv> [0..<size_of g]"
  shows "\<exists>g'. each (\<lambda>i g. conn i (map int [0..<size_of g]) g) (map int ns) g = Inr g' \<and> good g' \<and> size_of g' = size_of g \<and> rest g' = rest g \<and>
    (\<forall>a < size_of g. marked g' a) \<and> (\<forall>a < size_of g. \<forall>b < size_of g. edge g' a b)"
proof -
  have "\<exists>g'. each (\<lambda>i g. conn (int i) (map int [0..<size_of g]) g) ns g = Inr g' \<and> good g' \<and> size_of g' = size_of g \<and> rest g' = rest g \<and>
    (\<forall>a \<in> set ns. marked g' a) \<and> (\<forall>a \<in> set ns. \<forall>b \<in> set ns. edge g' a b)"
  proof (rule each_succeeds [where P = "\<lambda>ys h. good h \<and> size_of h = size_of g \<and> rest h = rest g \<and>
      (\<forall>a \<in> set ys. marked h a) \<and> (\<forall>a \<in> set ys. \<forall>b \<in> set ys. edge h a b)"])
    fix ys x zs h
    assume e: "ns = ys @ x # zs" and h: "good h \<and> size_of h = size_of g \<and> rest h = rest g \<and>
      (\<forall>a \<in> set ys. marked h a) \<and> (\<forall>a \<in> set ys. \<forall>b \<in> set ys. edge h a b)"
    have "set ys \<union> {x} \<subseteq> set ns" using e by auto
    then have lt: "\<And>a. a \<in> set ys \<union> {x} \<Longrightarrow> a < size_of g \<and> a \<in> set ns" by (auto simp: ns_def)
    have "set ns \<subseteq> {..<size_of h}" "x < size_of h" using h lt by (auto simp: ns_def)
    from conn_law [OF _ this(2,1)] h obtain h' where
      h': "conn (int x) (map int ns) h = Inr h'" "good h'" "size_of h' = size_of g" "rest h' = rest g"
        "\<forall>a < size_of g. marked h' a = (a = x \<or> marked h a)"
        "\<forall>a < size_of g. \<forall>b < size_of g. edge h' a b = (edge h a b \<or> (a = x \<and> b \<in> set ns \<and> (b = x \<or> marked h b)) \<or>
          (b = x \<and> a \<in> set ns \<and> (a = x \<or> marked h a)))" by auto
    then show "\<exists>h'. conn (int x) (map int [0..<size_of h]) h = Inr h' \<and> good h' \<and> size_of h' = size_of g \<and> rest h' = rest g \<and>
      (\<forall>a \<in> set (ys @ [x]). marked h' a) \<and> (\<forall>a \<in> set (ys @ [x]). \<forall>b \<in> set (ys @ [x]). edge h' a b)"
      using h lt by (intro exI [of _ h']) (auto simp: ns_def)
  qed (use assms in simp)
  then show ?thesis unfolding each_map by (auto simp: ns_def)
qed

end

interpretation grp: linked_group "\<lambda>gn. wf_grp (fst gn)" "\<lambda>gn. length (srvs (fst gn))" "\<lambda>gn i. connected (fst gn) ! i"
  up grp_frame connect disconnect
proof
  fix gn :: "'svc gn" and i ts
  assume w: "wf_grp (fst gn)" and i: "i < length (srvs (fst gn))" and ts: "set ts \<subseteq> {..<length (srvs (fst gn))}"
  obtain sg rn where gn: "gn = (sg, rn)" by force
  have len: "length (connected sg) = length (srvs sg)" using w gn by (simp add: wf_grpD(1))
  from connect_ok [of sg i ts rn] w i ts len
  show "\<exists>g'. connect (int i) (map int ts) gn = Inr g' \<and> wf_grp (fst g') \<and> length (srvs (fst g')) = length (srvs (fst gn)) \<and>
      grp_frame g' = grp_frame gn \<and>
      (\<forall>a < length (srvs (fst gn)). connected (fst g') ! a = (a = i \<or> connected (fst gn) ! a)) \<and>
      (\<forall>a < length (srvs (fst gn)). \<forall>b < length (srvs (fst gn)). up g' a b =
        (up gn a b \<or> (a = i \<and> b \<in> set ts \<and> (b = i \<or> connected (fst gn) ! b)) \<or>
         (b = i \<and> a \<in> set ts \<and> (a = i \<or> connected (fst gn) ! a))))"
    by (auto simp: gn up_def nth_list_update)
  from disconnect_ok [of sg i ts rn] w i ts len
  show "\<exists>g'. disconnect (int i) (map int ts) gn = Inr g' \<and> wf_grp (fst g') \<and> length (srvs (fst g')) = length (srvs (fst gn)) \<and>
      grp_frame g' = grp_frame gn \<and>
      (\<forall>a < length (srvs (fst gn)). connected (fst g') ! a = (a \<noteq> i \<and> connected (fst gn) ! a)) \<and>
      (\<forall>a < length (srvs (fst gn)). \<forall>b < length (srvs (fst gn)). up g' a b =
        (up gn a b \<and> \<not> (a = i \<and> b \<in> set ts) \<and> \<not> (b = i \<and> a \<in> set ts)))"
    by (auto simp: gn up_def nth_list_update)
qed

lemma Partition_sides:
  assumes "wf_grp sg" and "set p \<subseteq> {..<length (srvs sg)}" and "set q \<subseteq> {..<length (srvs sg)}" and "set p \<inter> set q = {}"
  shows "\<exists>gn'. Partition (map int p) (map int q) (sg, rn) = Inr gn' \<and> wf_grp (fst gn') \<and> grp_frame gn' = grp_frame (sg, rn) \<and>
    (\<forall>a \<in> set p \<union> set q. connected (fst gn') ! a) \<and>
    (\<forall>a \<in> set p \<union> set q. \<forall>b \<in> set p \<union> set q. up gn' a b = (a \<in> set p \<longleftrightarrow> b \<in> set p))"
  using grp.two_sides [of "(sg, rn)" p q] assms by (simp add: Partition_def)


subsection \<open>The two sides of a partition\<close>

text \<open>The loop fills the two arrays, seen as one, with the servers other than the leader.\<close>

definition overwrite :: "nat \<Rightarrow> 'a list \<Rightarrow> 'a list \<Rightarrow> 'a list" where
  "overwrite j vs ws = take j ws @ vs @ drop (j + length vs) ws"

lemma overwrite_Cons: "j < length ws \<Longrightarrow> overwrite (Suc j) vs (ws[j := x]) = overwrite j (x # vs) ws"
  by (simp add: overwrite_def take_Suc_conv_app_nth)

lemma partition_loop_fills:
  assumes "j + length (filter (\<lambda>i. int i \<noteq> l) is) \<le> length p1 + length p2"
  shows "partition_loop l is p1 p2 j =
    (let ws = overwrite j (map int (filter (\<lambda>i. int i \<noteq> l) is)) (p1 @ p2)
     in Inr (take (length p1) ws, drop (length p1) ws))"
  using assms
proof (induction "is" arbitrary: p1 p2 j)
  case Nil
  have "overwrite j [] (p1 @ p2) = p1 @ p2" by (simp add: overwrite_def del: take_append drop_append)
  then show ?case by (simp add: Let_def)
next
  case (Cons i "is")
  show ?case
  proof (cases "int i \<noteq> l")
    case True
    then have j: "j < length (p1 @ p2)" using Cons.prems by simp
    note ow = overwrite_Cons [OF j, of "map int (filter (\<lambda>i. int i \<noteq> l) is)" "int i", symmetric]
    show ?thesis
    proof (cases "j < length p1")
      case True
      then have "(p1 @ p2)[j := int i] = p1[j := int i] @ p2" by (simp add: list_update_append1)
      then show ?thesis
        using Cons.IH [of "j + 1" "p1[j := int i]" p2] Cons.prems \<open>int i \<noteq> l\<close> True ow by simp
    next
      case False
      then have upd: "(p1 @ p2)[j := int i] = p1 @ p2[j - length p1 := int i]" by (simp add: list_update_append)
      have nat: "int j - int (length p1) = int (j - length p1)" using False by simp
      have "put p2 (int j - int (length p1)) (int i) = Inr (p2[j - length p1 := int i])"
        unfolding nat put_int using j False by simp
      then show ?thesis
        using Cons.IH [of "j + 1" p1 "p2[j - length p1 := int i]"] Cons.prems \<open>int i \<noteq> l\<close> False ow upd by simp
    qed
  qed (use Cons in simp)
qed

text \<open>All servers but one, in order.\<close>

definition others :: "nat \<Rightarrow> nat \<Rightarrow> nat list" where
  "others n l = filter (\<lambda>i. i \<noteq> l) [0..<n]"

lemma others_props:
  assumes "l < n"
  shows "length (others n l) = n - 1" "set (others n l) = {..<n} - {l}" "distinct (others n l)"
proof -
  show "set (others n l) = {..<n} - {l}" "distinct (others n l)" by (auto simp: others_def)
  then show "length (others n l) = n - 1" using assms distinct_card [of "others n l"] by simp
qed

lemma MakePartition_eq:
  assumes l: "l < length (srvs sg)" and n: "2 \<le> length (srvs sg)"
  defines "n \<equiv> length (srvs sg)"
  defines "vs \<equiv> others n l @ replicate (2 * (n div 2) + 2 - n) 0"
  shows "MakePartition sg (int l) = Inr (map int (take (n div 2 + 1) vs),
    map int ((drop (n div 2 + 1) vs)[n div 2 - 1 := l]))"
proof -
  have len: "length (others n l) = n - 1" using l by (simp add: others_props n_def)
  have par: "n = 2 * (n div 2) \<or> n = 2 * (n div 2) + 1" by linarith
  have vl: "length vs = 2 * (n div 2) + 1" using len par n by (auto simp: vs_def n_def)
  have zeros: "replicate (n div 2 + 1) 0 @ replicate (n div 2) 0 = replicate (2 * (n div 2) + 1) (0::int)"
    by (simp flip: replicate_add add: mult_2)
  have fill: "overwrite 0 (map int (others n l)) (replicate (n div 2 + 1) 0 @ replicate (n div 2) 0) = map int vs"
    unfolding zeros overwrite_def vs_def using len par n
    by (simp add: n_def Suc_diff_Suc del: replicate.simps)
  have "filter (\<lambda>i. int i \<noteq> int l) [0..<n] = others n l" by (simp add: others_def)
  then have "partition_loop (int l) [0..<n] (replicate (n div 2 + 1) 0) (replicate (n div 2) 0) 0 =
      Inr (take (n div 2 + 1) (map int vs), drop (n div 2 + 1) (map int vs))"
    using partition_loop_fills [of 0 "int l" "[0..<n]" "replicate (n div 2 + 1) 0" "replicate (n div 2) 0"]
      len par fill by (simp add: Let_def)
  moreover have half: "length (drop (n div 2 + 1) vs) = n div 2" using vl by simp
  have "put xs (int (n div 2) - 1) x = Inr (xs[n div 2 - 1 := x])" if "length xs = n div 2" for xs :: "int list" and x
  proof -
    have i: "int (n div 2) - 1 = int (n div 2 - 1)" using n by (simp add: n_def of_nat_diff)
    show ?thesis unfolding i put_int using that n by (simp add: n_def)
  qed
  ultimately show ?thesis using half n
    by (simp add: MakePartition_def Let_def drop_map take_map map_update flip: n_def)
qed


text \<open>With an odd number of servers both arrays are filled exactly.\<close>

lemma MakePartition_odd:
  assumes "odd (length (srvs sg))" and "3 \<le> length (srvs sg)" and l: "l < length (srvs sg)"
  obtains p q where "MakePartition sg (int l) = Inr (map int p, map int q)" "set p \<inter> set q = {}"
    "set p \<union> set q = {..<length (srvs sg)}" "l \<in> set q" "length p = length (srvs sg) div 2 + 1" "distinct p"
proof -
  define n where "n = length (srvs sg)"
  define k where "k = n div 2"
  define p q where "p = take (k + 1) (others n l)" and "q = drop (k + 1) (others n l) @ [l]"
  have n: "n = 2 * k + 1" "1 \<le> k" using assms(1,2) by (auto simp: n_def k_def elim: oddE)
  have len: "length (others n l) = 2 * k" and os: "set (others n l) = {..<n} - {l}" "distinct (others n l)"
    using l others_props [of l n] n by (simp_all add: n_def)
  have "take (k + 1) (others n l @ [0]) = p" using len n by (simp add: p_def)
  moreover have "(drop (k + 1) (others n l @ [0]))[k - 1 := l] = q"
    using len n by (simp add: q_def list_update_append)
  moreover have "2 * k + 2 - n = 1" using n by simp
  ultimately have mk: "MakePartition sg (int l) = Inr (map int p, map int q)"
    using MakePartition_eq [of l sg] l n by (simp flip: n_def k_def)
  have split: "others n l = p @ drop (k + 1) (others n l)" by (simp add: p_def)
  then have "set (others n l) = set p \<union> set (drop (k + 1) (others n l))" by (metis set_append)
  moreover have "distinct (p @ drop (k + 1) (others n l))" using os(2) split by metis
  moreover have "length p = k + 1" using len n by (simp add: p_def)
  ultimately show thesis using os(1) mk l
    by (intro that [of p q]) (auto simp: q_def n_def k_def)
qed

lemma wf_grp_frame: "grp_frame gn' = grp_frame gn \<Longrightarrow> srvs (fst gn') = srvs (fst gn)"
  by (auto simp: grp_frame_def split: prod.splits)

subsection \<open>Properties\<close>

text \<open>C15. A network partition: splitting the servers into two disjoint sides, from any state of
  the links and whichever servers were cut off before, leaves two servers linked exactly if they
  are on the same side; links, connections and switches outside the group are unchanged.\<close>

theorem Partition_separates:
  assumes "wf_grp sg" and "set p \<union> set q = {..<length (srvs sg)}" and "set p \<inter> set q = {}"
  shows "\<exists>gn'. Partition (map int p) (map int q) (sg, rn) = Inr gn' \<and> grp_frame gn' = grp_frame (sg, rn) \<and>
    (\<forall>a < length (srvs sg). \<forall>b < length (srvs sg). connected (fst gn') ! a \<and> up gn' a b = (a \<in> set p \<longleftrightarrow> b \<in> set p))"
proof -
  have "set p \<subseteq> {..<length (srvs sg)}" "set q \<subseteq> {..<length (srvs sg)}" using assms(2) by auto
  from Partition_sides [OF assms(1) this assms(3), of rn] show ?thesis
    unfolding assms(2) by (auto simp: lessThan_def)
qed

definition demo_grp :: "nat ServerGrp" where
  "demo_grp = \<lparr>srvs = map (\<lambda>i. \<lparr>saved = None, svcs = [], endNames = map (\<lambda>j. Itoa (3 * i + j)) [0, 1, 2]\<rparr>) [0, 1, 2],
     servernames = map (ServerName 0) [0, 1, 2], gid = 0, connected = [True, False, True]\<rparr>"

lemma demo_grp_link: "i < 3 \<Longrightarrow> j < 3 \<Longrightarrow> link demo_grp i j = Itoa (3 * int i + int j)"
  by (auto simp: demo_grp_def link_def less_Suc_eq numeral_3_eq_3)

lemma demo_grp_wf: "wf_grp demo_grp" "length (srvs demo_grp) = 3"
proof -
  show len: "length (srvs demo_grp) = 3" by (simp add: demo_grp_def)
  have "i = i' \<and> j = j'"
    if "i < 3" "j < 3" "i' < 3" "j' < 3" "link demo_grp i j = link demo_grp i' j'" for i j i' j'
  proof -
    have e: "3 * int i + int j = 3 * int i' + int j'" using that by (simp add: demo_grp_link)
    with that(2,4) have "i = i'" by linarith
    with e show ?thesis by simp
  qed
  then show "wf_grp demo_grp" unfolding wf_grp_def len by (auto simp: demo_grp_def)
qed

theorem Partition_separates_witness:
  "\<exists>gn'. Partition [0, 2] [1] (demo_grp, MakeNetwork) = Inr gn' \<and> up gn' 0 2 \<and> \<not> up gn' 0 1"
proof -
  have "set [0, 2] \<union> set [1] = {..<length (srvs demo_grp)}" by (auto simp: demo_grp_wf)
  from Partition_separates [OF demo_grp_wf(1) this, of MakeNetwork] show ?thesis
    by (auto simp: demo_grp_wf(2))
qed

text \<open>C32. \<open>MakePartition\<close> followed by \<open>Partition\<close> puts the leader of a group with an odd number of
  servers (three or more) in the minority: a strict majority is left on the other side, and the
  leader has a link to none of it in either direction.\<close>

theorem MakePartition_isolates_leader:
  assumes "wf_grp sg" and "odd (length (srvs sg))" and "3 \<le> length (srvs sg)" and "l < length (srvs sg)"
  shows "\<exists>p q gn'. MakePartition sg (int l) = Inr (map int p, map int q) \<and> Partition (map int p) (map int q) (sg, rn) = Inr gn' \<and>
    2 * card (set p) > length (srvs sg) \<and> (\<forall>a \<in> set p. \<not> up gn' l a \<and> \<not> up gn' a l) \<and>
    (\<forall>a \<in> set p. \<forall>b \<in> set p. up gn' a b)"
proof -
  from MakePartition_odd [OF assms(2-4)] obtain p q where mk: "MakePartition sg (int l) = Inr (map int p, map int q)"
    and d: "set p \<inter> set q = {}" and u: "set p \<union> set q = {..<length (srvs sg)}" and l: "l \<in> set q"
    and len: "length p = length (srvs sg) div 2 + 1" "distinct p" by blast
  have "2 * card (set p) > length (srvs sg)" using len by (simp add: distinct_card)
  have sub: "set p \<subseteq> {..<length (srvs sg)}" "set q \<subseteq> {..<length (srvs sg)}" using u by auto
  from Partition_sides [OF assms(1) sub d, of rn] obtain gn' where
    g: "Partition (map int p) (map int q) (sg, rn) = Inr gn'"
       "\<forall>a \<in> set p \<union> set q. \<forall>b \<in> set p \<union> set q. up gn' a b = (a \<in> set p \<longleftrightarrow> b \<in> set p)" by blast
  have "l \<notin> set p" using l d by auto
  with g l mk \<open>2 * card (set p) > length (srvs sg)\<close> show ?thesis by blast
qed

theorem MakePartition_isolates_leader_witness:
  "\<exists>p q gn'. MakePartition demo_grp 1 = Inr (p, q) \<and> Partition p q (demo_grp, MakeNetwork) = Inr gn'"
  using MakePartition_isolates_leader [of demo_grp 1 MakeNetwork] demo_grp_wf by (auto simp: odd_numeral)

text \<open>With an even number of servers, four or more, the second array has a slot that the loop
  does not fill and that keeps its initial zero: server 0 is then on both sides unless it is the
  leader. A group of one server makes \<open>MakePartition\<close> index out of range.\<close>

theorem MakePartition_even_overlaps:
  "(length (srvs sg) = 2 * k + 4 \<and> 0 < l \<and> l < length (srvs sg) \<longrightarrow>
      (\<exists>p q. MakePartition sg (int l) = Inr (map int p, map int q) \<and> 0 \<in> set p \<and> 0 \<in> set q)) \<and>
   (length (srvs sg) = 1 \<and> l = 0 \<longrightarrow> MakePartition sg (int l) = Inl IndexRange)"
proof (intro conjI impI)
  assume a: "length (srvs sg) = 2 * k + 4 \<and> 0 < l \<and> l < length (srvs sg)"
  define n where "n = length (srvs sg)"
  have n: "n = 2 * k + 4" "n div 2 = k + 2" "l < n" using a by (simp_all add: n_def)
  define vs where "vs = others n l @ [0, 0]"
  have len: "length (others n l) = 2 * k + 3" using n others_props(1) [of l n] by simp
  have "2 * (n div 2) + 2 - n = 2" unfolding n(2) unfolding n(1) by simp
  moreover have "replicate 2 (0::nat) = [0, 0]" by (simp add: numeral_2_eq_2)
  ultimately have mk: "MakePartition sg (int l) = Inr (map int (take (k + 3) vs), map int ((drop (k + 3) vs)[k + 1 := l]))"
    using MakePartition_eq [of l sg] a unfolding n_def [symmetric] n(2) by (simp add: vs_def eval_nat_numeral)
  have "others n l ! 0 = 0" using a n
    by (simp add: others_def upt_conv_Cons)
  then have "take (k + 3) vs ! 0 = 0" using len by (simp add: vs_def nth_append)
  moreover have "0 < length (take (k + 3) vs)" using len by (simp add: vs_def)
  ultimately have p: "0 \<in> set (take (k + 3) vs)" by (metis nth_mem)
  have "(drop (k + 3) vs)[k + 1 := l] ! k = 0" "k < length ((drop (k + 3) vs)[k + 1 := l])"
    using len by (simp_all add: vs_def nth_append)
  then have "0 \<in> set ((drop (k + 3) vs)[k + 1 := l])" by (metis nth_mem)
  with p mk show "\<exists>p q. MakePartition sg (int l) = Inr (map int p, map int q) \<and> 0 \<in> set p \<and> 0 \<in> set q" by blast
next
  assume "length (srvs sg) = 1 \<and> l = 0"
  then show "MakePartition sg (int l) = Inl IndexRange"
    by (simp add: MakePartition_def grp_defs)
qed

theorem MakePartition_even_overlaps_witness:
  "\<exists>p q. MakePartition (demo_grp\<lparr>srvs := concat (replicate 2 (take 2 (srvs demo_grp)))\<rparr>) 2 = Inr (map int p, map int q) \<and>
     0 \<in> set p \<and> 0 \<in> set q"
  using MakePartition_even_overlaps [of "demo_grp\<lparr>srvs := concat (replicate 2 (take 2 (srvs demo_grp)))\<rparr>" 0 2]
  by (simp add: demo_grp_def numeral_2_eq_2)


subsection \<open>Crash and restart\<close>

lemma andthen_Inr: "andthen r f = Inr y \<longleftrightarrow> (\<exists>x. r = Inr x \<and> f x = Inr y)"
  by (cases r) (auto simp: andthen_def)

lemma at_Inr: "at xs i = Inr x \<longleftrightarrow> in_range xs i \<and> x = xs ! nat i"
  by (auto simp: at_def)

lemma disconnect_srvs:
  "disconnect i fs (sg, rn) = Inr (sg', rn') \<Longrightarrow> srvs sg' = srvs sg \<and> gid sg' = gid sg"
  by (auto simp: disconnect_def andthen_Inr Let_def)

lemma ShutdownServer_saved:
  assumes "ShutdownServer (int i) (sg, v) = Inr (sg1, v1)" and "saved (srvs sg ! i) = Some p"
  shows "i < length (srvs sg)" "length (srvs sg1) = length (srvs sg)" "gid sg1 = gid sg" "labs v1 = labs v"
    "saved (srvs sg1 ! i) = Some (fst (Persister_Copy p (store v)))" "store v1 = snd (Persister_Copy p (store v))"
    "server_at (net v1) (ServerName (gid sg) (int i)) = None"
    "endNames (srvs sg1 ! i) = endNames (srvs sg ! i)"
    "killed v1 = killed v @ kill_all (svcs (srvs sg ! i))"
proof -
  from assms(1) obtain sg' rn where d: "disconnect (int i) (all sg) (sg, net v) = Inr (sg', rn)"
    and i: "i < length (srvs sg')"
    and r: "sg1 = sg'\<lparr>srvs := (srvs sg')[i := fst (shutdownServer (srvs sg' ! i)
          (v\<lparr>net := DeleteServer (ServerName (gid sg') (int i)) rn\<rparr>))]\<rparr>"
        "v1 = snd (shutdownServer (srvs sg' ! i) (v\<lparr>net := DeleteServer (ServerName (gid sg') (int i)) rn\<rparr>))"
    by (auto simp: ShutdownServer_def on_net_def andthen_Inr at_Inr in_range_def Let_def case_prod_beta simp del: at_int)
  note same = disconnect_srvs [OF d]
  obtain np st where cp: "Persister_Copy p (store v) = (np, st)" by force
  have sh: "shutdownServer (srvs sg ! i) (v\<lparr>net := n\<rparr>) = ((srvs sg ! i)\<lparr>saved := Some np, svcs := []\<rparr>,
      v\<lparr>net := n, store := st, killed := killed v @ kill_all (svcs (srvs sg ! i))\<rparr>)" for n
    using assms(2) cp by (simp add: shutdownServer_def)
  from r same i cp
  show "i < length (srvs sg)" "length (srvs sg1) = length (srvs sg)" "gid sg1 = gid sg" "labs v1 = labs v"
    "saved (srvs sg1 ! i) = Some (fst (Persister_Copy p (store v)))" "store v1 = snd (Persister_Copy p (store v))"
    "server_at (net v1) (ServerName (gid sg) (int i)) = None"
    "endNames (srvs sg1 ! i) = endNames (srvs sg ! i)"
    "killed v1 = killed v @ kill_all (svcs (srvs sg ! i))"
    by (auto simp: sh DeleteServer_def server_at_def)
qed

lemma StartServer_saved:
  assumes "StartServer mks svcOf rnd (int i) (sg, v) = Inr (sg1, v1)" and "saved (srvs sg ! i) = Some p"
  shows "i < length (srvs sg)" "store v1 = snd (Persister_Copy p (store v))"
    "saved (srvs sg1 ! i) = Some (fst (Persister_Copy p (store v)))"
    "svcs (srvs sg1 ! i) = mks (map rnd [0..<length (endNames (srvs sg ! i))]) (gid sg) (int i) (fst (Persister_Copy p (store v)))"
    "server_at (net v1) (ServerName (gid sg) (int i)) = Some (length (labs v))" "killed v1 = killed v"
    "labs v1 = labs v @ [foldl AddService MakeServer (map svcOf (svcs (srvs sg1 ! i)))]"
proof -
  obtain np st where cp: "Persister_Copy p (store v) = (np, st)" by force
  let ?names = "map rnd [0..<length (endNames (srvs sg ! i))]"
  let ?ss = "mks ?names (gid sg) (int i) np"
  from assms cp obtain rn where i: "i < length (srvs sg)"
    and r: "sg1 = sg\<lparr>srvs := (srvs sg)[i := \<lparr>saved = Some np, svcs = ?ss, endNames = ?names\<rparr>]\<rparr>"
      "v1 = v\<lparr>store := st, labs := labs v @ [foldl AddService MakeServer (map svcOf ?ss)],
         net := AddServer (ServerName (gid sg) (int i)) (length (labs v)) rn\<rparr>"
    by (auto simp: StartServer_def startServer_def makeServer_def andthen_Inr at_Inr in_range_def Let_def
        case_prod_beta simp del: at_int)
  with cp show "i < length (srvs sg)" "store v1 = snd (Persister_Copy p (store v))"
    "saved (srvs sg1 ! i) = Some (fst (Persister_Copy p (store v)))"
    "svcs (srvs sg1 ! i) = mks ?names (gid sg) (int i) (fst (Persister_Copy p (store v)))"
    "server_at (net v1) (ServerName (gid sg) (int i)) = Some (length (labs v))" "killed v1 = killed v"
    "labs v1 = labs v @ [foldl AddService MakeServer (map svcOf (svcs (srvs sg1 ! i)))]"
    by (auto simp: AddServer_def server_at_def)
qed

text \<open>C13. Crash and restart of a server: the services are told to stop and clients cannot reach the
  old instance any more; whatever the old instance still does with its persister afterwards, the
  new instance starts from a persister of its own that holds exactly what was persisted at the
  moment of the crash, and only the new instance is registered.\<close>

theorem crash_restart_keeps_state:
  assumes "pstore_inv (store v)" and "saved (srvs sg ! i) = Some p" and "valid_ptr (store v) p"
    and "ShutdownServer (int i) (sg, v) = Inr (sg1, v1)"
    and "service_run p (store v1) st"
    and "StartServer mks svcOf rnd (int i) (sg1, v1\<lparr>store := st\<rparr>) = Inr (sg2, v2)"
  shows "server_at (net v1) (ServerName (gid sg) (int i)) = None \<and>
    killed v2 = killed v @ kill_all (svcs (srvs sg ! i)) \<and>
    server_at (net v2) (ServerName (gid sg) (int i)) = Some (length (labs v)) \<and>
    (\<exists>np. saved (srvs sg2 ! i) = Some np \<and> np \<noteq> p \<and> disk_of (store v2) ! np = disk_of (store v) ! p \<and>
      svcs (srvs sg2 ! i) = mks (map rnd [0..<length (endNames (srvs sg ! i))]) (gid sg) (int i) np)"
proof -
  note down = ShutdownServer_saved [OF assms(4,2)]
  note up = StartServer_saved [OF assms(6) down(5)]
  define q where "q = fst (Persister_Copy p (store v))"
  have d1: "Persister_Copy p (store v) = (q, store v1)" using down(6) by (simp add: q_def)
  have d2: "Persister_Copy q st = (fst (Persister_Copy q st), store v2)" using up(2) by (simp add: q_def)
  have "p < length (disk_of (store v))" using assms(3) by simp
  from disk.restart [OF assms(1) this d1 assms(5) d2]
  have "disk_of (store v2) ! fst (Persister_Copy q st) = disk_of (store v) ! p" "p \<noteq> fst (Persister_Copy q st)"
    by blast+
  with up down show ?thesis by (auto simp: q_def)
qed

definition demo_srv :: "nat Srv" where
  "demo_srv = \<lparr>saved = Some 0, svcs = [Some 5], endNames = [''a'']\<rparr>"

definition demo_env :: "(nat, nat) env" where
  "demo_env = \<lparr>net = MakeNetwork, store = Save 0 (Slice 0 0 2) NilSlice (service_alloc [1, 2] (snd (MakePersister init_pstore))),
     labs = [], killed = []\<rparr>"

definition demo_one :: "nat ServerGrp" where
  "demo_one = \<lparr>srvs = [demo_srv], servernames = [''server-0-0''], gid = 0, connected = [True]\<rparr>"

lemma demo_env_store: "pstore_inv (store demo_env)" "disk_of (store demo_env) = [([1, 2], [])]"
  "length (persisters (store demo_env)) = 1"
proof -
  from store_run_refines [OF demo_store]
  show "pstore_inv (store demo_env)" and d: "disk_of (store demo_env) = [([1, 2], [])]" by (simp_all add: demo_env_def)
  from arg_cong [OF d, of length] show "length (persisters (store demo_env)) = 1" by simp
qed

theorem crash_restart_keeps_state_witness:
  "\<exists>sg1 v1 sg2 v2 np. ShutdownServer 0 (demo_one, demo_env) = Inr (sg1, v1) \<and>
     StartServer (\<lambda>es g i p. [Some p]) (\<lambda>s. MakeService ''KV'' []) (\<lambda>j. ''b'') 0 (sg1, v1) = Inr (sg2, v2) \<and>
     saved (srvs sg2 ! 0) = Some np \<and> disk_of (store v2) ! np = ([1, 2], [])"
proof -
  have "\<exists>sg1 v1. ShutdownServer 0 (demo_one, demo_env) = Inr (sg1, v1)"
    by (simp add: ShutdownServer_def on_net_def disconnect_def demo_one_def demo_srv_def all_def grp_defs
        Srv_disconnect_def disconnect_in_def Let_def shutdownServer_def split: prod.split)
  then obtain sg1 v1 where d: "ShutdownServer (int 0) (demo_one, demo_env) = Inr (sg1, v1)" by auto
  have s0: "saved (srvs demo_one ! 0) = Some 0" by (simp add: demo_one_def demo_srv_def)
  note down = ShutdownServer_saved [OF d s0]
  have ne: "srvs sg1 \<noteq> []" using down(2) by (auto simp: demo_one_def)
  have "net v1 = DeleteServer (ServerName 0 0) (Enable ''a'' False (Enable ''a'' False MakeNetwork))"
    using d by (auto simp: ShutdownServer_def on_net_def disconnect_def demo_one_def demo_srv_def all_def grp_defs
        Srv_disconnect_def disconnect_in_def Let_def shutdownServer_def demo_env_def split: prod.splits)
  then have "\<exists>sg2 v2. StartServer (\<lambda>es g i p. [Some p]) (\<lambda>s. MakeService ''KV'' []) (\<lambda>j. ''b'') (int 0) (sg1, v1) = Inr (sg2, v2)"
    using down ne by (simp add: StartServer_def startServer_def makeServer_def demo_one_def demo_srv_def grp_defs Let_def
        MakeEnd_def DeleteServer_def Enable_def MakeNetwork_def split: prod.split)
  then obtain sg2 v2 where u: "StartServer (\<lambda>es g i p. [Some p]) (\<lambda>s. MakeService ''KV'' []) (\<lambda>j. ''b'') (int 0) (sg1, v1) = Inr (sg2, v2)"
    by blast
  have v: "valid_ptr (store demo_env) 0" by (simp add: demo_env_store)
  have u': "StartServer (\<lambda>es g i p. [Some p]) (\<lambda>s. MakeService ''KV'' []) (\<lambda>j. ''b'') (int 0) (sg1, v1\<lparr>store := store v1\<rparr>) = Inr (sg2, v2)"
    using u by simp
  from crash_restart_keeps_state [OF demo_env_store(1) s0 v d service_run.idle u'] d u show ?thesis
    by (auto simp: demo_env_store)
qed


subsection \<open>Starting a group\<close>

text \<open>Distinct unused names: then every end is created and connected to the server it is for.\<close>

lemma make_ends_ok:
  assumes "distinct (map snd js)" and "\<forall>e \<in> snd ` set js. \<not> end_exists rn e"
  shows "\<exists>rn'. make_ends js g rn = Inr rn' \<and> (\<forall>e. end_exists rn' e = (end_exists rn e \<or> e \<in> snd ` set js)) \<and>
    (\<forall>(j, e) \<in> set js. connection rn' e = Some (ServerName g j)) \<and>
    (\<forall>e. e \<notin> snd ` set js \<longrightarrow> connection rn' e = connection rn e) \<and> server_at rn' = server_at rn"
  using assms
proof (induction js arbitrary: rn)
  case (Cons p js)
  obtain j e where p: "p = (j, e)" by force
  have new: "\<not> end_exists rn e" using Cons.prems(2) p by simp
  from lablife.make_ok [OF this] obtain rn1 where m: "MakeEnd e rn = Inr rn1"
    and r1: "connection rn1 = (connection rn)(e := None)" "end_exists rn1 = (end_exists rn)(e := True)"
      "server_at rn1 = server_at rn" by blast
  let ?rn2 = "Connect e (ServerName g j) rn1"
  have r2: "connection ?rn2 = (connection rn)(e := Some (ServerName g j))" "end_exists ?rn2 = (end_exists rn)(e := True)"
    "server_at ?rn2 = server_at rn" using r1 by (auto simp: lablife.connect_laws)
  have "\<forall>e \<in> snd ` set js. \<not> end_exists ?rn2 e" using Cons.prems p r2(2) by auto
  with Cons.IH [of ?rn2] Cons.prems(1) obtain rn' where
    rn': "make_ends js g ?rn2 = Inr rn'" "\<forall>e. end_exists rn' e = (end_exists ?rn2 e \<or> e \<in> snd ` set js)"
      "\<forall>(j, e) \<in> set js. connection rn' e = Some (ServerName g j)"
      "\<forall>e. e \<notin> snd ` set js \<longrightarrow> connection rn' e = connection ?rn2 e" "server_at rn' = server_at ?rn2" by auto
  have "e \<notin> snd ` set js" using Cons.prems(1) p by auto
  then show ?case using rn' r2 m p by (intro exI [of _ rn']) auto
qed simp

lemma makeServer_ok:
  assumes "inj_on rnd {..<n}" and "\<forall>j < n. \<not> end_exists rn (rnd j)"
  shows "\<exists>rn'. makeServer rnd g n rn = Inr (\<lparr>saved = None, svcs = [], endNames = map rnd [0..<n]\<rparr>, rn') \<and>
    (\<forall>e. end_exists rn' e = (end_exists rn e \<or> e \<in> rnd ` {..<n})) \<and>
    (\<forall>j < n. connection rn' (rnd j) = Some (ServerName g (int j))) \<and>
    (\<forall>e. e \<notin> rnd ` {..<n} \<longrightarrow> connection rn' e = connection rn e) \<and> server_at rn' = server_at rn"
proof -
  let ?js = "zip (map int [0..<n]) (map rnd [0..<n])"
  have snd: "map snd ?js = map rnd [0..<n]" by simp
  have names: "snd ` set ?js = rnd ` {..<n}"
    unfolding set_map [symmetric] snd by (simp add: lessThan_atLeast0)
  have "distinct (map snd ?js)" unfolding snd using assms(1) by (simp add: distinct_map lessThan_atLeast0)
  moreover have "\<forall>e \<in> snd ` set ?js. \<not> end_exists rn e" unfolding names using assms(2) by auto
  ultimately obtain rn' where rn': "make_ends ?js g rn = Inr rn'"
    "\<forall>e. end_exists rn' e = (end_exists rn e \<or> e \<in> rnd ` {..<n})"
    "\<forall>(j, e) \<in> set ?js. connection rn' e = Some (ServerName g j)"
    "\<forall>e. e \<notin> rnd ` {..<n} \<longrightarrow> connection rn' e = connection rn e" "server_at rn' = server_at rn"
    using make_ends_ok [of ?js rn g] unfolding names by blast
  have "(int j, rnd j) \<in> set ?js" if "j < n" for j using that by (auto simp: set_zip intro!: exI [of _ j])
  with rn' show ?thesis by (auto simp: makeServer_def Let_def)
qed

text \<open>The ends of a group exist and lead where they should.\<close>

definition wired :: "'svc ServerGrp \<Rightarrow> Network \<Rightarrow> bool" where
  "wired sg rn \<longleftrightarrow> wf_grp sg \<and> (\<forall>i < length (srvs sg). \<forall>j < length (srvs sg).
     end_exists rn (link sg i j) \<and> connection rn (link sg i j) = Some (ServerName (gid sg) (int j)))"

text \<open>Replacing the ends of one server by fresh ones keeps a group wired.\<close>

lemma wired_replace:
  assumes w: "wired sg rn" and i: "i < length (srvs sg)" and inj: "inj_on rnd {..<length (srvs sg)}"
    and fresh: "\<forall>j < length (srvs sg). \<not> end_exists rn (rnd j)"
    and s: "endNames s = map rnd [0..<length (srvs sg)]"
    and ex: "\<forall>e. end_exists rn' e = (end_exists rn e \<or> e \<in> rnd ` {..<length (srvs sg)})"
    and new: "\<forall>j < length (srvs sg). connection rn' (rnd j) = Some (ServerName (gid sg) (int j))"
    and old: "\<forall>e. e \<notin> rnd ` {..<length (srvs sg)} \<longrightarrow> connection rn' e = connection rn e"
  shows "wired (sg\<lparr>srvs := (srvs sg)[i := s]\<rparr>) rn'"
proof -
  let ?n = "length (srvs sg)"
  let ?sg = "sg\<lparr>srvs := (srvs sg)[i := s]\<rparr>"
  have lk: "link ?sg a b = (if a = i then rnd b else link sg a b)" if "a < ?n" "b < ?n" for a b
    using that s by (simp add: link_def)
  have not: "link sg a b \<noteq> rnd c" if "a < ?n" "b < ?n" "c < ?n" for a b c
    using w fresh that unfolding wired_def by metis
  have wf: "wf_grp sg" using w by (simp add: wired_def)
  have "a = a' \<and> b = b'" if "a < ?n" "b < ?n" "a' < ?n" "b' < ?n" "link ?sg a b = link ?sg a' b'" for a b a' b'
    using that lk not [of a b b'] not [of a' b' b] inj_onD [OF inj, of b b'] wf_grpD(3) [OF wf, of a b a' b']
    by (auto split: if_splits)
  moreover have "length (endNames x) = ?n" if "x \<in> set ((srvs sg)[i := s])" for x
    using that s wf set_update_subset_insert [of "srvs sg" i s] by (auto simp: wf_grp_def)
  ultimately have "wf_grp ?sg" using wf unfolding wf_grp_def by simp
  moreover have "end_exists rn' (link ?sg a b) \<and> connection rn' (link ?sg a b) = Some (ServerName (gid sg) (int b))"
    if "a < ?n" "b < ?n" for a b
  proof (cases "a = i")
    case True
    then show ?thesis using lk [OF that] that ex new by auto
  next
    case False
    then have "link sg a b \<notin> rnd ` {..<?n}" using not that by auto
    with False show ?thesis using lk [OF that] that ex old w by (auto simp: wired_def)
  qed
  ultimately show ?thesis by (simp add: wired_def)
qed


definition fresh_names :: "(nat \<Rightarrow> nat \<Rightarrow> ename) \<Rightarrow> nat \<Rightarrow> Network \<Rightarrow> bool" where
  "fresh_names rnd n rn \<longleftrightarrow> (\<forall>i < n. \<forall>j < n. \<not> end_exists rn (rnd i j)) \<and>
     (\<forall>i < n. \<forall>j < n. \<forall>i' < n. \<forall>j' < n. rnd i j = rnd i' j' \<longrightarrow> i = i' \<and> j = j')"

definition servers_made :: "nat list \<Rightarrow> (nat \<Rightarrow> nat \<Rightarrow> ename) \<Rightarrow> Tgid \<Rightarrow> nat \<Rightarrow> Network \<Rightarrow> Network \<Rightarrow> bool" where
  "servers_made is rnd g n rn rn' \<longleftrightarrow>
    (\<forall>e. end_exists rn' e = (end_exists rn e \<or> (\<exists>i \<in> set is. e \<in> rnd i ` {..<n}))) \<and>
    (\<forall>i \<in> set is. \<forall>j < n. connection rn' (rnd i j) = Some (ServerName g (int j))) \<and>
    (\<forall>e. (\<forall>i \<in> set is. e \<notin> rnd i ` {..<n}) \<longrightarrow> connection rn' e = connection rn e)"

abbreviation new_servers :: "nat list \<Rightarrow> (nat \<Rightarrow> nat \<Rightarrow> ename) \<Rightarrow> nat \<Rightarrow> 'svc Srv list" where
  "new_servers is rnd n \<equiv> map (\<lambda>i. \<lparr>saved = None, svcs = [], endNames = map (rnd i) [0..<n]\<rparr>) is"

lemma make_servers_ok:
  assumes "fresh_names rnd n rn0" and "set is \<subseteq> {..<n}" and "distinct is"
    and "\<forall>e. end_exists rn e \<longrightarrow> end_exists rn0 e \<or> (\<exists>i < n. i \<notin> set is \<and> e \<in> rnd i ` {..<n})"
  shows "\<exists>rn'. make_servers is rnd g n rn = Inr (new_servers is rnd n :: 'svc Srv list, rn') \<and> servers_made is rnd g n rn rn'"
  using assms(2-4)
proof (induction "is" arbitrary: rn)
  case (Cons i "is")
  have i: "i < n" "i \<notin> set is" using Cons.prems by auto
  have inj: "rnd a b = rnd a' b' \<longleftrightarrow> a = a' \<and> b = b'" if "a < n" "b < n" "a' < n" "b' < n" for a b a' b'
    using assms(1) that by (auto simp: fresh_names_def)
  have "inj_on (rnd i) {..<n}" using inj i by (auto simp: inj_on_def)
  moreover have "\<forall>j < n. \<not> end_exists rn (rnd i j)"
  proof (intro allI impI notI)
    fix j assume j: "j < n" and "end_exists rn (rnd i j)"
    with Cons.prems(3) have "end_exists rn0 (rnd i j) \<or> (\<exists>i' < n. i' \<notin> set (i # is) \<and> rnd i j \<in> rnd i' ` {..<n})" by simp
    then show False using assms(1) inj i j by (auto simp: fresh_names_def)
  qed
  ultimately obtain rn1 where m: "makeServer (rnd i) g n rn = Inr (\<lparr>saved = None, svcs = [], endNames = map (rnd i) [0..<n]\<rparr> :: 'svc Srv, rn1)"
    and r1: "\<forall>e. end_exists rn1 e = (end_exists rn e \<or> e \<in> rnd i ` {..<n})"
      "\<forall>j < n. connection rn1 (rnd i j) = Some (ServerName g (int j))"
      "\<forall>e. e \<notin> rnd i ` {..<n} \<longrightarrow> connection rn1 e = connection rn e" "server_at rn1 = server_at rn"
    using makeServer_ok [of "rnd i" n rn g] by blast
  have "\<forall>e. end_exists rn1 e \<longrightarrow> end_exists rn0 e \<or> (\<exists>a < n. a \<notin> set is \<and> e \<in> rnd a ` {..<n})"
    using r1(1) Cons.prems(3) i by (metis list.set_intros(2) set_ConsD)
  from Cons.IH [OF _ _ this] Cons.prems(1,2) obtain rn' where
    rn': "make_servers is rnd g n rn1 = Inr (new_servers is rnd n :: 'svc Srv list, rn')" "servers_made is rnd g n rn1 rn'" by auto
  note made = rn'(2) [unfolded servers_made_def]
  have apart: "\<forall>j < n. \<forall>a \<in> set is. rnd i j \<notin> rnd a ` {..<n}" using inj i Cons.prems(1) by auto
  have "servers_made (i # is) rnd g n rn rn'" unfolding servers_made_def
  proof (intro conjI)
    show "\<forall>e. end_exists rn' e = (end_exists rn e \<or> (\<exists>a \<in> set (i # is). e \<in> rnd a ` {..<n}))"
      using made r1(1) by auto
    show "\<forall>a \<in> set (i # is). \<forall>j < n. connection rn' (rnd a j) = Some (ServerName g (int j))"
      using made r1(2) apart by simp
    show "\<forall>e. (\<forall>a \<in> set (i # is). e \<notin> rnd a ` {..<n}) \<longrightarrow> connection rn' e = connection rn e"
      using made r1(3) by simp
  qed
  with m rn'(1) show ?case by simp
qed (simp add: servers_made_def)

lemma makeSrvGrp_wired:
  assumes "fresh_names rnd n rn"
  shows "\<exists>(sg :: 'svc ServerGrp) rn'. makeSrvGrp rnd g n rn = Inr (sg, rn') \<and> wired sg rn' \<and> length (srvs sg) = n \<and> gid sg = g \<and>
    (\<forall>e. end_exists rn' e = (end_exists rn e \<or> (\<exists>i < n. e \<in> rnd i ` {..<n})))"
proof -
  have "\<exists>rn'. make_servers [0..<n] rnd g n rn = Inr (new_servers [0..<n] rnd n :: 'svc Srv list, rn') \<and> servers_made [0..<n] rnd g n rn rn'"
    by (rule make_servers_ok [OF assms]) auto
  then obtain rn' where rn': "make_servers [0..<n] rnd g n rn = Inr (new_servers [0..<n] rnd n :: 'svc Srv list, rn')"
    and made: "servers_made [0..<n] rnd g n rn rn'" by blast
  have ex: "\<forall>e. end_exists rn' e = (end_exists rn e \<or> (\<exists>i < n. e \<in> rnd i ` {..<n}))"
    and co: "\<forall>i < n. \<forall>j < n. connection rn' (rnd i j) = Some (ServerName g (int j))"
    using made by (auto simp: servers_made_def)
  let ?sg = "\<lparr>srvs = new_servers [0..<n] rnd n :: 'svc Srv list,
    servernames = map (\<lambda>i. ServerName g (int i)) [0..<n], gid = g, connected = replicate n False\<rparr>"
  have lk: "link ?sg i j = rnd i j" if "i < n" "j < n" for i j using that by (simp add: link_def)
  have "wired ?sg rn'" unfolding wired_def wf_grp_def
    using assms ex co lk by (auto simp: fresh_names_def)
  with rn' ex show ?thesis by (auto simp: makeSrvGrp_def)
qed


text \<open>One server starts: fresh ends, a persister, and a registered RPC server.\<close>

lemma StartServer_wired:
  fixes sg :: "'svc ServerGrp" and v :: "('svc, 'w) env"
  assumes w: "wired sg (net v)" and i: "i < length (srvs sg)" and inj: "inj_on rnd {..<length (srvs sg)}"
    and fresh: "\<forall>j < length (srvs sg). \<not> end_exists (net v) (rnd j)"
  shows "\<exists>srv (v' :: ('svc, 'w) env). StartServer mks svcOf rnd (int i) (sg, v) = Inr (sg\<lparr>srvs := (srvs sg)[i := srv]\<rparr>, v') \<and>
    wired (sg\<lparr>srvs := (srvs sg)[i := srv]\<rparr>) (net v') \<and>
    (\<forall>e. end_exists (net v') e = (end_exists (net v) e \<or> e \<in> rnd ` {..<length (srvs sg)})) \<and>
    server_at (net v') = (server_at (net v))(ServerName (gid sg) (int i) := Some (length (labs v))) \<and>
    length (labs v') = Suc (length (labs v))"
proof -
  let ?n = "length (srvs sg)"
  have len: "length (endNames (srvs sg ! i)) = ?n" using w i by (auto simp: wired_def intro: wf_grpD(2))
  from makeServer_ok [OF inj fresh, of "gid sg"] obtain rn' where
    m: "makeServer rnd (gid sg) ?n (net v) = Inr (\<lparr>saved = None, svcs = [], endNames = map rnd [0..<?n]\<rparr> :: 'svc Srv, rn')"
    and r: "\<forall>e. end_exists rn' e = (end_exists (net v) e \<or> e \<in> rnd ` {..<?n})"
      "\<forall>j < ?n. connection rn' (rnd j) = Some (ServerName (gid sg) (int j))"
      "\<forall>e. e \<notin> rnd ` {..<?n} \<longrightarrow> connection rn' e = connection (net v) e" "server_at rn' = server_at (net v)" by blast
  obtain np st where cp: "(case saved (srvs sg ! i) of Some p \<Rightarrow> Persister_Copy p (store v) | None \<Rightarrow> MakePersister (store v)) = (np, st)"
    by force
  let ?ss = "mks (map rnd [0..<?n]) (gid sg) (int i) np"
  let ?srv = "\<lparr>saved = Some np, svcs = ?ss, endNames = map rnd [0..<?n]\<rparr> :: 'svc Srv"
  let ?rn = "AddServer (ServerName (gid sg) (int i)) (length (labs v)) rn'"
  let ?v = "v\<lparr>store := st, labs := labs v @ [foldl AddService MakeServer (map svcOf ?ss)], net := ?rn\<rparr>"
  have s: "StartServer mks svcOf rnd (int i) (sg, v) = Inr (sg\<lparr>srvs := (srvs sg)[i := ?srv]\<rparr>, ?v)"
    using i m len cp by (simp add: StartServer_def startServer_def Let_def)
  have e: "end_exists ?rn = end_exists rn'" "connection ?rn = connection rn'"
    by (auto simp: AddServer_def end_exists_def connection_def fun_eq_iff)
  have "wired (sg\<lparr>srvs := (srvs sg)[i := ?srv]\<rparr>) ?rn"
    by (rule wired_replace [OF w i inj fresh]) (use r e in auto)
  moreover have "server_at ?rn = (server_at (net v))(ServerName (gid sg) (int i) := Some (length (labs v)))"
    using r(4) by (auto simp: AddServer_def server_at_def fun_eq_iff)
  ultimately show ?thesis using s r(1) e by (intro exI [of _ ?srv] exI [of _ ?v]) simp
qed

lemma start_wired:
  fixes sg :: "'svc ServerGrp" and v :: "('svc, 'w) env"
  assumes w: "wired sg (net v)" and names: "fresh_names (\<lambda>i. rnd (int i)) (length (srvs sg)) (net v)"
  shows "\<exists>sg' (v' :: ('svc, 'w) env). start mks svcOf rnd (sg, v) = Inr (sg', v') \<and> wired sg' (net v') \<and>
    length (srvs sg') = length (srvs sg) \<and> gid sg' = gid sg \<and>
    (\<forall>i < length (srvs sg). server_at (net v') (ServerName (gid sg) (int i)) = Some (length (labs v) + i))"
proof -
  let ?n = "length (srvs sg)"
  let ?P = "\<lambda>ys (ge :: ('svc, 'w) ge). wired (fst ge) (net (snd ge)) \<and> length (srvs (fst ge)) = ?n \<and> gid (fst ge) = gid sg \<and>
      length (labs (snd ge)) = length (labs v) + length ys \<and>
      (\<forall>e. end_exists (net (snd ge)) e \<longrightarrow> end_exists (net v) e \<or> (\<exists>i \<in> set ys. e \<in> rnd (int i) ` {..<?n})) \<and>
      (\<forall>i \<in> set ys. server_at (net (snd ge)) (ServerName (gid sg) (int i)) = Some (length (labs v) + i))"
  have "\<exists>ge. each (\<lambda>i. StartServer mks svcOf (rnd (int i)) (int i)) [0..<?n] (sg, v) = Inr ge \<and> ?P [0..<?n] ge"
  proof (rule each_succeeds [where P = ?P])
    fix ys x zs and ge :: "('svc, 'w) ge"
    assume e: "[0..<?n] = ys @ x # zs" and P: "?P ys ge"
    obtain sg1 v1 where ge: "ge = (sg1, v1)" by force
    have lt: "length ys < ?n" using arg_cong [OF e, of length] by simp
    have "x = length ys" using arg_cong [OF e, of "\<lambda>l. l ! length ys"] lt by simp
    moreover have "ys = [0..<length ys]" using arg_cong [OF e, of "take (length ys)"] lt by simp
    ultimately have ysx: "ys = [0..<x]" "x < ?n" "length ys = x" using lt by simp_all
    have inj: "inj_on (rnd (int x)) {..<length (srvs sg1)}"
      using names P ysx(2) ge by (auto simp: fresh_names_def inj_on_def)
    have fresh: "\<forall>j < length (srvs sg1). \<not> end_exists (net v1) (rnd (int x) j)"
    proof (intro allI impI notI)
      fix j assume j: "j < length (srvs sg1)" "end_exists (net v1) (rnd (int x) j)"
      with P ge have "end_exists (net v) (rnd (int x) j) \<or> (\<exists>i \<in> set ys. rnd (int x) j \<in> rnd (int i) ` {..<?n})" by auto
      then show False using names j P ge ysx by (auto simp: fresh_names_def) (metis less_irrefl less_trans)
    qed
    have w1: "wired sg1 (net v1)" "x < length (srvs sg1)" using P ge ysx(2) by simp_all
    from StartServer_wired [OF w1 inj fresh, of mks svcOf] obtain srv v2 where
      s: "StartServer mks svcOf (rnd (int x)) (int x) (sg1, v1) = Inr (sg1\<lparr>srvs := (srvs sg1)[x := srv]\<rparr>, v2)"
      "wired (sg1\<lparr>srvs := (srvs sg1)[x := srv]\<rparr>) (net v2)"
      "\<forall>e. end_exists (net v2) e = (end_exists (net v1) e \<or> e \<in> rnd (int x) ` {..<length (srvs sg1)})"
      "server_at (net v2) = (server_at (net v1))(ServerName (gid sg1) (int x) := Some (length (labs v1)))"
      "length (labs v2) = Suc (length (labs v1))" by blast
    have inj_name: "ServerName g i = ServerName g j \<longleftrightarrow> i = j" for g i j by (simp add: ServerName_def)
    have "?P (ys @ [x]) (sg1\<lparr>srvs := (srvs sg1)[x := srv]\<rparr>, v2)"
      using s P ge ysx by (auto simp: inj_name)
    with s(1) ge show "\<exists>ge'. StartServer mks svcOf (rnd (int x)) (int x) ge = Inr ge' \<and> ?P (ys @ [x]) ge'" by blast
  qed (use w in auto)
  then show ?thesis by (auto simp: start_def all_def each_map)
qed

lemma group_wired_up:
  fixes v :: "('svc, 'w) env"
  assumes "fresh_names rnd n (net v)" and "fresh_names (\<lambda>i. rnd' (int i)) n (net v)"
    and "\<forall>i < n. \<forall>j < n. \<forall>i' < n. \<forall>j' < n. rnd i j \<noteq> rnd' (int i') j'"
  shows "\<exists>(sg :: 'svc ServerGrp) rn sg' v'. makeSrvGrp rnd g n (net v) = Inr (sg, rn) \<and>
    StartServers mks svcOf rnd' (sg, v\<lparr>net := rn\<rparr>) = Inr (sg', v') \<and> length (srvs sg') = n \<and>
    (\<forall>i < n. \<forall>j < n. readEndnameInfo (net v') (link sg' i j) =
       \<lparr>i_enabled = True, i_servername = Some (ServerName g (int j)), i_server = Some (length (labs v) + j),
        i_reliable = reliable (net v'), i_longreordering = longReordering (net v')\<rparr>)"
proof -
  from makeSrvGrp_wired [OF assms(1), of g] obtain sg :: "'svc ServerGrp" and rn where
    mk: "makeSrvGrp rnd g n (net v) = Inr (sg, rn)" and w: "wired sg rn" and n: "length (srvs sg) = n" "gid sg = g"
    and ex: "\<forall>e. end_exists rn e = (end_exists (net v) e \<or> (\<exists>i < n. e \<in> rnd i ` {..<n}))" by blast
  have "fresh_names (\<lambda>i. rnd' (int i)) (length (srvs sg)) (net (v\<lparr>net := rn\<rparr>))"
    using assms(2,3) ex n by (auto simp: fresh_names_def) metis
  with start_wired [of sg "v\<lparr>net := rn\<rparr>" rnd' mks svcOf] w obtain sg1 and v1 :: "('svc, 'w) env" where
    st: "start mks svcOf rnd' (sg, v\<lparr>net := rn\<rparr>) = Inr (sg1, v1)" "wired sg1 (net v1)" "length (srvs sg1) = n" "gid sg1 = g"
      "\<forall>i < n. server_at (net v1) (ServerName g (int i)) = Some (length (labs v) + i)"
    using n by auto
  have "wf_grp sg1" using st(2) by (simp add: wired_def)
  moreover have "ConnectAll (sg1, net v1) = each (\<lambda>i gn. connect i (map int [0..<length (srvs (fst gn))]) gn)
      (map int [0..<length (srvs (fst (sg1, net v1)))]) (sg1, net v1)"
    by (simp add: ConnectAll_def ConnectOne_def [abs_def] all_def)
  ultimately obtain sg2 rn2 where
    c: "ConnectAll (sg1, net v1) = Inr (sg2, rn2)" "grp_frame (sg2, rn2) = grp_frame (sg1, net v1)"
      "\<forall>i < n. \<forall>j < n. up (sg2, rn2) i j"
    using grp.connect_each [of "(sg1, net v1)"] st(3) by auto
  from c(2) have same: "srvs sg2 = srvs sg1" "gid sg2 = gid sg1" "connection rn2 = connection (net v1)" "server_at rn2 = server_at (net v1)"
    by (simp_all add: grp_frame_def)
  then have lk: "link sg2 = link sg1" by (simp add: link_def fun_eq_iff)
  have "StartServers mks svcOf rnd' (sg, v\<lparr>net := rn\<rparr>) = Inr (sg2, v1\<lparr>net := rn2\<rparr>)"
    using st(1) c(1) by (simp add: StartServers_def on_net_def)
  moreover have "readEndnameInfo rn2 (link sg2 i j) =
       \<lparr>i_enabled = True, i_servername = Some (ServerName g (int j)), i_server = Some (length (labs v) + j),
        i_reliable = reliable rn2, i_longreordering = longReordering rn2\<rparr>" if "i < n" "j < n" for i j
    using that st c(3) same lk by (auto simp: readEndnameInfo_def wired_def up_def)
  ultimately show ?thesis using mk st(3) same(1)
    by (intro exI [of _ sg] exI [of _ rn] exI [of _ sg2] exI [of _ "v1\<lparr>net := rn2\<rparr>"]) simp
qed

text \<open>Setting up a group: if the names that are drawn are distinct and unused, \<open>MakeGroup\<close>
  followed by \<open>StartServers\<close> succeeds, every server can reach every server (the ends are enabled,
  lead to the right server, and that server is registered), and distinct servers have distinct
  RPC servers.\<close>

theorem group_starts_fully_connected:
  fixes v :: "('svc, 'w) env"
  assumes "fresh_names rnd n (net v)" and "fresh_names (\<lambda>i. rnd' (int i)) n (net v)"
    and "\<forall>i < n. \<forall>j < n. \<forall>i' < n. \<forall>j' < n. rnd i j \<noteq> rnd' (int i') j'"
  shows "\<exists>(sg :: 'svc ServerGrp) rn sg' v'. makeSrvGrp rnd g n (net v) = Inr (sg, rn) \<and>
    StartServers mks svcOf rnd' (sg, v\<lparr>net := rn\<rparr>) = Inr (sg', v') \<and> length (srvs sg') = n \<and>
    (\<forall>i < n. \<forall>j < n. readEndnameInfo (net v') (link sg' i j) =
       \<lparr>i_enabled = True, i_servername = Some (ServerName g (int j)), i_server = Some (length (labs v) + j),
        i_reliable = reliable (net v'), i_longreordering = longReordering (net v')\<rparr>)"
  using assms by (rule group_wired_up)

lemma demo_names: "i < 2 \<Longrightarrow> j < 2 \<Longrightarrow> i' < 2 \<Longrightarrow> j' < 2 \<Longrightarrow> 2 * int i + int j = 2 * int i' + int j' \<Longrightarrow> i = i' \<and> j = j'"
  by (simp add: numeral_2_eq_2 less_Suc_eq) auto

theorem group_starts_fully_connected_witness:
  "\<exists>(sg :: nat ServerGrp) rn sg' v'. makeSrvGrp (\<lambda>i j. Itoa (2 * int i + int j)) 7 2 (net demo_env) = Inr (sg, rn) \<and>
    StartServers (\<lambda>es g i p. [Some p]) (\<lambda>s. MakeService ''KV'' []) (\<lambda>i j. Itoa (100 + 2 * i + int j)) (sg, demo_env\<lparr>net := rn\<rparr>) = Inr (sg', v') \<and>
    i_server (readEndnameInfo (net v') (link sg' 0 1)) = Some 1"
proof -
  have none: "\<not> end_exists (net demo_env) e" for e by (simp add: demo_env_def MakeNetwork_def end_exists_def)
  have "fresh_names (\<lambda>i j. Itoa (2 * int i + int j)) 2 (net demo_env)"
    using none demo_names by (simp add: fresh_names_def)
  moreover have "fresh_names (\<lambda>i j. Itoa (100 + 2 * int i + int j)) 2 (net demo_env)"
    using none demo_names by (simp add: fresh_names_def)
  moreover have "\<forall>i < 2. \<forall>j < 2. \<forall>i' < 2. \<forall>j' < 2. Itoa (2 * int i + int j) \<noteq> Itoa (100 + 2 * int i' + int j')" by simp
  moreover have "labs demo_env = []" by (simp add: demo_env_def)
  ultimately show ?thesis
    using group_starts_fully_connected [of "\<lambda>i j. Itoa (2 * int i + int j)" 2 demo_env "\<lambda>i j. Itoa (100 + 2 * i + int j)" 7
        "\<lambda>es g i p. [Some p]" "\<lambda>s. MakeService ''KV'' []"] by fastforce
qed


end
