(* ===== verification/Annotations.thy ===== *)
theory Annotations
  imports Prelude
begin

section \<open>Annotations of a test run (tester1/annotation.go)\<close>

text \<open>
  The log of annotations that the visualizer shows next to a history: points and intervals in
  time, continuous annotations (one ongoing per tag), and the failure annotation that follows
  which servers are connected and which have crashed.

  A timestamp is an \<^typ>\<open>int\<close> handed to the operation, one per call of \<open>timestamp\<close>. The
  global \<open>annotation\<close> and \<open>finfo\<close> are one record; \<open>finfo\<close> is \<open>None\<close> until \<open>AnnotateTest\<close> sets
  it, and its use before is a nil dereference. Each operation is one step, since it holds the
  lock throughout. The fields of \<open>porcupine.Annotation\<close> are those the code fills in; a point
  has \<open>End\<close> zero.
\<close>

subsection \<open>Data\<close>

record Ann =
  Tag :: string
  Start :: int
  End :: int
  Description :: string
  Details :: string
  BackgroundColor :: string

record Continuous =
  c_start :: int
  c_desp :: string
  c_details :: string
  c_bgcolor :: string

record Annotation =
  annotations :: "Ann list"
  continuous :: "(string, Continuous) gomap"
  finalized :: bool

record CheckerBegin =
  ck_ts :: int
  ck_details :: string

record FrameworkInfo =
  f_nservers :: nat
  f_connected :: "bool list"
  f_crashed :: "bool list"
  f_ckbegin :: CheckerBegin

record ann_state =
  annotation :: Annotation
  finfo :: "FrameworkInfo option"

datatype ann_error = NilFinfo | IndexRange

definition COLOR_INFO :: string where "COLOR_INFO = ''#FAFAFA''"
definition COLOR_NEUTRAL :: string where "COLOR_NEUTRAL = ''#FFECB3''"
definition COLOR_SUCCESS :: string where "COLOR_SUCCESS = ''#C8E6C9''"
definition COLOR_FAILURE :: string where "COLOR_FAILURE = ''#FFCDD2''"
definition COLOR_FAULT :: string where "COLOR_FAULT = ''#B3E5FC''"
definition COLOR_USER :: string where "COLOR_USER = ''#FFF176''"
definition TAG_CHECKER :: string where "TAG_CHECKER = ''$ Checker''"
definition TAG_PARTITION :: string where "TAG_PARTITION = ''$ Failure''"
definition TAG_INFO :: string where "TAG_INFO = ''$ Test Info''"

lemmas ann_consts = COLOR_INFO_def COLOR_NEUTRAL_def COLOR_SUCCESS_def COLOR_FAILURE_def
  COLOR_FAULT_def COLOR_USER_def TAG_CHECKER_def TAG_PARTITION_def TAG_INFO_def

text \<open>The time since 1970 in nanoseconds; \<^verbatim>\<open>time.Since\<close> saturates at the bounds of 64 bits.\<close>

definition timestamp :: "int \<Rightarrow> int" where
  "timestamp now = max (- (2 ^ 63)) (min (2 ^ 63 - 1) now)"

definition GetAnnotateTimestamp :: "int \<Rightarrow> int" where
  "GetAnnotateTimestamp now = timestamp now"

lemma timestamp_mono: "s \<le> t \<Longrightarrow> GetAnnotateTimestamp s \<le> GetAnnotateTimestamp t"
  unfolding GetAnnotateTimestamp_def timestamp_def by (intro max.mono min.mono) simp_all

subsection \<open>The log\<close>

definition mkAnnotation :: Annotation where
  "mkAnnotation = \<lparr>annotations = [], continuous = [], finalized = False\<rparr>"

definition clear :: "Annotation \<Rightarrow> Annotation" where
  "clear an = an\<lparr>annotations := [], continuous := [], finalized := False\<rparr>"

definition annotatePointColor :: "string \<Rightarrow> string \<Rightarrow> string \<Rightarrow> string \<Rightarrow> int \<Rightarrow> Annotation \<Rightarrow> Annotation" where
  "annotatePointColor tag desp details bgcolor t an =
     an\<lparr>annotations := annotations an @
       [\<lparr>Tag = tag, Start = t, End = 0, Description = desp, Details = details, BackgroundColor = bgcolor\<rparr>]\<rparr>"

definition annotateIntervalColor ::
  "string \<Rightarrow> int \<Rightarrow> string \<Rightarrow> string \<Rightarrow> string \<Rightarrow> int \<Rightarrow> Annotation \<Rightarrow> Annotation" where
  "annotateIntervalColor tag start desp details bgcolor t an =
     an\<lparr>annotations := annotations an @
       [\<lparr>Tag = tag, Start = start, End = t, Description = desp, Details = details, BackgroundColor = bgcolor\<rparr>]\<rparr>"

text \<open>The annotation that an ongoing one becomes when it ends at \<open>t\<close>.\<close>

definition concretize :: "string \<Rightarrow> Continuous \<Rightarrow> int \<Rightarrow> Ann" where
  "concretize tag co t =
     \<lparr>Tag = tag, Start = c_start co, End = t, Description = c_desp co,
      Details = c_details co, BackgroundColor = c_bgcolor co\<rparr>"

definition annotateContinuousColor :: "string \<Rightarrow> string \<Rightarrow> string \<Rightarrow> string \<Rightarrow> int \<Rightarrow> Annotation \<Rightarrow> Annotation" where
  "annotateContinuousColor tag desp details bgcolor t an =
     (case map_of (continuous an) tag of
        None \<Rightarrow> an\<lparr>continuous := AList.update tag
          \<lparr>c_start = t, c_desp = desp, c_details = details, c_bgcolor = bgcolor\<rparr> (continuous an)\<rparr>
      | Some co \<Rightarrow> an\<lparr>annotations := annotations an @ [concretize tag co t],
          continuous := AList.update tag
            \<lparr>c_start = t, c_desp = desp, c_details = details, c_bgcolor = bgcolor\<rparr> (continuous an)\<rparr>)"

text \<open>The test for a missing entry has an empty body, so \<open>cont\<close> is then the zero value.\<close>

definition zero_continuous :: Continuous where
  "zero_continuous = \<lparr>c_start = 0, c_desp = [], c_details = [], c_bgcolor = []\<rparr>"

definition annotateContinuousEnd :: "string \<Rightarrow> int \<Rightarrow> Annotation \<Rightarrow> Annotation" where
  "annotateContinuousEnd tag t an =
     (let co = (case map_of (continuous an) tag of Some c \<Rightarrow> c | None \<Rightarrow> zero_continuous)
      in an\<lparr>annotations := annotations an @ [concretize tag co t],
            continuous := AList.delete tag (continuous an)\<rparr>)"

text \<open>\<open>order\<close> is the order in which the loop visits the map of ongoing annotations.\<close>

definition finalize :: "(string \<times> Continuous) list \<Rightarrow> int \<Rightarrow> Annotation \<Rightarrow> Ann list \<times> Annotation" where
  "finalize order t an =
     (annotations an @ map (\<lambda>(tag, co). concretize tag co t) order, an\<lparr>finalized := True\<rparr>)"

definition isFinalized :: "Annotation \<Rightarrow> bool" where
  "isFinalized an = finalized an"

definition end_annotation :: "string \<Rightarrow> int \<Rightarrow> Ann" where
  "end_annotation e t = \<lparr>Tag = TAG_INFO, Start = t, End = 0, Description = e, Details = e,
     BackgroundColor = COLOR_INFO\<rparr>"

definition FinalizeAnnotations ::
  "string \<Rightarrow> (string \<times> Continuous) list \<Rightarrow> int \<Rightarrow> int \<Rightarrow> ann_state \<Rightarrow> Ann list \<times> ann_state" where
  "FinalizeAnnotations e order t t' s =
     (case finalize order t (annotation s) of (as, an) \<Rightarrow>
        (as @ [end_annotation e t'], s\<lparr>annotation := an\<rparr>))"

definition SetAnnotationFinalized :: "ann_state \<Rightarrow> ann_state" where
  "SetAnnotationFinalized s = s\<lparr>annotation := (annotation s)\<lparr>finalized := True\<rparr>\<rparr>"

definition GetAnnotationFinalized :: "ann_state \<Rightarrow> bool" where
  "GetAnnotationFinalized s = isFinalized (annotation s)"

text \<open>
  What \<open>cleanup\<close> leaves behind: it cleared the log, found nothing to show, could not open the
  file, or wrote the annotations to the file named by \<open>VIS_FILE\<close> (a temporary one if empty).
\<close>

datatype vis = Cleared | NothingToShow | NotOpened string | Visualized string "Ann list"

definition cleanup ::
  "string \<Rightarrow> string \<Rightarrow> bool \<Rightarrow> bool \<Rightarrow> string \<Rightarrow> (string \<times> Continuous) list \<Rightarrow> int \<Rightarrow> int \<Rightarrow> Annotation \<Rightarrow> vis \<times> Annotation" where
  "cleanup enabled fpath opened failed e order t t' an =
     (if enabled = ''never'' \<or> (\<not> failed \<and> enabled \<noteq> ''always'') \<or> isFinalized an then (Cleared, clear an)
      else case finalize order t an of (as, an') \<Rightarrow>
        if length as = 0 then (NothingToShow, an')
        else if \<not> opened then (NotOpened fpath, an')
        else (Visualized fpath (as @ [end_annotation e t']), an'))"

subsection \<open>Points, intervals and continuous annotations\<close>

definition AnnotatePointColor :: "string \<Rightarrow> string \<Rightarrow> string \<Rightarrow> string \<Rightarrow> int \<Rightarrow> ann_state \<Rightarrow> ann_state" where
  "AnnotatePointColor tag desp details bgcolor t s =
     s\<lparr>annotation := annotatePointColor tag desp details bgcolor t (annotation s)\<rparr>"

definition AnnotateIntervalColor ::
  "string \<Rightarrow> int \<Rightarrow> string \<Rightarrow> string \<Rightarrow> string \<Rightarrow> int \<Rightarrow> ann_state \<Rightarrow> ann_state" where
  "AnnotateIntervalColor tag start desp details bgcolor t s =
     s\<lparr>annotation := annotateIntervalColor tag start desp details bgcolor t (annotation s)\<rparr>"

definition AnnotateContinuousColor :: "string \<Rightarrow> string \<Rightarrow> string \<Rightarrow> string \<Rightarrow> int \<Rightarrow> ann_state \<Rightarrow> ann_state" where
  "AnnotateContinuousColor tag desp details bgcolor t s =
     s\<lparr>annotation := annotateContinuousColor tag desp details bgcolor t (annotation s)\<rparr>"

definition AnnotateContinuousEnd :: "string \<Rightarrow> int \<Rightarrow> ann_state \<Rightarrow> ann_state" where
  "AnnotateContinuousEnd tag t s = s\<lparr>annotation := annotateContinuousEnd tag t (annotation s)\<rparr>"

definition Annotate :: "string \<Rightarrow> string \<Rightarrow> string \<Rightarrow> int \<Rightarrow> ann_state \<Rightarrow> ann_state" where
  "Annotate tag desp details t s =
     s\<lparr>annotation := annotatePointColor tag desp details COLOR_USER t (annotation s)\<rparr>"

definition AnnotateInterval :: "string \<Rightarrow> int \<Rightarrow> string \<Rightarrow> string \<Rightarrow> int \<Rightarrow> ann_state \<Rightarrow> ann_state" where
  "AnnotateInterval tag start desp details t s =
     s\<lparr>annotation := annotateIntervalColor tag start desp details COLOR_USER t (annotation s)\<rparr>"

definition AnnotateContinuous :: "string \<Rightarrow> string \<Rightarrow> string \<Rightarrow> int \<Rightarrow> ann_state \<Rightarrow> ann_state" where
  "AnnotateContinuous tag desp details t s =
     s\<lparr>annotation := annotateContinuousColor tag desp details COLOR_USER t (annotation s)\<rparr>"

definition AnnotateInfo :: "string \<Rightarrow> string \<Rightarrow> int \<Rightarrow> ann_state \<Rightarrow> ann_state" where
  "AnnotateInfo desp details = AnnotatePointColor TAG_INFO desp details COLOR_INFO"

definition AnnotateInfoInterval :: "int \<Rightarrow> string \<Rightarrow> string \<Rightarrow> int \<Rightarrow> ann_state \<Rightarrow> ann_state" where
  "AnnotateInfoInterval start desp details = AnnotateIntervalColor TAG_INFO start desp details COLOR_INFO"

subsection \<open>The start of a test and its checkers\<close>

definition mkFrameworkInfo :: "nat \<Rightarrow> FrameworkInfo" where
  "mkFrameworkInfo nservers =
     \<lparr>f_nservers = nservers, f_connected = replicate nservers True, f_crashed = replicate nservers False,
      f_ckbegin = \<lparr>ck_ts = 0, ck_details = []\<rparr>\<rparr>"

definition AnnotateTest :: "string \<Rightarrow> nat \<Rightarrow> int \<Rightarrow> ann_state \<Rightarrow> ann_state" where
  "AnnotateTest desp nservers t s =
     (let details = desp @ '' ('' @ Itoa (int nservers) @ '' servers)'' in
      AnnotateInfo details details t
        (s\<lparr>finfo := Some (mkFrameworkInfo nservers), annotation := clear (annotation s)\<rparr>))"

definition AnnotateCheckerBegin :: "string \<Rightarrow> int \<Rightarrow> ann_state \<Rightarrow> ann_error + ann_state" where
  "AnnotateCheckerBegin details t s = (case finfo s of
      None \<Rightarrow> Inl NilFinfo
    | Some f \<Rightarrow> Inr (s\<lparr>finfo := Some (f\<lparr>f_ckbegin := \<lparr>ck_ts = t, ck_details = details\<rparr>\<rparr>)\<rparr>))"

text \<open>The last statement, \<open>ckbegin.ts = 0\<close>, assigns to a local copy and changes no state.\<close>

definition AnnotateCheckerEnd :: "string \<Rightarrow> string \<Rightarrow> string \<Rightarrow> int \<Rightarrow> ann_state \<Rightarrow> ann_error + ann_state" where
  "AnnotateCheckerEnd desp details color t s = (case finfo s of
      None \<Rightarrow> Inl NilFinfo
    | Some f \<Rightarrow>
        (let ckbegin = f_ckbegin f in
         if ck_ts ckbegin = 0 then Inr (AnnotatePointColor TAG_CHECKER desp details color t s)
         else Inr (AnnotateIntervalColor TAG_CHECKER (ck_ts ckbegin) desp
                (ck_details ckbegin @ '': '' @ details) color t s)))"

definition AnnotateCheckerSuccess :: "string \<Rightarrow> string \<Rightarrow> int \<Rightarrow> ann_state \<Rightarrow> ann_error + ann_state" where
  "AnnotateCheckerSuccess desp details = AnnotateCheckerEnd desp details COLOR_SUCCESS"

definition AnnotateCheckerFailure :: "string \<Rightarrow> string \<Rightarrow> int \<Rightarrow> ann_state \<Rightarrow> ann_error + ann_state" where
  "AnnotateCheckerFailure desp details = AnnotateCheckerEnd desp details COLOR_FAILURE"

definition AnnotateCheckerNeutral :: "string \<Rightarrow> string \<Rightarrow> int \<Rightarrow> ann_state \<Rightarrow> ann_error + ann_state" where
  "AnnotateCheckerNeutral desp details = AnnotateCheckerEnd desp details COLOR_NEUTRAL"

definition AnnotateCheckerFailureBeforeExit ::
  "string \<Rightarrow> string \<Rightarrow> string \<Rightarrow> string \<Rightarrow> bool \<Rightarrow> (string \<times> Continuous) list \<Rightarrow> int \<Rightarrow> int \<Rightarrow> int \<Rightarrow>
   ann_state \<Rightarrow> ann_error + vis \<times> ann_state" where
  "AnnotateCheckerFailureBeforeExit enabled fpath desp details opened order t t' t'' s =
     (case AnnotateCheckerFailure desp details t s of
        Inl e \<Rightarrow> Inl e
      | Inr s' \<Rightarrow> (case cleanup enabled fpath opened True ''test failed'' order t' t'' (annotation s') of
          (v, an) \<Rightarrow> Inr (v, s'\<lparr>annotation := an\<rparr>)))"

subsection \<open>The failure annotation\<close>

text \<open>A list of numbers, as \<open>%v\<close> prints it.\<close>

fun joined :: "string \<Rightarrow> string list \<Rightarrow> string" where
  "joined sep [] = []"
| "joined sep [x] = x"
| "joined sep (x # y # xs) = x @ sep @ joined sep (y # xs)"

definition show_ints :: "int list \<Rightarrow> string" where
  "show_ints is = ''['' @ joined '' '' (map Itoa is) @ '']''"

text \<open>The loop over the servers: what is written, and who is connected and who has crashed.\<close>

fun fault_loop :: "(nat \<times> bool) list \<Rightarrow> bool list \<Rightarrow> string \<Rightarrow> int list \<Rightarrow> int list \<Rightarrow>
    ann_error + string \<times> int list \<times> int list" where
  "fault_loop [] crashed b conn crashes = Inr (b, conn, crashes)"
| "fault_loop ((i, c) # xs) crashed b conn crashes =
     (if length crashed \<le> i then Inl IndexRange
      else if crashed ! i then fault_loop xs crashed b conn (crashes @ [int i])
      else if c then fault_loop xs crashed b (conn @ [int i]) crashes
      else fault_loop xs crashed (b @ ''['' @ Itoa (int i) @ ''] '') conn crashes)"

definition annotateFault :: "int \<Rightarrow> FrameworkInfo \<Rightarrow> ann_state \<Rightarrow> ann_error + ann_state" where
  "annotateFault t f s =
     (let trues = replicate (f_nservers f) True; falses = replicate (f_nservers f) False in
      if trues = f_connected f \<and> falses = f_crashed f then Inr (AnnotateContinuousEnd TAG_PARTITION t s)
      else case fault_loop (enumerate 0 (f_connected f)) (f_crashed f) ''partition = '' [] [] of
        Inl e \<Rightarrow> Inl e
      | Inr (b, conn, crashes) \<Rightarrow>
          (let b1 = (if 0 < length conn then b @ show_ints conn else b);
               b2 = (if 0 < length crashes then b1 @ '' / crash = '' @ show_ints crashes else b1)
           in Inr (AnnotateContinuousColor TAG_PARTITION b2 b2 COLOR_FAULT t s)))"

text \<open>\<open>copy(dst, src)\<close> of Go: the common prefix is overwritten.\<close>

definition copied :: "'a list \<Rightarrow> 'a list \<Rightarrow> 'a list" where
  "copied dst src = take (length dst) src @ drop (length src) dst"

definition AnnotateConnection :: "bool list \<Rightarrow> int \<Rightarrow> ann_state \<Rightarrow> ann_error + ann_state" where
  "AnnotateConnection connection t s = (case finfo s of
      None \<Rightarrow> Inl NilFinfo
    | Some f \<Rightarrow>
        if f_connected f = connection then Inr s
        else (let f' = f\<lparr>f_connected := copied (f_connected f) connection\<rparr>
              in annotateFault t f' (s\<lparr>finfo := Some f'\<rparr>)))"

definition AnnotateTwoPartitions :: "int list \<Rightarrow> int list \<Rightarrow> int \<Rightarrow> ann_state \<Rightarrow> ann_state" where
  "AnnotateTwoPartitions p1 p2 t s =
     (let text = ''partition = '' @ show_ints p1 @ '' '' @ show_ints p2
      in AnnotateContinuousColor TAG_PARTITION text text COLOR_FAULT t s)"

definition AnnotateClearFailure :: "int \<Rightarrow> ann_state \<Rightarrow> ann_error + ann_state" where
  "AnnotateClearFailure t s = (case finfo s of
      None \<Rightarrow> Inl NilFinfo
    | Some f \<Rightarrow> Inr (AnnotateContinuousEnd TAG_PARTITION t
        (s\<lparr>finfo := Some (f\<lparr>f_crashed := map (\<lambda>_. False) (f_crashed f),
                           f_connected := map (\<lambda>_. True) (f_connected f)\<rparr>)\<rparr>)))"

text \<open>The loops of \<open>AnnotateShutdown\<close> and \<open>AnnotateRestart\<close>: the flags and \<open>changed\<close>.\<close>

fun mark_crashed :: "bool \<Rightarrow> int list \<Rightarrow> bool list \<Rightarrow> bool \<Rightarrow> ann_error + bool list \<times> bool" where
  "mark_crashed v [] crashed changed = Inr (crashed, changed)"
| "mark_crashed v (i # ids) crashed changed =
     (if i < 0 \<or> int (length crashed) \<le> i then Inl IndexRange
      else mark_crashed v ids (crashed[nat i := v]) (if crashed ! nat i = v then changed else True))"

definition set_crashed :: "bool \<Rightarrow> int list \<Rightarrow> int \<Rightarrow> ann_state \<Rightarrow> ann_error + ann_state" where
  "set_crashed v servers t s = (case finfo s of
      None \<Rightarrow> Inl NilFinfo
    | Some f \<Rightarrow> (case mark_crashed v servers (f_crashed f) False of
        Inl e \<Rightarrow> Inl e
      | Inr (crashed, changed) \<Rightarrow>
          (let f' = f\<lparr>f_crashed := crashed\<rparr>; s' = s\<lparr>finfo := Some f'\<rparr>
           in if \<not> changed then Inr s' else annotateFault t f' s')))"

definition AnnotateShutdown :: "int list \<Rightarrow> int \<Rightarrow> ann_state \<Rightarrow> ann_error + ann_state" where
  "AnnotateShutdown servers t s = set_crashed True servers t s"

definition AnnotateRestart :: "int list \<Rightarrow> int \<Rightarrow> ann_state \<Rightarrow> ann_error + ann_state" where
  "AnnotateRestart servers t s = set_crashed False servers t s"

definition AnnotateShutdownAll :: "int \<Rightarrow> ann_state \<Rightarrow> ann_error + ann_state" where
  "AnnotateShutdownAll t s = (case finfo s of
      None \<Rightarrow> Inl NilFinfo
    | Some f \<Rightarrow> AnnotateShutdown (map int [0..<f_nservers f]) t s)"

definition AnnotateRestartAll :: "int \<Rightarrow> ann_state \<Rightarrow> ann_error + ann_state" where
  "AnnotateRestartAll t s = (case finfo s of
      None \<Rightarrow> Inl NilFinfo
    | Some f \<Rightarrow> AnnotateRestart (map int [0..<f_nservers f]) t s)"

subsection \<open>The failure annotation follows the state of the servers\<close>

definition wf_finfo :: "FrameworkInfo \<Rightarrow> bool" where
  "wf_finfo f \<longleftrightarrow> length (f_connected f) = f_nservers f \<and> length (f_crashed f) = f_nservers f"

definition all_up :: "FrameworkInfo \<Rightarrow> bool" where
  "all_up f \<longleftrightarrow> (\<forall>i < f_nservers f. f_connected f ! i \<and> \<not> f_crashed f ! i)"

text \<open>The text the annotation should have: servers that are disconnected one by one, the connected
  ones together, the crashed ones at the end.\<close>

definition servers_where :: "FrameworkInfo \<Rightarrow> (bool \<Rightarrow> bool \<Rightarrow> bool) \<Rightarrow> int list" where
  "servers_where f P = map int (filter (\<lambda>i. P (f_connected f ! i) (f_crashed f ! i)) [0..<f_nservers f])"

definition fault_text :: "FrameworkInfo \<Rightarrow> string" where
  "fault_text f =
     (let alone = servers_where f (\<lambda>up down. \<not> down \<and> \<not> up);
          conn = servers_where f (\<lambda>up down. \<not> down \<and> up);
          crashes = servers_where f (\<lambda>up down. down)
      in ''partition = '' @ concat (map (\<lambda>i. ''['' @ Itoa i @ ''] '') alone) @
         (if conn = [] then [] else show_ints conn) @
         (if crashes = [] then [] else '' / crash = '' @ show_ints crashes))"

definition fault_shown :: "nat \<Rightarrow> ann_state \<Rightarrow> bool" where
  "fault_shown n s \<longleftrightarrow> (\<exists>f. finfo s = Some f \<and> f_nservers f = n \<and> wf_finfo f \<and>
     (case map_of (continuous (annotation s)) TAG_PARTITION of
        None \<Rightarrow> all_up f
      | Some c \<Rightarrow> \<not> all_up f \<and> c_desp c = fault_text f \<and> c_details c = fault_text f \<and> c_bgcolor c = COLOR_FAULT))"

lemma fault_loop_eq:
  "\<forall>(i, c) \<in> set xs. i < length crashed \<Longrightarrow>
   fault_loop xs crashed b conn crashes =
     Inr (b @ concat (map (\<lambda>(i, c). ''['' @ Itoa (int i) @ ''] '') (filter (\<lambda>(i, c). \<not> crashed ! i \<and> \<not> c) xs)),
          conn @ map (\<lambda>(i, c). int i) (filter (\<lambda>(i, c). \<not> crashed ! i \<and> c) xs),
          crashes @ map (\<lambda>(i, c). int i) (filter (\<lambda>(i, c). crashed ! i) xs))"
  by (induction xs crashed b conn crashes rule: fault_loop.induct) auto

lemma enumerate_map: "enumerate 0 xs = map (\<lambda>i. (i, xs ! i)) [0..<length xs]"
  by (rule nth_equalityI) (simp_all add: nth_enumerate_eq)

lemma trues_eq: "replicate n True = xs \<longleftrightarrow> length xs = n \<and> (\<forall>i < n. xs ! i)"
  by (auto simp: list_eq_iff_nth_eq)

lemma falses_eq: "replicate n False = xs \<longleftrightarrow> length xs = n \<and> (\<forall>i < n. \<not> xs ! i)"
  by (auto simp: list_eq_iff_nth_eq)

lemma annotateFault_eq:
  assumes "wf_finfo f"
  shows "annotateFault t f s = Inr
    (if all_up f then AnnotateContinuousEnd TAG_PARTITION t s
     else AnnotateContinuousColor TAG_PARTITION (fault_text f) (fault_text f) COLOR_FAULT t s)"
proof -
  have len: "length (f_connected f) = f_nservers f" "length (f_crashed f) = f_nservers f"
    using assms by (simp_all add: wf_finfo_def)
  have up: "(replicate (f_nservers f) True = f_connected f \<and> replicate (f_nservers f) False = f_crashed f) = all_up f"
    using len by (auto simp: trues_eq falses_eq all_up_def)
  have loop: "fault_loop (enumerate 0 (f_connected f)) (f_crashed f) b [] [] =
      Inr (b @ concat (map (\<lambda>i. ''['' @ Itoa i @ ''] '') (servers_where f (\<lambda>up down. \<not> down \<and> \<not> up))),
           servers_where f (\<lambda>up down. \<not> down \<and> up), servers_where f (\<lambda>up down. down))" for b
    using len
    by (subst fault_loop_eq) (auto simp: enumerate_map servers_where_def filter_map comp_def)
  show ?thesis unfolding annotateFault_def Let_def up loop
    by (simp add: fault_text_def Let_def)
qed

lemma AnnotateContinuousEnd_state [simp]:
  "finfo (AnnotateContinuousEnd tag t s) = finfo s"
  "map_of (continuous (annotation (AnnotateContinuousEnd tag t s))) tag' =
     (if tag' = tag then None else map_of (continuous (annotation s)) tag')"
  by (simp_all add: AnnotateContinuousEnd_def annotateContinuousEnd_def Let_def delete_conv')

lemma AnnotateContinuousColor_state [simp]:
  "finfo (AnnotateContinuousColor tag desp details color t s) = finfo s"
  "map_of (continuous (annotation (AnnotateContinuousColor tag desp details color t s))) tag' =
     (if tag' = tag then Some \<lparr>c_start = t, c_desp = desp, c_details = details, c_bgcolor = color\<rparr>
      else map_of (continuous (annotation s)) tag')"
  by (simp_all add: AnnotateContinuousColor_def annotateContinuousColor_def update_conv' split: option.split)

lemma annotateFault_shown:
  assumes "wf_finfo f" and "finfo s = Some f" and "annotateFault t f s = Inr s'" and "f_nservers f = n"
  shows "fault_shown n s'"
proof -
  have s': "s' = (if all_up f then AnnotateContinuousEnd TAG_PARTITION t s
     else AnnotateContinuousColor TAG_PARTITION (fault_text f) (fault_text f) COLOR_FAULT t s)"
    using assms(3) unfolding annotateFault_eq [OF assms(1)] by simp
  show ?thesis using assms(1,2,4) unfolding s' fault_shown_def by simp
qed

text \<open>The operations that the framework calls between two tests, other than
  \<open>AnnotateTwoPartitions\<close>, which the code's comment excludes.\<close>

inductive ann_step :: "ann_state \<Rightarrow> ann_state \<Rightarrow> bool" where
  connection: "AnnotateConnection cs t s = Inr s' \<Longrightarrow> ann_step s s'"
| shutdown: "AnnotateShutdown ids t s = Inr s' \<Longrightarrow> ann_step s s'"
| restart: "AnnotateRestart ids t s = Inr s' \<Longrightarrow> ann_step s s'"
| shutdown_all: "AnnotateShutdownAll t s = Inr s' \<Longrightarrow> ann_step s s'"
| restart_all: "AnnotateRestartAll t s = Inr s' \<Longrightarrow> ann_step s s'"
| clear_failure: "AnnotateClearFailure t s = Inr s' \<Longrightarrow> ann_step s s'"
| checker_begin: "AnnotateCheckerBegin details t s = Inr s' \<Longrightarrow> ann_step s s'"
| checker_end: "AnnotateCheckerEnd desp details color t s = Inr s' \<Longrightarrow> ann_step s s'"
| point: "ann_step s (AnnotatePointColor tag desp details color t s)"
| interval: "ann_step s (AnnotateIntervalColor tag t0 desp details color t s)"
| other: "tag \<noteq> TAG_PARTITION \<Longrightarrow> ann_step s (AnnotateContinuousColor tag desp details color t s)"
| other_end: "tag \<noteq> TAG_PARTITION \<Longrightarrow> ann_step s (AnnotateContinuousEnd tag t s)"

lemma mark_crashed_length:
  "mark_crashed v ids cr ch = Inr (cr', ch') \<Longrightarrow> length cr' = length cr"
  by (induction v ids cr ch rule: mark_crashed.induct) (auto split: if_splits)

lemma mark_crashed_same:
  "mark_crashed v ids cr ch = Inr (cr', False) \<Longrightarrow> \<not> ch \<and> cr' = cr"
  by (induction v ids cr ch rule: mark_crashed.induct)
    (auto split: if_splits simp: list_update_id)

lemma copied_length [simp]: "length (copied dst src) = length dst"
  by (simp add: copied_def)

lemma set_crashed_shown:
  assumes "fault_shown n s" and "set_crashed v ids t s = Inr s'"
  shows "fault_shown n s'"
proof -
  obtain f where f: "finfo s = Some f" "wf_finfo f" "f_nservers f = n" using assms(1) by (auto simp: fault_shown_def)
  then obtain cr ch where m: "mark_crashed v ids (f_crashed f) False = Inr (cr, ch)"
    using assms(2) by (auto simp: set_crashed_def split: sum.splits)
  show ?thesis
  proof (cases ch)
    case False
    with m have "cr = f_crashed f" using mark_crashed_same by metis
    with m assms(2) f(1) False have "s' = s\<lparr>finfo := Some f\<rparr>" by (simp add: set_crashed_def)
    then show ?thesis using assms(1) f(1) by (simp add: fault_shown_def)
  next
    case True
    have "wf_finfo (f\<lparr>f_crashed := cr\<rparr>)" using f(2) mark_crashed_length [OF m] by (simp add: wf_finfo_def)
    then show ?thesis
      by (rule annotateFault_shown [where s = "s\<lparr>finfo := Some (f\<lparr>f_crashed := cr\<rparr>)\<rparr>" and t = t])
        (use assms(2) f(1,3) m True in \<open>simp_all add: set_crashed_def Let_def\<close>)
  qed
qed

lemma fault_shown_frame:
  assumes "fault_shown n s" and "map_of (continuous (annotation s')) TAG_PARTITION = map_of (continuous (annotation s)) TAG_PARTITION"
    and "\<And>f. finfo s = Some f \<Longrightarrow> \<exists>b. finfo s' = Some (f\<lparr>f_ckbegin := b\<rparr>)"
  shows "fault_shown n s'"
proof -
  obtain f where f: "finfo s = Some f" using assms(1) by (auto simp: fault_shown_def)
  then obtain b where b: "finfo s' = Some (f\<lparr>f_ckbegin := b\<rparr>)" using assms(3) by blast
  have same: "wf_finfo (f\<lparr>f_ckbegin := b\<rparr>) = wf_finfo f" "all_up (f\<lparr>f_ckbegin := b\<rparr>) = all_up f"
    "fault_text (f\<lparr>f_ckbegin := b\<rparr>) = fault_text f"
    by (simp_all add: wf_finfo_def all_up_def fault_text_def servers_where_def)
  show ?thesis using assms(1,2) f by (auto simp: fault_shown_def b same split: option.splits)
qed

lemma same_finfo: "finfo s' = finfo s \<Longrightarrow> finfo s = Some f \<Longrightarrow> \<exists>b. finfo s' = Some (f\<lparr>f_ckbegin := b\<rparr>)"
  by (intro exI [of _ "f_ckbegin f"]) simp

lemma ckbegin_self [simp]: "\<exists>b. f = f\<lparr>f_ckbegin := b\<rparr>"
  by (rule exI [of _ "f_ckbegin f"]) simp

lemma AnnotatePoint_state [simp]:
  "finfo (AnnotatePointColor tag desp details color t s) = finfo s"
  "continuous (annotation (AnnotatePointColor tag desp details color t s)) = continuous (annotation s)"
  "finfo (AnnotateIntervalColor tag t0 desp details color t s) = finfo s"
  "continuous (annotation (AnnotateIntervalColor tag t0 desp details color t s)) = continuous (annotation s)"
  by (simp_all add: AnnotatePointColor_def annotatePointColor_def AnnotateIntervalColor_def annotateIntervalColor_def)

lemma ann_step_shown: "ann_step s s' \<Longrightarrow> fault_shown n s \<Longrightarrow> fault_shown n s'"
proof (induction rule: ann_step.induct)
  case (connection cs t s s')
  obtain f where f: "finfo s = Some f" "wf_finfo f" "f_nservers f = n" using connection(2) by (auto simp: fault_shown_def)
  show ?case
  proof (cases "f_connected f = cs")
    case True
    with connection f show ?thesis by (simp add: AnnotateConnection_def)
  next
    case False
    define f' where "f' = f\<lparr>f_connected := copied (f_connected f) cs\<rparr>"
    have "wf_finfo f'" using f(2) by (simp add: wf_finfo_def f'_def)
    then show ?thesis
      by (rule annotateFault_shown [where s = "s\<lparr>finfo := Some f'\<rparr>" and t = t])
        (use connection(1) f(1,3) False in \<open>simp_all add: AnnotateConnection_def f'_def Let_def\<close>)
  qed
next
  case (shutdown ids t s s')
  then show ?case using set_crashed_shown by (simp add: AnnotateShutdown_def)
next
  case (restart ids t s s')
  then show ?case using set_crashed_shown by (simp add: AnnotateRestart_def)
next
  case (shutdown_all t s s')
  then show ?case using set_crashed_shown
    by (auto simp: AnnotateShutdown_def AnnotateShutdownAll_def split: option.splits)
next
  case (restart_all t s s')
  then show ?case using set_crashed_shown
    by (auto simp: AnnotateRestart_def AnnotateRestartAll_def split: option.splits)
next
  case (clear_failure t s s')
  obtain f where f: "finfo s = Some f" "wf_finfo f" "f_nservers f = n" using clear_failure(2) by (auto simp: fault_shown_def)
  with clear_failure(1) show ?case
    by (auto simp: AnnotateClearFailure_def fault_shown_def wf_finfo_def all_up_def)
next
  case (checker_begin details t s s')
  show ?case
    by (rule fault_shown_frame [OF checker_begin(2)])
      (use checker_begin(1) in \<open>auto simp: AnnotateCheckerBegin_def split: option.splits\<close>)
next
  case (checker_end desp details color t s s')
  from checker_end(1) have "finfo s' = finfo s" "continuous (annotation s') = continuous (annotation s)"
    by (auto simp: AnnotateCheckerEnd_def Let_def split: option.splits if_splits)
  note eq = this
  show ?case by (rule fault_shown_frame [OF checker_end(2)]) (simp add: eq(2), rule same_finfo [OF eq(1)])
next
  case (point s tag desp details color t)
  then show ?case by (rule fault_shown_frame) (auto intro: same_finfo)
next
  case (interval s tag t0 desp details color t)
  then show ?case by (rule fault_shown_frame) (auto intro: same_finfo)
next
  case (other tag s desp details color t)
  then show ?case by (intro fault_shown_frame [OF other(2)]) (auto intro: same_finfo)
next
  case (other_end tag s t)
  then show ?case by (intro fault_shown_frame [OF other_end(2)]) (auto intro: same_finfo)
qed

lemma AnnotateTest_shown: "fault_shown n (AnnotateTest desp n t s)"
  by (auto simp: AnnotateTest_def Let_def AnnotateInfo_def fault_shown_def mkFrameworkInfo_def wf_finfo_def
      all_up_def clear_def)


text \<open>Two servers of which the second crashes.\<close>

definition demo_ann :: ann_state where
  "demo_ann = AnnotateTest ''demo'' 2 5 \<lparr>annotation = mkAnnotation, finfo = None\<rparr>"

lemma demo_crash:
  "\<exists>s'. AnnotateShutdown [1] 7 demo_ann = Inr s' \<and>
     map_of (continuous (annotation s')) TAG_PARTITION =
       Some \<lparr>c_start = 7, c_desp = ''partition = [0] / crash = [1]'',
             c_details = ''partition = [0] / crash = [1]'', c_bgcolor = COLOR_FAULT\<rparr>"
  by (simp add: demo_ann_def AnnotateTest_def AnnotateInfo_def mkFrameworkInfo_def Let_def AnnotateShutdown_def
      set_crashed_def annotateFault_def clear_def show_ints_def Itoa_def digits.simps digit_chars digit_chars(2) [simplified] numeral_2_eq_2)


subsection \<open>Which operations can stop the program\<close>

lemma mark_crashed_ok:
  "(\<exists>r. mark_crashed v ids cr ch = Inr r) \<longleftrightarrow> (\<forall>i \<in> set ids. 0 \<le> i \<and> i < int (length cr))"
  by (induction v ids cr ch rule: mark_crashed.induct) (auto simp: not_less not_le)

lemma set_crashed_ok:
  assumes "finfo s = Some f" and "wf_finfo f"
  shows "(\<exists>s'. set_crashed v ids t s = Inr s') \<longleftrightarrow> (\<forall>i \<in> set ids. 0 \<le> i \<and> i < int (f_nservers f))"
proof (cases "mark_crashed v ids (f_crashed f) False")
  case (Inl e)
  with mark_crashed_ok [of v ids "f_crashed f" False] assms show ?thesis
    by (simp add: set_crashed_def wf_finfo_def)
next
  case (Inr r)
  obtain cr ch where r: "r = (cr, ch)" by (cases r)
  have "wf_finfo (f\<lparr>f_crashed := cr\<rparr>)"
    using assms(2) mark_crashed_length Inr r by (fastforce simp: wf_finfo_def)
  with mark_crashed_ok [of v ids "f_crashed f" False] assms Inr r annotateFault_eq show ?thesis
    by (simp add: set_crashed_def wf_finfo_def Let_def)
qed

lemma reachable_total:
  assumes "ann_step\<^sup>*\<^sup>* (AnnotateTest desp n t s) s'"
  shows "\<exists>f. finfo s' = Some f \<and> length (f_connected f) = n \<and> length (f_crashed f) = n"
    and "(\<exists>s''. AnnotateShutdown ids t' s' = Inr s'') \<longleftrightarrow> (\<forall>i \<in> set ids. 0 \<le> i \<and> i < int n)"
    and "(\<exists>s''. AnnotateRestart ids t' s' = Inr s'') \<longleftrightarrow> (\<forall>i \<in> set ids. 0 \<le> i \<and> i < int n)"
    and "\<exists>s''. AnnotateShutdownAll t' s' = Inr s''" and "\<exists>s''. AnnotateRestartAll t' s' = Inr s''"
    and "\<exists>s''. AnnotateConnection cs t' s' = Inr s''" and "\<exists>s''. AnnotateClearFailure t' s' = Inr s''"
    and "\<exists>s''. AnnotateCheckerBegin d t' s' = Inr s''" and "\<exists>s''. AnnotateCheckerEnd desp' d col t' s' = Inr s''"
proof -
  have "fault_shown n s'"
    using assms by (induction rule: rtranclp_induct) (auto intro: AnnotateTest_shown ann_step_shown)
  then obtain f where f: "finfo s' = Some f" "wf_finfo f" and n: "f_nservers f = n"
    by (auto simp: fault_shown_def)
  note ok = set_crashed_ok [OF f, unfolded n]
  show "\<exists>f. finfo s' = Some f \<and> length (f_connected f) = n \<and> length (f_crashed f) = n"
    using f n by (simp add: wf_finfo_def)
  show "(\<exists>s''. AnnotateShutdown ids t' s' = Inr s'') \<longleftrightarrow> (\<forall>i \<in> set ids. 0 \<le> i \<and> i < int n)"
    "(\<exists>s''. AnnotateRestart ids t' s' = Inr s'') \<longleftrightarrow> (\<forall>i \<in> set ids. 0 \<le> i \<and> i < int n)"
    by (simp_all add: AnnotateShutdown_def AnnotateRestart_def ok)
  show "\<exists>s''. AnnotateShutdownAll t' s' = Inr s''" "\<exists>s''. AnnotateRestartAll t' s' = Inr s''"
    by (simp_all add: AnnotateShutdownAll_def AnnotateRestartAll_def AnnotateShutdown_def AnnotateRestart_def f(1) n ok)
  have "wf_finfo (f\<lparr>f_connected := copied (f_connected f) cs\<rparr>)" using f(2) by (simp add: wf_finfo_def)
  then show "\<exists>s''. AnnotateConnection cs t' s' = Inr s''"
    by (simp add: AnnotateConnection_def f(1) Let_def annotateFault_eq)
  show "\<exists>s''. AnnotateClearFailure t' s' = Inr s''" "\<exists>s''. AnnotateCheckerBegin d t' s' = Inr s''"
    "\<exists>s''. AnnotateCheckerEnd desp' d col t' s' = Inr s''"
    by (simp_all add: AnnotateClearFailure_def AnnotateCheckerBegin_def AnnotateCheckerEnd_def f(1) Let_def)
qed

text \<open>C39. In a test of \<open>n\<close> servers the state keeps its shape (two flags for each server), so no
  annotation stops the program except \<open>AnnotateShutdown\<close> and \<open>AnnotateRestart\<close> with a server
  number outside \<open>0\<dots>n-1\<close>; those panic exactly then.\<close>

theorem annotations_total:
  assumes "ann_step\<^sup>*\<^sup>* (AnnotateTest desp n t s) s'"
  shows "(\<exists>f. finfo s' = Some f \<and> length (f_connected f) = n \<and> length (f_crashed f) = n) \<and>
    ((\<exists>s''. AnnotateShutdown ids t' s' = Inr s'') \<longleftrightarrow> (\<forall>i \<in> set ids. 0 \<le> i \<and> i < int n)) \<and>
    ((\<exists>s''. AnnotateRestart ids t' s' = Inr s'') \<longleftrightarrow> (\<forall>i \<in> set ids. 0 \<le> i \<and> i < int n)) \<and>
    (\<exists>s''. AnnotateShutdownAll t' s' = Inr s'') \<and> (\<exists>s''. AnnotateRestartAll t' s' = Inr s'') \<and>
    (\<exists>s''. AnnotateConnection cs t' s' = Inr s'') \<and> (\<exists>s''. AnnotateClearFailure t' s' = Inr s'') \<and>
    (\<exists>s''. AnnotateCheckerBegin d t' s' = Inr s'') \<and> (\<exists>s''. AnnotateCheckerEnd desp' d col t' s' = Inr s'')"
  by (intro conjI reachable_total [OF assms])

theorem annotations_total_witness:
  "(\<exists>s. AnnotateShutdown [0, 1] 7 demo_ann = Inr s) \<and> \<not> (\<exists>s. AnnotateShutdown [0, 2] 7 demo_ann = Inr s)"
  using annotations_total [of "''demo''" 2 5 "\<lparr>annotation = mkAnnotation, finfo = None\<rparr>" demo_ann "[0, 1]" 7 "[]" "[]" "[]" "[]"]
    annotations_total [of "''demo''" 2 5 "\<lparr>annotation = mkAnnotation, finfo = None\<rparr>" demo_ann "[0, 2]" 7 "[]" "[]" "[]" "[]"]
  by (simp add: demo_ann_def)

subsection \<open>Continuous annotations cover the time between them\<close>

text \<open>A call of \<open>annotateContinuousColor\<close> and what the log should hold in the end: each call's
  annotation lasts until the next call with the same tag, the last one until \<open>t\<close>.\<close>

record call_at =
  a_tag :: string
  a_desp :: string
  a_details :: string
  a_color :: string
  a_time :: int

definition run_calls :: "call_at list \<Rightarrow> Annotation \<Rightarrow> Annotation" where
  "run_calls cs an = fold (\<lambda>c. annotateContinuousColor (a_tag c) (a_desp c) (a_details c) (a_color c) (a_time c)) cs an"

definition lasting :: "call_at \<Rightarrow> int \<Rightarrow> Ann" where
  "lasting c t = \<lparr>Tag = a_tag c, Start = a_time c, End = t, Description = a_desp c,
     Details = a_details c, BackgroundColor = a_color c\<rparr>"

fun covering :: "call_at list \<Rightarrow> int \<Rightarrow> Ann list" where
  "covering [] t = []"
| "covering [c] t = [lasting c t]"
| "covering (c # d # cs) t = lasting c (a_time d) # covering (d # cs) t"

lemma covering_snoc:
  "cs \<noteq> [] \<Longrightarrow> covering (cs @ [c]) t = covering cs (a_time c) @ [lasting c t]"
  by (induction cs t rule: covering.induct) auto

lemma filter_key:
  "wf_map m \<Longrightarrow> filter (\<lambda>p. fst p = k) m = (case map_of m k of None \<Rightarrow> [] | Some v \<Rightarrow> [(k, v)])"
proof (induction m)
  case (Cons p m)
  moreover have "fst p \<notin> fst ` set m \<Longrightarrow> filter (\<lambda>q. fst q = fst p) m = []"
    unfolding filter_empty_conv by (metis imageI)
  ultimately show ?case by (cases p) (auto split: option.splits)
qed simp

lemma map_of_order:
  assumes "wf_map m" and "mset order = mset m"
  shows "wf_map order" and "map_of order = map_of m"
proof -
  show d: "wf_map order" using assms mset_eq_imp_distinct_iff by (metis mset_map)
  have "set order = set m" using assms(2) by (metis set_mset_mset)
  then show "map_of order = map_of m" using assms(1) d by (metis map_of_inject_set)
qed

text \<open>What the log has for a tag when it is closed at \<open>t\<close>.\<close>

definition closed_log :: "string \<Rightarrow> Annotation \<Rightarrow> int \<Rightarrow> Ann list" where
  "closed_log tag an t = filter (\<lambda>a. Tag a = tag) (annotations an) @
     (case map_of (continuous an) tag of None \<Rightarrow> [] | Some c \<Rightarrow> [concretize tag c t])"

lemma finalize_closed_log:
  assumes "wf_map (continuous an)" and "mset order = mset (continuous an)"
  shows "filter (\<lambda>a. Tag a = tag) (fst (finalize order t an)) = closed_log tag an t"
proof -
  have "filter (\<lambda>a. Tag a = tag) (map (\<lambda>(tag, c). concretize tag c t) order) =
      map (\<lambda>(tag, c). concretize tag c t) (filter (\<lambda>p. fst p = tag) order)"
    by (simp add: filter_map comp_def concretize_def case_prod_unfold)
  then show ?thesis
    by (simp add: finalize_def closed_log_def filter_key [OF map_of_order(1) [OF assms]]
        map_of_order(2) [OF assms] split: option.split)
qed

lemma run_calls_snoc:
  "run_calls (cs @ [c]) an =
     annotateContinuousColor (a_tag c) (a_desp c) (a_details c) (a_color c) (a_time c) (run_calls cs an)"
  by (simp add: run_calls_def)

lemma run_calls_inv:
  assumes "annotations an = []" and "continuous an = []"
  shows "wf_map (continuous (run_calls cs an)) \<and>
    closed_log tag (run_calls cs an) t = covering (filter (\<lambda>c. a_tag c = tag) cs) t \<and>
    (map_of (continuous (run_calls cs an)) tag = None \<longleftrightarrow> filter (\<lambda>c. a_tag c = tag) cs = [])"
proof (induction cs arbitrary: t rule: rev_induct)
  case Nil
  then show ?case by (simp add: run_calls_def assms closed_log_def)
next
  case (snoc c cs)
  let ?an = "run_calls cs an"
  have step: "closed_log tag (run_calls (cs @ [c]) an) t =
      (if a_tag c = tag then closed_log tag ?an (a_time c) @ [lasting c t] else closed_log tag ?an t)"
    by (auto simp: run_calls_snoc annotateContinuousColor_def closed_log_def update_conv' concretize_def
        lasting_def split: option.splits)
  have ongoing: "map_of (continuous (run_calls (cs @ [c]) an)) tag = None \<longleftrightarrow>
      a_tag c \<noteq> tag \<and> map_of (continuous ?an) tag = None"
    and wf: "wf_map (continuous ?an) \<Longrightarrow> wf_map (continuous (run_calls (cs @ [c]) an))"
    by (simp_all add: run_calls_snoc annotateContinuousColor_def distinct_update update_conv' split: option.split)
  show ?case unfolding step ongoing
    using snoc.IH [of t] snoc.IH [of "a_time c"] wf
    by (auto simp: covering_snoc closed_log_def simp del: map_of_eq_None_iff)
qed

text \<open>C30. Continuous annotations tile the time of a test: whatever calls for whatever tags are
  interleaved after the log was cleared, and in whatever order \<open>finalize\<close> visits the ongoing ones,
  the annotations it returns for a tag are, in order, one for each call with that tag, each lasting
  from its call to the next call with the tag and the last one to the moment of \<open>finalize\<close>.\<close>

theorem continuous_tile_time:
  assumes "an = run_calls cs (clear an0)" and "mset order = mset (continuous an)"
  shows "filter (\<lambda>a. Tag a = tag) (fst (finalize order t an)) = covering (filter (\<lambda>c. a_tag c = tag) cs) t"
  using run_calls_inv [of "clear an0" cs tag t] finalize_closed_log [OF _ assms(2)]
  by (simp add: clear_def assms(1))

definition demo_calls :: "call_at list" where
  "demo_calls = [\<lparr>a_tag = ''A'', a_desp = ''x'', a_details = ''x'', a_color = COLOR_USER, a_time = 1\<rparr>,
     \<lparr>a_tag = ''B'', a_desp = ''y'', a_details = ''y'', a_color = COLOR_USER, a_time = 2\<rparr>,
     \<lparr>a_tag = ''A'', a_desp = ''z'', a_details = ''z'', a_color = COLOR_USER, a_time = 3\<rparr>]"

theorem continuous_tile_time_witness:
  "map (\<lambda>a. (Description a, Start a, End a))
     (filter (\<lambda>a. Tag a = ''A'') (fst (finalize (rev (continuous (run_calls demo_calls (clear mkAnnotation)))) 9
        (run_calls demo_calls (clear mkAnnotation))))) = [(''x'', 1, 3), (''z'', 3, 9)]"
  using continuous_tile_time [of "run_calls demo_calls (clear mkAnnotation)" demo_calls mkAnnotation
    "rev (continuous (run_calls demo_calls (clear mkAnnotation)))" "''A''" 9]
  by (simp add: demo_calls_def lasting_def)

subsection \<open>Ends without a beginning, and the checker's beginning\<close>

text \<open>Ending a continuous annotation that was never begun records one all the same: it starts
  at time zero, with empty text. \<open>AnnotateClearFailure\<close> on servers that are all up does so.\<close>

theorem end_without_begin:
  assumes "map_of (continuous an) tag = None"
  shows "annotations (annotateContinuousEnd tag t an) =
    annotations an @ [\<lparr>Tag = tag, Start = 0, End = t, Description = [], Details = [], BackgroundColor = []\<rparr>]"
  using assms by (simp add: annotateContinuousEnd_def concretize_def zero_continuous_def)

theorem end_without_begin_witness:
  "\<exists>s. AnnotateClearFailure 9 demo_ann = Inr s \<and>
     last (annotations (annotation s)) =
       \<lparr>Tag = TAG_PARTITION, Start = 0, End = 9, Description = [], Details = [], BackgroundColor = []\<rparr>"
proof -
  have "map_of (continuous (annotation demo_ann)) TAG_PARTITION = None"
    by (simp add: demo_ann_def AnnotateTest_def AnnotateInfo_def Let_def clear_def)
  from end_without_begin [OF this, of 9] show ?thesis
    by (simp add: AnnotateClearFailure_def demo_ann_def AnnotateTest_def AnnotateInfo_def Let_def
        AnnotateContinuousEnd_def AnnotatePointColor_def mkFrameworkInfo_def)
qed

text \<open>The beginning of a check is never reset: after one \<open>AnnotateCheckerBegin\<close>, every later
  result of a check, however many there are, is recorded as an interval from that beginning and
  with that beginning's text in front, until the next \<open>AnnotateCheckerBegin\<close>.\<close>

theorem checker_begin_stays:
  assumes "AnnotateCheckerBegin d t s = Inr s0" and "t \<noteq> 0"
    and "each (\<lambda>(desp, details, color, t'). AnnotateCheckerEnd desp details color t') ends s0 = Inr s'"
  shows "annotations (annotation s') = annotations (annotation s) @
    map (\<lambda>(desp, details, color, t'). \<lparr>Tag = TAG_CHECKER, Start = t, End = t', Description = desp,
           Details = d @ '': '' @ details, BackgroundColor = color\<rparr>) ends"
proof -
  obtain f where f: "finfo s0 = Some f" "f_ckbegin f = \<lparr>ck_ts = t, ck_details = d\<rparr>"
    and an: "annotation s0 = annotation s"
    using assms(1) by (auto simp: AnnotateCheckerBegin_def split: option.splits)
  show ?thesis using assms(3) f(1) unfolding an [symmetric]
  proof (induction ends arbitrary: s0)
    case (Cons e es)
    obtain desp details color t' where e: "e = (desp, details, color, t')" by (cases e)
    define s1 where "s1 = AnnotateIntervalColor TAG_CHECKER t desp (d @ '': '' @ details) color t' s0"
    have "AnnotateCheckerEnd desp details color t' s0 = Inr s1"
      using Cons.prems(2) f(2) assms(2) by (simp add: AnnotateCheckerEnd_def s1_def)
    with Cons.prems Cons.IH [of s1] show ?case
      by (simp add: e s1_def) (simp add: AnnotateIntervalColor_def annotateIntervalColor_def)
  qed simp
qed

theorem checker_begin_stays_witness:
  "\<exists>s0 s'. AnnotateCheckerBegin ''c'' 6 demo_ann = Inr s0 \<and>
     each (\<lambda>(desp, details, color, t'). AnnotateCheckerEnd desp details color t')
       [(''a'', ''1'', COLOR_SUCCESS, 7), (''b'', ''2'', COLOR_SUCCESS, 8)] s0 = Inr s' \<and>
     map Start (drop (length (annotations (annotation demo_ann))) (annotations (annotation s'))) = [6, 6]"
proof -
  obtain s0 where s0: "AnnotateCheckerBegin ''c'' 6 demo_ann = Inr s0"
    by (simp add: AnnotateCheckerBegin_def demo_ann_def AnnotateTest_def AnnotateInfo_def Let_def)
  have "\<exists>s'. each (\<lambda>(desp, details, color, t'). AnnotateCheckerEnd desp details color t')
       [(''a'', ''1'', COLOR_SUCCESS, 7), (''b'', ''2'', COLOR_SUCCESS, 8)] s0 = Inr s'"
    using s0 by (auto simp: AnnotateCheckerBegin_def AnnotateCheckerEnd_def Let_def split: option.splits)
  then obtain s' where s': "each (\<lambda>(desp, details, color, t'). AnnotateCheckerEnd desp details color t')
       [(''a'', ''1'', COLOR_SUCCESS, 7), (''b'', ''2'', COLOR_SUCCESS, 8)] s0 = Inr s'" by blast
  from checker_begin_stays [OF s0 _ s'] s0 s' show ?thesis by auto
qed

end
