(* ===== verification/Test_Config.thy ===== *)
theory Test_Config
  imports Server_Groups Clients Annotations
begin

section \<open>The configuration of a test (tester1/config.go)\<close>

text \<open>
  A test owns one network, the server groups, the clients, its clocks and counters, and the
  annotations. Groups and clients hold the same network in the code; here it is the one in the
  groups' environment, and a client operation is run on it and writes it back. The methods of
  \<open>testing.T\<close> are the flag \<open>cf_failed\<close> and the error \<open>TimedOut\<close> of \<open>t.Fatal\<close>. The wall clock is an
  argument, in nanoseconds. Printing is not modelled beyond the numbers that are printed.
\<close>

abbreviation GRP0 :: Tgid where
  "GRP0 \<equiv> 0"

record ('svc, 'w) Config =
  cf_groups :: "('svc, 'w) Groups"
  cf_clnts :: Clnts
  cf_start :: int
  cf_t0 :: int
  cf_rpcs0 :: int
  cf_ops :: "32 word"
  cf_failed :: bool
  cf_ann :: Annotation

datatype cfg_fail = CGroup grp_error | CClnt clnt_error | TimedOut

definition cf_net :: "('svc, 'w) Config \<Rightarrow> Network" where
  "cf_net c = net (genv (cf_groups c))"

definition set_net :: "Network \<Rightarrow> ('svc, 'w) Config \<Rightarrow> ('svc, 'w) Config" where
  "set_net rn c = c\<lparr>cf_groups := (cf_groups c)\<lparr>genv := (genv (cf_groups c))\<lparr>net := rn\<rparr>\<rparr>\<rparr>"

text \<open>An operation of the groups, and one of the clients on the shared network.\<close>

definition on_groups ::
  "(('svc, 'w) Groups \<Rightarrow> grp_error + ('svc, 'w) Groups) \<Rightarrow> ('svc, 'w) Config \<Rightarrow> cfg_fail + ('svc, 'w) Config" where
  "on_groups f c = (case f (cf_groups c) of Inl e \<Rightarrow> Inl (CGroup e) | Inr gs \<Rightarrow> Inr (c\<lparr>cf_groups := gs\<rparr>))"

definition on_clnts :: "(Clnts \<Rightarrow> clnt_error + Clnts) \<Rightarrow> ('svc, 'w) Config \<Rightarrow> cfg_fail + ('svc, 'w) Config" where
  "on_clnts f c = (case f ((cf_clnts c)\<lparr>w_net := cf_net c\<rparr>) of
      Inl e \<Rightarrow> Inl (CClnt e)
    | Inr w \<Rightarrow> Inr (set_net (w_net w) (c\<lparr>cf_clnts := w\<rparr>)))"

subsection \<open>Setting up\<close>

definition SetReliable :: "bool \<Rightarrow> ('svc, 'w) Config \<Rightarrow> ('svc, 'w) Config" where
  "SetReliable b c = set_net (Reliable b (cf_net c)) c"

definition IsReliable :: "('svc, 'w) Config \<Rightarrow> bool" where
  "IsReliable c = reliable (cf_net c)"

definition SetLongReordering :: "bool \<Rightarrow> ('svc, 'w) Config \<Rightarrow> ('svc, 'w) Config" where
  "SetLongReordering b c = set_net (LongReordering b (cf_net c)) c"

definition SetLongDelays :: "bool \<Rightarrow> ('svc, 'w) Config \<Rightarrow> ('svc, 'w) Config" where
  "SetLongDelays b c = set_net (LongDelays b (cf_net c)) c"

text \<open>The environment before the first group: the new network and nothing else.\<close>

definition empty_env :: "('svc, 'w) env" where
  "empty_env = \<lparr>net = MakeNetwork, store = init_pstore, labs = [], killed = []\<rparr>"

definition MakeConfig ::
  "'svc mks \<Rightarrow> ('svc option \<Rightarrow> 'w Service) \<Rightarrow> (nat \<Rightarrow> nat \<Rightarrow> ename) \<Rightarrow> (int \<Rightarrow> nat \<Rightarrow> ename) \<Rightarrow>
   nat \<Rightarrow> bool \<Rightarrow> int \<Rightarrow> Annotation \<Rightarrow> cfg_fail + ('svc, 'w) Config" where
  "MakeConfig mks svcOf rnd rnd' n rel now an =
     (case MakeGroupStart mks svcOf rnd rnd' GRP0 n (newGroups empty_env) of
        Inl e \<Rightarrow> Inl (CGroup e)
      | Inr gs \<Rightarrow> Inr (SetReliable rel
          \<lparr>cf_groups = gs, cf_clnts = makeClnts (net (genv gs)), cf_start = now, cf_t0 = 0, cf_rpcs0 = 0,
           cf_ops = 0, cf_failed = False, cf_ann = an\<rparr>))"

subsection \<open>Statistics and the end of a test\<close>

definition RpcTotal :: "('svc, 'w) Config \<Rightarrow> int" where
  "RpcTotal c = GetTotalCount (cf_net c)"

definition BytesTotal :: "('svc, 'w) Config \<Rightarrow> int" where
  "BytesTotal c = GetTotalBytes (cf_net c)"

text \<open>The line that \<open>Begin\<close> prints, and the new state.\<close>

definition Begin :: "string \<Rightarrow> int \<Rightarrow> ('svc, 'w) Config \<Rightarrow> string \<times> ('svc, 'w) Config" where
  "Begin description now c =
     (let rel = (if \<not> IsReliable c then ''unreliable'' else ''reliable'')
      in (description @ '' ('' @ rel @ '' network)...'',
          c\<lparr>cf_t0 := now, cf_rpcs0 := RpcTotal c, cf_ops := 0\<rparr>))"

definition Op :: "('svc, 'w) Config \<Rightarrow> ('svc, 'w) Config" where
  "Op c = c\<lparr>cf_ops := cf_ops c + 1\<rparr>"

definition CheckTimeout :: "int \<Rightarrow> ('svc, 'w) Config \<Rightarrow> cfg_fail + unit" where
  "CheckTimeout now c =
     (if \<not> cf_failed c \<and> now - cf_start c > 120 * 1000000000 then Inl TimedOut else Inr ())"

text \<open>The numbers of the line that \<open>End\<close> prints: time, servers, requests, operations.\<close>

definition End :: "int \<Rightarrow> ('svc, 'w) Config \<Rightarrow> cfg_fail + (int \<times> nat \<times> int \<times> int) option" where
  "End now c = (case CheckTimeout now c of
      Inl e \<Rightarrow> Inl e
    | Inr _ \<Rightarrow>
        if cf_failed c = False then
          (case map_of (grps (cf_groups c)) GRP0 of
             None \<Rightarrow> Inl (CGroup NilGroup)
           | Some sg \<Rightarrow> Inr (Some (now - cf_t0 c, length (srvs sg), RpcTotal c - cf_rpcs0 c, sint (cf_ops c))))
        else Inr None)"

definition Config_Cleanup ::
  "string \<Rightarrow> string \<Rightarrow> bool \<Rightarrow> (string \<times> Continuous) list \<Rightarrow> int \<Rightarrow> int \<Rightarrow> int \<Rightarrow>
   ('svc, 'w) Config \<Rightarrow> cfg_fail + vis \<times> ('svc, 'w) Config" where
  "Config_Cleanup vis_enable fpath opened order t t' now c =
     (case on_clnts Clnts_cleanup c of
        Inl e \<Rightarrow> Inl e
      | Inr c1 \<Rightarrow>
     (case on_groups Groups_cleanup c1 of
        Inl e \<Rightarrow> Inl e
      | Inr c2 \<Rightarrow>
          (let c3 = set_net (Rpc_Net.Cleanup (cf_net c2)) c2;
               (v, an) = (if cf_failed c3 then cleanup vis_enable fpath opened True ''test failed'' order t t' (cf_ann c3)
                          else cleanup vis_enable fpath opened False ''test passed'' order t t' (cf_ann c3));
               c4 = c3\<lparr>cf_ann := an\<rparr>
           in case CheckTimeout now c4 of Inl e \<Rightarrow> Inl e | Inr _ \<Rightarrow> Inr (v, c4))))"

definition Config_Group :: "Tgid \<Rightarrow> ('svc, 'w) Config \<Rightarrow> 'svc ServerGrp option" where
  "Config_Group g c = map_of (grps (cf_groups c)) g"

text \<open>\<open>Fatalf\<close>: what it prints, and the test marked as failed; \<open>Fatalf\<close> does not return, as
  \<open>FailNow\<close> ends the goroutine. \<open>frames\<close> is the call stack, of which at most 50 frames are looked
  at; a line is printed for each frame in a test file. Without a stack it panics (\<open>None\<close>).\<close>

fun contains :: "string \<Rightarrow> string \<Rightarrow> bool" where
  "contains [] sub \<longleftrightarrow> sub = []"
| "contains (c # s) sub \<longleftrightarrow> take (length sub) (c # s) = sub \<or> contains s sub"

definition Fatalf :: "string \<Rightarrow> (string \<times> nat) list \<Rightarrow> ('svc, 'w) Config \<Rightarrow> (string list \<times> ('svc, 'w) Config) option" where
  "Fatalf msg frames c =
     (let pc = take 50 frames in
      if pc = [] then None
      else Some ((''Fatal: '' @ msg) #
          map (\<lambda>(file, ln). ''        '' @ file @ '':'' @ digits ln) (filter (\<lambda>(file, ln). contains file ''test.go'') pc),
        c\<lparr>cf_failed := True\<rparr>))"

text \<open>An interrupt signal: the annotations collected so far are written out, and the process exits
  with code 1.\<close>

definition on_interrupt ::
  "string \<Rightarrow> string \<Rightarrow> bool \<Rightarrow> (string \<times> Continuous) list \<Rightarrow> int \<Rightarrow> int \<Rightarrow> ('svc, 'w) Config \<Rightarrow> vis \<times> nat" where
  "on_interrupt vis_enable fpath opened order t t' c =
     (let (v, an) = cleanup vis_enable fpath opened True ''interrupted'' order t t' (cf_ann c) in (v, 1))"

lemma Fatalf_then_failed: "Fatalf msg frames c = Some (ls, c') \<Longrightarrow> cf_failed c' \<and> hd ls = ''Fatal: '' @ msg"
  by (auto simp: Fatalf_def Let_def split: if_splits)

text \<open>\<^verbatim>\<open>kvtest1/kvtest.go\<close>: the end of a key/value test, and connecting its clients.\<close>

definition kvtest_Cleanup ::
  "string \<Rightarrow> string \<Rightarrow> bool \<Rightarrow> (string \<times> Continuous) list \<Rightarrow> int \<Rightarrow> int \<Rightarrow> int \<Rightarrow>
   ('svc, 'w) Config \<Rightarrow> cfg_fail + (int \<times> nat \<times> int \<times> int) option \<times> vis \<times> ('svc, 'w) Config" where
  "kvtest_Cleanup vis_enable fpath opened order t t' now c = (case End now c of
      Inl e \<Rightarrow> Inl e
    | Inr line \<Rightarrow> (case Config_Cleanup vis_enable fpath opened order t t' now c of
        Inl e \<Rightarrow> Inl e
      | Inr r \<Rightarrow> Inr (line, r)))"

fun ConnectClnts :: "Clnt list \<Rightarrow> Network \<Rightarrow> Clnt list \<times> Network" where
  "ConnectClnts [] rn = ([], rn)"
| "ConnectClnts (c # cs) rn = (case Clnt_ConnectAll c rn of (c', rn1) \<Rightarrow>
     case ConnectClnts cs rn1 of (cs', rn2) \<Rightarrow> (c' # cs', rn2))"

text \<open>\<open>rs\<close> are the random draws, one for each byte.\<close>

definition RandValue :: "nat list \<Rightarrow> string" where
  "RandValue rs = (let letterBytes = ''abcdefghijklmnopqrstuvwxyzABCDEFGHIJKLMNOPQRSTUVWXYZ''
     in map (\<lambda>r. letterBytes ! (r mod length letterBytes)) rs)"

lemma RandValue_shape:
  "length (RandValue rs) = length rs"
  "c \<in> set (RandValue rs) \<Longrightarrow> c \<in> set ''abcdefghijklmnopqrstuvwxyzABCDEFGHIJKLMNOPQRSTUVWXYZ''"
proof -
  have "xs \<noteq> [] \<Longrightarrow> xs ! (r mod length xs) \<in> set xs" for xs :: string and r by (simp add: nth_mem)
  then have "set (map (\<lambda>r. xs ! (r mod length xs)) rs) \<subseteq> set xs" if "xs \<noteq> []" for xs :: string
    using that by auto
  then show "c \<in> set (RandValue rs) \<Longrightarrow> c \<in> set ''abcdefghijklmnopqrstuvwxyzABCDEFGHIJKLMNOPQRSTUVWXYZ''"
    unfolding RandValue_def Let_def by blast
qed (simp add: RandValue_def)

subsection \<open>Random strings and random orders\<close>

text \<open>\<^verbatim>\<open>base64.URLEncoding\<close>: three bytes are four letters, and \<open>=\<close> pads.\<close>

definition b64_alphabet :: string where
  "b64_alphabet = ''ABCDEFGHIJKLMNOPQRSTUVWXYZabcdefghijklmnopqrstuvwxyz0123456789-_''"

definition b64_letter :: "nat \<Rightarrow> char" where
  "b64_letter k = b64_alphabet ! (k mod 64)"

fun b64 :: "bytes \<Rightarrow> string" where
  "b64 [] = []"
| "b64 [a] = (let v = unat a * 16 in [b64_letter (v div 64), b64_letter v, CHR ''='', CHR ''=''])"
| "b64 [a, b] = (let v = (unat a * 256 + unat b) * 4 in
     [b64_letter (v div 4096), b64_letter (v div 64), b64_letter v, CHR ''=''])"
| "b64 (a # b # c # bs) = (let v = unat a * 65536 + unat b * 256 + unat c in
     b64_letter (v div 262144) # b64_letter (v div 4096) # b64_letter (v div 64) # b64_letter v # b64 bs)"

text \<open>\<open>b\<close> are the \<open>2 * n\<close> random bytes.\<close>

definition Randstring :: "nat \<Rightarrow> bytes \<Rightarrow> string" where
  "Randstring n b = (let s = b64 b in take n s)"

text \<open>\<open>bigx\<close> is what \<^verbatim>\<open>crand.Int\<close> draws below \<open>max\<close>.\<close>

definition makeSeed :: "(int \<Rightarrow> int) \<Rightarrow> int" where
  "makeSeed crand_Int = (let max = 2 ^ 62; bigx = crand_Int max; x = bigx in x)"

definition swap :: "nat \<Rightarrow> nat \<Rightarrow> 'a list \<Rightarrow> 'a list" where
  "swap i j sa = sa[i := sa ! j, j := sa ! i]"

text \<open>\<open>js\<close> are the values of \<open>rand.Intn(i + 1)\<close>, one for each position.\<close>

definition random_handles :: "nat list \<Rightarrow> 'a list \<Rightarrow> 'a list" where
  "random_handles js kvh = fold (\<lambda>(i, j) sa. swap i j sa) (enumerate 0 js) kvh"

subsection \<open>A new test is ready\<close>

lemma cf_net_set_net [simp]: "cf_net (set_net rn c) = rn"
  by (simp add: cf_net_def set_net_def)

lemma set_net_frame [simp]:
  "grps (cf_groups (set_net rn c)) = grps (cf_groups c)" "cf_clnts (set_net rn c) = cf_clnts c"
  "cf_failed (set_net rn c) = cf_failed c" "cf_start (set_net rn c) = cf_start c"
  "cf_ann (set_net rn c) = cf_ann c" "cf_t0 (set_net rn c) = cf_t0 c" "cf_rpcs0 (set_net rn c) = cf_rpcs0 c"
  "cf_ops (set_net rn c) = cf_ops c"
  by (simp_all add: set_net_def)

lemma Reliable_tables [simp]:
  "is_enabled (Reliable b rn) e = is_enabled rn e" "connection (Reliable b rn) e = connection rn e"
  "server_at (Reliable b rn) s = server_at rn s" "longReordering (Reliable b rn) = longReordering rn"
  "reliable (Reliable b rn) = b"
  by (simp_all add: Reliable_def is_enabled_def connection_def server_at_def)

lemma readEndnameInfo_Reliable [simp]:
  "readEndnameInfo (Reliable b rn) e = (readEndnameInfo rn e)\<lparr>i_reliable := b\<rparr>"
  by (simp add: readEndnameInfo_def split: option.split)

lemma MakeConfig_links:
  fixes mks :: "'svc mks" and svcOf :: "'svc option \<Rightarrow> 'w Service"
  assumes "fresh_names rnd n MakeNetwork" and "fresh_names (\<lambda>i. rnd' (int i)) n MakeNetwork"
    and "\<forall>i < n. \<forall>j < n. \<forall>i' < n. \<forall>j' < n. rnd i j \<noteq> rnd' (int i') j'"
  shows "\<exists>c sg. MakeConfig mks svcOf rnd rnd' n b now an = Inr c \<and>
    map_of (grps (cf_groups c)) GRP0 = Some sg \<and> length (srvs sg) = n \<and>
    IsReliable c = b \<and> clerks (cf_clnts c) = Some [] \<and>
    (\<forall>i < n. \<forall>j < n. readEndnameInfo (cf_net c) (link sg i j) =
       \<lparr>i_enabled = True, i_servername = Some (ServerName GRP0 (int j)), i_server = Some j,
        i_reliable = b, i_longreordering = longReordering (cf_net c)\<rparr>)"
proof -
  obtain sg :: "'svc ServerGrp" and rn sg' and v' :: "('svc, 'w) env" where
    mk: "makeSrvGrp rnd GRP0 n MakeNetwork = Inr (sg, rn)"
    and st: "StartServers mks svcOf rnd' (sg, empty_env\<lparr>net := rn\<rparr>) = Inr (sg', v')"
    and n: "length (srvs sg') = n"
    and links: "\<forall>i < n. \<forall>j < n. readEndnameInfo (net v') (link sg' i j) =
       \<lparr>i_enabled = True, i_servername = Some (ServerName GRP0 (int j)), i_server = Some j,
        i_reliable = reliable (net v'), i_longreordering = longReordering (net v')\<rparr>"
    using group_wired_up [of rnd n "empty_env :: ('svc, 'w) env" rnd' GRP0 mks svcOf] assms
    by (auto simp: empty_env_def)
  define c where "c = SetReliable b
    \<lparr>cf_groups = \<lparr>grps = AList.update GRP0 sg' (AList.update GRP0 sg []), genv = v'\<rparr>,
     cf_clnts = makeClnts (net v'), cf_start = now, cf_t0 = 0, cf_rpcs0 = 0, cf_ops = 0, cf_failed = False, cf_ann = an\<rparr>"
  have "MakeConfig mks svcOf rnd rnd' n b now an = Inr c"
    using mk st by (simp add: MakeConfig_def MakeGroupStart_def MakeGroup_def newGroups_def empty_env_def on_group_def c_def)
  moreover have "map_of (grps (cf_groups c)) GRP0 = Some sg'"
    by (simp add: c_def SetReliable_def)
  moreover have "IsReliable c = b" "clerks (cf_clnts c) = Some []"
    by (simp_all add: c_def SetReliable_def IsReliable_def Reliable_def makeClnts_def)
  moreover have "cf_net c = Reliable b (net v')" by (simp add: c_def SetReliable_def) (simp add: cf_net_def)
  moreover have "longReordering (Reliable b (net v')) = longReordering (net v')" by (simp add: Reliable_def)
  ultimately show ?thesis using n links by (intro exI [of _ c] exI [of _ sg']) simp
qed

text \<open>C31. If the random end names that are drawn are distinct, \<open>MakeConfig\<close> succeeds and the test
  starts as it should: group 0 has \<open>n\<close> servers, every server reaches every server through an
  enabled end that leads to the server's own RPC server, the network is reliable exactly if asked
  for, and there are no clients.\<close>

theorem MakeConfig_ready:
  fixes mks :: "'svc mks" and svcOf :: "'svc option \<Rightarrow> 'w Service"
  assumes "fresh_names rnd n MakeNetwork" and "fresh_names (\<lambda>i. rnd' (int i)) n MakeNetwork"
    and "\<forall>i < n. \<forall>j < n. \<forall>i' < n. \<forall>j' < n. rnd i j \<noteq> rnd' (int i') j'"
  shows "\<exists>c sg. MakeConfig mks svcOf rnd rnd' n b now an = Inr c \<and>
    map_of (grps (cf_groups c)) GRP0 = Some sg \<and> length (srvs sg) = n \<and>
    IsReliable c = b \<and> clerks (cf_clnts c) = Some [] \<and>
    (\<forall>i < n. \<forall>j < n. readEndnameInfo (cf_net c) (link sg i j) =
       \<lparr>i_enabled = True, i_servername = Some (ServerName GRP0 (int j)), i_server = Some j,
        i_reliable = b, i_longreordering = longReordering (cf_net c)\<rparr>)"
  using assms by (rule MakeConfig_links)

theorem MakeConfig_ready_witness:
  "\<exists>(c :: (nat, nat) Config) sg. MakeConfig (\<lambda>es g i p. [Some p]) (\<lambda>s. MakeService ''KV'' [])
     (\<lambda>i j. Itoa (2 * int i + int j)) (\<lambda>i j. Itoa (100 + 2 * i + int j)) 2 False 0 mkAnnotation = Inr c \<and>
     map_of (grps (cf_groups c)) GRP0 = Some sg \<and> length (srvs sg) = 2 \<and> \<not> IsReliable c"
proof -
  have none: "\<not> end_exists MakeNetwork e" for e by (simp add: MakeNetwork_def end_exists_def)
  have "fresh_names (\<lambda>i j. Itoa (2 * int i + int j)) 2 MakeNetwork"
    using none demo_names by (simp add: fresh_names_def)
  moreover have "fresh_names (\<lambda>i j. Itoa (100 + 2 * int i + int j)) 2 MakeNetwork"
    using none demo_names by (simp add: fresh_names_def)
  ultimately show ?thesis
    using MakeConfig_ready [of "\<lambda>i j. Itoa (2 * int i + int j)" 2 "\<lambda>i j. Itoa (100 + 2 * i + int j)"
        "\<lambda>es g i p. [Some p]" "\<lambda>s. MakeService ''KV'' []" False 0 mkAnnotation] by fastforce
qed

subsection \<open>The random order of handles\<close>

definition choices :: "nat \<Rightarrow> nat list set" where
  "choices n = {js. length js = n \<and> (\<forall>i < n. js ! i \<le> i)}"

lemma choices_0 [simp]: "choices 0 = {[]}"
  by (auto simp: choices_def)

lemma choices_Suc: "js \<in> choices (Suc n) \<longleftrightarrow> (\<exists>ks k. js = ks @ [k] \<and> ks \<in> choices n \<and> k \<le> n)"
proof
  assume js: "js \<in> choices (Suc n)"
  then obtain ks k where "js = ks @ [k]" by (cases js rule: rev_cases) (auto simp: choices_def)
  with js have "ks \<in> choices n" "k \<le> n" by (auto simp: choices_def nth_append all_conj_distrib less_Suc_eq)
  with \<open>js = ks @ [k]\<close> show "\<exists>ks k. js = ks @ [k] \<and> ks \<in> choices n \<and> k \<le> n" by blast
qed (auto simp: choices_def nth_append less_Suc_eq)

text \<open>The place of the new element among the others.\<close>

definition put_at :: "nat \<Rightarrow> 'a \<Rightarrow> 'a list \<Rightarrow> 'a list" where
  "put_at k x rs = (if k < length rs then rs[k := x] @ [rs ! k] else rs @ [x])"

lemma swap_last: "k \<le> length rs \<Longrightarrow> swap (length rs) k (rs @ [x]) = put_at k x rs"
  by (auto simp: swap_def put_at_def nth_append list_update_append)

lemma fold_swap_append:
  assumes "\<forall>(i, j) \<in> set ps. i < length rs \<and> j < length rs"
  shows "fold (\<lambda>(i, j) sa. swap i j sa) ps (rs @ xs) = fold (\<lambda>(i, j) sa. swap i j sa) ps rs @ xs \<and>
    length (fold (\<lambda>(i, j) sa. swap i j sa) ps rs) = length rs"
  using assms
proof (induction ps arbitrary: rs)
  case (Cons p ps)
  obtain i j where p: "p = (i, j)" by (cases p)
  have "swap i j (rs @ xs) = swap i j rs @ xs" "length (swap i j rs) = length rs"
    using Cons.prems p by (auto simp: swap_def nth_append list_update_append)
  with Cons.IH [of "swap i j rs"] Cons.prems p show ?case by simp
qed simp

lemma random_handles_snoc:
  assumes "ks \<in> choices (length xs)"
  shows "k \<le> length xs \<Longrightarrow> random_handles (ks @ [k]) (xs @ [x]) = put_at k x (random_handles ks xs)"
    and "length (random_handles ks xs) = length xs"
proof -
  have "\<forall>(i, j) \<in> set (enumerate 0 ks). i < length xs \<and> j < length xs"
    using assms(1) by (fastforce simp: choices_def in_set_enumerate_eq)
  note fs = fold_swap_append [OF this]
  then show len: "length (random_handles ks xs) = length xs" by (simp add: random_handles_def)
  have "length ks = length xs" using assms(1) by (simp add: choices_def)
  then show "random_handles (ks @ [k]) (xs @ [x]) = put_at k x (random_handles ks xs)" if "k \<le> length xs"
    using fs swap_last [of k "random_handles ks xs" x] that len
    by (simp add: random_handles_def enumerate_append_eq)
qed

lemma mset_update_add: "k < length rs \<Longrightarrow> add_mset (rs ! k) (mset (rs[k := x])) = add_mset x (mset rs)"
  by (simp add: mset_update insert_DiffM)

lemma mset_put_at: "mset (put_at k x rs) = add_mset x (mset rs)"
  by (simp add: put_at_def mset_update_add)

lemma put_at_cover:
  assumes "mset ys = add_mset x (mset xs)"
  shows "\<exists>k rs. k \<le> length xs \<and> mset rs = mset xs \<and> put_at k x rs = ys"
proof -
  have len: "length ys = Suc (length xs)" using assms by (metis size_add_mset size_mset)
  then obtain zs z where ys: "ys = zs @ [z]" by (cases ys rule: rev_cases) auto
  show ?thesis
  proof (cases "z = x")
    case True
    with assms ys have "mset zs = mset xs" by simp
    with len ys True show ?thesis by (intro exI [of _ "length xs"] exI [of _ zs]) (simp add: put_at_def)
  next
    case False
    then have "x \<in> set zs" using assms ys by (metis Un_iff list.set(1) list.set(2) set_append set_mset_add_mset_insert set_mset_mset insertI1 insertE empty_iff)
    then obtain k where k: "k < length zs" "zs ! k = x" by (auto simp: in_set_conv_nth)
    have "add_mset x (mset (zs[k := z])) = add_mset z (mset zs)"
      using mset_update_add [OF k(1), of z] k(2) by simp
    then have "mset (zs[k := z]) = mset xs" using assms ys by simp
    moreover have "put_at k x (zs[k := z]) = ys" using k ys by (simp add: put_at_def) (metis list_update_id)
    ultimately show ?thesis using k(1) len ys by (intro exI [of _ k] exI [of _ "zs[k := z]"]) simp
  qed
qed

lemma put_at_inject:
  assumes "put_at k x rs = put_at k' x rs'" and "x \<notin> set rs" and "x \<notin> set rs'"
    and "length rs = length rs'" and "k \<le> length rs" and "k' \<le> length rs'"
  shows "k = k' \<and> rs = rs'"
proof -
  have pos: "put_at k x rs ! i = x \<longleftrightarrow> i = k" if "i \<le> length rs" "k \<le> length rs" "x \<notin> set rs" for i k and rs :: "'a list"
    using that by (auto simp: put_at_def nth_append nth_list_update in_set_conv_nth less_Suc_eq_le)
  have "k = k'" using pos [of k rs k] pos [of k rs' k'] assms by simp
  moreover have "rs = (if k < length rs then (take (length rs) (put_at k x rs))[k := last (put_at k x rs)]
      else take (length rs) (put_at k x rs))" for rs :: "'a list"
    by (simp add: put_at_def)
  ultimately show ?thesis using assms(1,4) by metis
qed

text \<open>The shuffle of the server handles is fair: for distinct handles, the choices that
  \<open>rand.Intn\<close> can make correspond one to one to the orders of the handles, so every order comes
  from exactly one sequence of choices.\<close>

theorem random_handles_fair:
  assumes "distinct xs"
  shows "bij_betw (\<lambda>js. random_handles js xs) (choices (length xs)) {ys. mset ys = mset xs}"
  using assms
proof (induction xs rule: rev_induct)
  case Nil
  then show ?case by (simp add: bij_betw_def random_handles_def)
next
  case (snoc x xs)
  let ?f = "\<lambda>js. random_handles js xs" and ?g = "\<lambda>js. random_handles js (xs @ [x])"
  have IH: "inj_on ?f (choices (length xs))" "?f ` choices (length xs) = {ys. mset ys = mset xs}"
    using snoc by (auto simp: bij_betw_def)
  have x: "x \<notin> set (?f ks)" if "ks \<in> choices (length xs)" for ks
  proof -
    have "mset (?f ks) = mset xs" using IH(2) that by blast
    then have "set (?f ks) = set xs" by (metis set_mset_mset)
    with snoc.prems show ?thesis by simp
  qed
  have "inj_on ?g (choices (Suc (length xs)))"
  proof (rule inj_onI)
    fix js js' assume "js \<in> choices (Suc (length xs))" "js' \<in> choices (Suc (length xs))" and eq: "?g js = ?g js'"
    then obtain ks k ks' k' where js: "js = ks @ [k]" "ks \<in> choices (length xs)" "k \<le> length xs"
      and js': "js' = ks' @ [k']" "ks' \<in> choices (length xs)" "k' \<le> length xs"
      by (auto simp: choices_Suc)
    have "k = k' \<and> ?f ks = ?f ks'"
      by (rule put_at_inject [of k x _ k'])
        (use eq js js' x in \<open>simp_all add: random_handles_snoc\<close>)
    with IH(1) js js' show "js = js'" by (auto dest: inj_onD)
  qed
  moreover have "?g ` choices (Suc (length xs)) = {ys. mset ys = mset (xs @ [x])}"
  proof (intro equalityI subsetI)
    fix ys assume "ys \<in> ?g ` choices (Suc (length xs))"
    then obtain ks k where "ys = ?g (ks @ [k])" "ks \<in> choices (length xs)" "k \<le> length xs"
      by (auto simp: choices_Suc)
    moreover from this have "mset (?f ks) = mset xs" using IH(2) by blast
    ultimately show "ys \<in> {ys. mset ys = mset (xs @ [x])}" by (simp add: random_handles_snoc(1) mset_put_at)
  next
    fix ys assume "ys \<in> {ys. mset ys = mset (xs @ [x])}"
    with put_at_cover [of ys x xs] obtain k rs where k: "k \<le> length xs" "mset rs = mset xs" "put_at k x rs = ys" by auto
    then obtain ks where "ks \<in> choices (length xs)" "rs = ?f ks" using IH(2) by (metis (mono_tags, lifting) imageE mem_Collect_eq)
    with k show "ys \<in> ?g ` choices (Suc (length xs))"
      by (intro image_eqI [of _ _ "ks @ [k]"]) (auto simp: choices_Suc random_handles_snoc(1))
  qed
  ultimately show ?case by (simp add: bij_betw_def)
qed

theorem random_handles_fair_witness:
  "\<exists>!js. js \<in> choices 3 \<and> random_handles js [1, 2, 3 :: nat] = [3, 1, 2]"
proof -
  have "bij_betw (\<lambda>js. random_handles js [1, 2, 3 :: nat]) (choices (length [1, 2, 3 :: nat])) {ys. mset ys = mset [1, 2, 3]}"
    by (rule random_handles_fair) simp
  then have b: "bij_betw (\<lambda>js. random_handles js [1, 2, 3 :: nat]) (choices 3) {ys. mset ys = mset [1, 2, 3]}"
    by (simp add: numeral_3_eq_3)
  have "[3, 1, 2] \<in> {ys. mset ys = mset [1, 2, 3 :: nat]}" by simp
  with b show ?thesis unfolding bij_betw_def inj_on_def by (metis (no_types, lifting) imageE)
qed

subsection \<open>Random strings\<close>

lemma length_b64: "length (b64 bs) = 4 * ((length bs + 2) div 3)"
proof (induction bs rule: b64.induct)
  case (4 a b c bs)
  moreover have "(length (a # b # c # bs) + 2) div 3 = Suc ((length bs + 2) div 3)" by simp
  ultimately show ?case by (simp only: b64.simps(4) Let_def list.size) simp
qed (simp_all add: Let_def)

lemma b64_letter_in [simp]: "b64_letter k \<in> set b64_alphabet"
proof -
  have "k mod 64 < length b64_alphabet" by (simp add: b64_alphabet_def)
  then show ?thesis unfolding b64_letter_def by (rule nth_mem)
qed

lemma b64_three:
  obtains p q r s where "b64 (a # b # c # bs) = p # q # r # s # b64 bs"
    and "p \<in> set b64_alphabet" "q \<in> set b64_alphabet" "r \<in> set b64_alphabet" "s \<in> set b64_alphabet"
  by (rule that, simp only: b64.simps(4) Let_def) (rule b64_letter_in)+

lemma take_b64:
  "3 * k \<le> 4 * length bs \<Longrightarrow> set (take k (b64 bs)) \<subseteq> set b64_alphabet"
proof (induction bs arbitrary: k rule: b64.induct)
  case (2 a)
  then have "k = 0 \<or> k = 1" by auto
  then show ?case by (auto simp: Let_def)
next
  case (3 a b)
  then have "k = 0 \<or> k = 1 \<or> k = 2" by auto
  then show ?case by (auto simp: Let_def numeral_2_eq_2)
next
  case (4 a b c bs)
  obtain p q r s where b4: "b64 (a # b # c # bs) = p # q # r # s # b64 bs"
    and in4: "p \<in> set b64_alphabet" "q \<in> set b64_alphabet" "r \<in> set b64_alphabet" "s \<in> set b64_alphabet"
    by (rule b64_three)
  show ?case
  proof (cases "k \<le> 4")
    case True
    have "set (take 4 (b64 (a # b # c # bs))) \<subseteq> set b64_alphabet" unfolding b4 using in4 by simp
    with set_take_subset_set_take [OF True] show ?thesis by (rule order_trans)
  next
    case False
    define m where "m = k - 4"
    have m: "k = Suc (Suc (Suc (Suc m)))" using False by (simp add: m_def)
    have "3 * m \<le> 4 * length bs" using 4(2) m by simp
    with 4(1) [OF refl] in4 show ?thesis unfolding b4 m by simp
  qed
qed simp

text \<open>\<open>Randstring(n)\<close> returns exactly \<open>n\<close> characters, all of them letters, digits, \<open>-\<close> or
  \<open>_\<close>: the slice never runs out of the encoded string and never reaches its padding.\<close>

theorem Randstring_shape:
  assumes "length b = 2 * n"
  shows "length (Randstring n b) = n \<and> set (Randstring n b) \<subseteq> set b64_alphabet"
proof
  show "length (Randstring n b) = n" using assms by (simp add: Randstring_def length_b64)
  show "set (Randstring n b) \<subseteq> set b64_alphabet"
    using take_b64 [of n b] assms by (simp add: Randstring_def)
qed

theorem Randstring_shape_witness:
  "b64 [1, 2] = ''AQI='' \<and> Randstring 1 [1, 2] = ''A'' \<and> length (Randstring 1 [1, 2]) = 1"
  using Randstring_shape [of "[1, 2]" 1]
  by (simp add: Randstring_def Let_def b64_letter_def b64_alphabet_def)

subsection \<open>What the statistics count\<close>

text \<open>What happens between \<open>Begin\<close> and \<open>End\<close>: requests enter the network, clerk operations are
  counted.\<close>

datatype event = Request reqMsg | Operation

fun do_event :: "event \<Rightarrow> ('svc, 'w) Config \<Rightarrow> ('svc, 'w) Config" where
  "do_event (Request r) c = set_net (count_request r (cf_net c)) c"
| "do_event Operation c = Op c"

lemma do_events_frame:
  "cf_t0 (fold do_event es c) = cf_t0 c \<and> cf_rpcs0 (fold do_event es c) = cf_rpcs0 c \<and>
   cf_failed (fold do_event es c) = cf_failed c \<and> cf_start (fold do_event es c) = cf_start c \<and>
   grps (cf_groups (fold do_event es c)) = grps (cf_groups c)"
proof (induction es arbitrary: c)
  case (Cons e es)
  then show ?case by (cases e) (simp_all add: Op_def)
qed simp

lemma do_events_counts:
  "rpc_count (cf_net (fold do_event es c)) = rpc_count (cf_net c) + of_nat (length (filter (\<lambda>e. e \<noteq> Operation) es)) \<and>
   cf_ops (fold do_event es c) = cf_ops c + of_nat (length (filter (\<lambda>e. e = Operation) es))"
proof (induction es arbitrary: c)
  case (Cons e es)
  have "cf_net (Op c) = cf_net c" by (simp add: Op_def cf_net_def)
  with Cons show ?case by (cases e) (simp_all add: Op_def count_request_def)
qed simp

lemma sint_add_small:
  fixes w :: "32 word"
  assumes "sint w + int k < 2 ^ 31"
  shows "sint (w + of_nat k) = sint w + int k"
proof -
  have "- (2 ^ 31) \<le> sint w" using sint_greater_eq [of w] by simp
  then have "signed_take_bit 31 (sint w + int k) = sint w + int k"
    using assms by (intro signed_take_bit_int_eq_self) auto
  moreover have "w + of_nat k = word_of_int (sint w + int k)" by simp
  ultimately show ?thesis by (simp only: sint_sbintrunc') simp
qed

text \<open>\<open>End\<close> reports the requests and the operations since \<open>Begin\<close>, and the time since
  \<open>Begin\<close>: exactly, as long as the network's 32-bit request counter and the 32-bit operation
  counter do not overflow.\<close>

theorem End_reports:
  assumes "fold do_event es (snd (Begin desc t c)) = c'"
    and "RpcTotal c + int (length (filter (\<lambda>e. e \<noteq> Operation) es)) < 2 ^ 31"
    and "length (filter (\<lambda>e. e = Operation) es) < 2 ^ 31"
    and "\<not> cf_failed c" and "now - cf_start c \<le> 120 * 1000000000" and "map_of (grps (cf_groups c)) GRP0 = Some sg"
  shows "End now c' = Inr (Some (now - t, length (srvs sg),
     int (length (filter (\<lambda>e. e \<noteq> Operation) es)), int (length (filter (\<lambda>e. e = Operation) es))))"
proof -
  define c0 where "c0 = snd (Begin desc t c)"
  have c0: "cf_t0 c0 = t" "cf_rpcs0 c0 = RpcTotal c" "cf_failed c0 = cf_failed c" "cf_start c0 = cf_start c"
    "cf_groups c0 = cf_groups c" "cf_ops c0 = 0" "cf_net c0 = cf_net c"
    by (simp_all add: c0_def Begin_def Let_def cf_net_def)
  have c': "c' = fold do_event es c0" using assms(1) by (simp add: c0_def)
  note fr = do_events_frame [of es c0, folded c'] and ct = do_events_counts [of es c0, folded c']
  have "RpcTotal c' = RpcTotal c + int (length (filter (\<lambda>e. e \<noteq> Operation) es))"
    using ct c0(7) sint_add_small [of "rpc_count (cf_net c)"] assms(2) by (simp add: RpcTotal_def GetTotalCount_def)
  moreover have "sint (cf_ops c') = int (length (filter (\<lambda>e. e = Operation) es))"
    using ct c0(6) sint_add_small [of 0 "length (filter (\<lambda>e. e = Operation) es)"] assms(3) by simp
  ultimately show ?thesis using fr c0 assms(4-6) by (simp add: End_def CheckTimeout_def)
qed

definition demo_config :: "(nat, nat) Config" where
  "demo_config = \<lparr>cf_groups = \<lparr>grps = [(GRP0, demo_grp)], genv = empty_env\<rparr>, cf_clnts = makeClnts MakeNetwork,
     cf_start = 0, cf_t0 = 0, cf_rpcs0 = 0, cf_ops = 9, cf_failed = False, cf_ann = mkAnnotation\<rparr>"

theorem End_reports_witness:
  "End 70 (fold do_event [Request \<lparr>endname = ''e'', svcMeth = ''KV.Get'', args = []\<rparr>, Operation, Operation]
     (snd (Begin ''t'' 50 demo_config))) = Inr (Some (20, 3, 1, 2))"
proof -
  have "RpcTotal demo_config = 0"
    by (simp add: RpcTotal_def GetTotalCount_def cf_net_def demo_config_def empty_env_def MakeNetwork_def)
  then show ?thesis
    using End_reports [OF refl, where es = "[Request \<lparr>endname = ''e'', svcMeth = ''KV.Get'', args = []\<rparr>, Operation, Operation]"
        and desc = "''t''" and t = 50 and c = demo_config and now = 70 and sg = demo_grp]
    by (simp add: demo_config_def demo_grp_wf(2))
qed

subsection \<open>The end of a test\<close>

definition running_services :: "('svc, 'w) Groups \<Rightarrow> 'svc option list" where
  "running_services gs = concat (map (\<lambda>sg. concat (map svcs (srvs sg))) (map snd (grps gs)))"

lemma Grp_cleanup_ok:
  "None \<notin> set (concat (map svcs (srvs sg))) \<Longrightarrow>
   Grp_cleanup sg v = Inr (v\<lparr>killed := killed v @ map the (concat (map svcs (srvs sg)))\<rparr>)"
proof -
  have "None \<notin> set xs \<Longrightarrow>
      each (\<lambda>x v. case x of None \<Rightarrow> Inl NilService | Some svc \<Rightarrow> Inr (v\<lparr>killed := killed v @ [svc]\<rparr>)) xs v =
      Inr (v\<lparr>killed := killed v @ map the xs\<rparr>)" for xs and v :: "('svc, 'w) env"
  proof (induction xs arbitrary: v)
    case (Cons x xs)
    then show ?case by (cases x) auto
  qed simp
  then show "None \<notin> set (concat (map svcs (srvs sg))) \<Longrightarrow>
      Grp_cleanup sg v = Inr (v\<lparr>killed := killed v @ map the (concat (map svcs (srvs sg)))\<rparr>)"
    unfolding Grp_cleanup_def by blast
qed

lemma Groups_cleanup_ok:
  assumes "None \<notin> set (running_services gs)"
  shows "Groups_cleanup gs = Inr (gs\<lparr>genv := (genv gs)\<lparr>killed := killed (genv gs) @ map the (running_services gs)\<rparr>\<rparr>)"
proof -
  have "None \<notin> set (concat (map (\<lambda>sg. concat (map svcs (srvs sg))) sgs)) \<Longrightarrow>
      each Grp_cleanup sgs v = Inr (v\<lparr>killed := killed v @ map the (concat (map (\<lambda>sg. concat (map svcs (srvs sg))) sgs))\<rparr>)"
    for sgs :: "'a ServerGrp list" and v :: "('a, 'b) env"
  proof (induction sgs arbitrary: v)
    case (Cons sg sgs)
    then show ?case using Grp_cleanup_ok [of sg v] by (simp add: append_assoc)
  qed simp
  with assms show ?thesis by (simp add: Groups_cleanup_def running_services_def)
qed



end
