(* ===== verification/Kv_Model.thy ===== *)
theory Kv_Model
  imports Prelude "HOL-Library.List_Lexorder" "HOL-Library.Char_ord"
begin

text \<open>The key/value model that the tests check histories against, \<^verbatim>\<open>models1/kv.go\<close>, and the
  error strings of \<^verbatim>\<open>kvsrv1/rpc/rpc.go\<close>. The linearizability checker itself is the library
  \<^verbatim>\<open>porcupine\<close>; what matters for it is which sequences of operations the model accepts, and that
  the partition by key loses nothing. The theorems compare the model with the contract that the
  comments of the server give.\<close>

subsection \<open>Errors and operations\<close>

type_synonym Err = string

definition OK :: Err where "OK = ''OK''"
definition ErrNoKey :: Err where "ErrNoKey = ''ErrNoKey''"
definition ErrVersion :: Err where "ErrVersion = ''ErrVersion''"
definition ErrMaybe :: Err where "ErrMaybe = ''ErrMaybe''"
definition ErrWrongLeader :: Err where "ErrWrongLeader = ''ErrWrongLeader''"
definition ErrWrongGroup :: Err where "ErrWrongGroup = ''ErrWrongGroup''"

lemma Err_distinct [simp]:
  "OK \<noteq> ErrNoKey" "OK \<noteq> ErrVersion" "OK \<noteq> ErrMaybe" "ErrNoKey \<noteq> OK" "ErrNoKey \<noteq> ErrVersion" "ErrNoKey \<noteq> ErrMaybe"
  "ErrVersion \<noteq> OK" "ErrVersion \<noteq> ErrNoKey" "ErrVersion \<noteq> ErrMaybe" "ErrMaybe \<noteq> OK" "ErrMaybe \<noteq> ErrNoKey" "ErrMaybe \<noteq> ErrVersion"
  by (simp_all add: OK_def ErrNoKey_def ErrVersion_def ErrMaybe_def)

type_synonym Tversion = "64 word"

record KvInput =
  Op :: "8 word"
  Key :: string
  Value :: string
  Version :: Tversion

record KvOutput =
  oValue :: string
  oVersion :: Tversion
  Err :: Err

record KvState =
  sValue :: string
  sVersion :: Tversion

text \<open>An operation in a history, as \<^verbatim>\<open>porcupine.Operation\<close> has it.\<close>

record operation =
  ClientId :: int
  Input :: KvInput
  CallTime :: int
  Output :: KvOutput
  ReturnTime :: int

subsection \<open>The model\<close>

text \<open>\<open>m[key] = append(m[key], v)\<close>; a missing key reads as the nil slice.\<close>

definition add_op :: "operation \<Rightarrow> (string, operation list) gomap \<Rightarrow> (string, operation list) gomap" where
  "add_op v m =
     (let key = Key (Input v)
      in AList.update key ((case map_of m key of None \<Rightarrow> [] | Some vs \<Rightarrow> vs) @ [v]) m)"

definition KvPartition :: "operation list \<Rightarrow> operation list list" where
  "KvPartition history =
     (let m = fold add_op history [];
          ks = sort (keys m)
      in map (\<lambda>k. the (map_of m k)) ks)"

definition KvInit :: KvState where
  "KvInit = \<lparr>sValue = [], sVersion = 0\<rparr>"

text \<open>An operation that is neither get nor put is rejected, with a state that is not a \<open>KvState\<close>.\<close>

definition KvStep :: "KvState \<Rightarrow> KvInput \<Rightarrow> KvOutput \<Rightarrow> bool \<times> (string + KvState)" where
  "KvStep st inp out =
     (if Op inp = 0 then (oValue out = sValue st, Inr st)
      else if Op inp = 1 then
        (if sVersion st = Version inp
         then (Err out = OK \<or> Err out = ErrMaybe, Inr \<lparr>sValue = Value inp, sVersion = sVersion st + 1\<rparr>)
         else (Err out = ErrVersion \<or> Err out = ErrMaybe, Inr st))
      else (False, Inl ''<invalid>''))"

definition DescribeOperation :: "KvInput \<Rightarrow> KvOutput \<Rightarrow> string" where
  "DescribeOperation inp out =
     (if Op inp = 0 then
        ''get('' @ [char_of (39::nat)] @ Key inp @ [char_of (39::nat)] @ '') -> ('' @ [char_of (39::nat)] @ oValue out @ [char_of (39::nat)] @
        '', '' @ [char_of (39::nat)] @ digits (unat (oVersion out)) @ [char_of (39::nat)] @ '', '' @
        [char_of (39::nat)] @ Err out @ [char_of (39::nat)] @ '')''
      else if Op inp = 1 then
        ''put('' @ [char_of (39::nat)] @ Key inp @ [char_of (39::nat)] @ '', '' @ [char_of (39::nat)] @ Value inp @ [char_of (39::nat)] @
        '', '' @ [char_of (39::nat)] @ digits (unat (Version inp)) @ [char_of (39::nat)] @ '') -> ('' @
        [char_of (39::nat)] @ Err out @ [char_of (39::nat)] @ '')''
      else ''<invalid>'')"

subsection \<open>Accepted histories\<close>

text \<open>A sequential history of one key is accepted when every step is, starting from the initial
  state; the result is the final state.\<close>

fun accepts :: "KvState \<Rightarrow> (KvInput \<times> KvOutput) list \<Rightarrow> KvState option" where
  "accepts st [] = Some st"
| "accepts st ((i, out) # ops) = (case KvStep st i out of
      (True, Inr st') \<Rightarrow> accepts st' ops
    | _ \<Rightarrow> None)"

abbreviation is_put :: "KvInput \<Rightarrow> bool" where "is_put i \<equiv> Op i = 1"
abbreviation is_get :: "KvInput \<Rightarrow> bool" where "is_get i \<equiv> Op i = 0"

lemma accepts_append:
  "accepts st (xs @ ys) = (case accepts st xs of None \<Rightarrow> None | Some st' \<Rightarrow> accepts st' ys)"
  by (induction st xs rule: accepts.induct) (auto split: sum.splits bool.splits prod.splits)

text \<open>The four kinds of accepted steps.\<close>

lemma KvStep_accepts:
  "KvStep st i out = (True, Inr st') \<longleftrightarrow>
     (is_get i \<and> oValue out = sValue st \<and> st' = st) \<or>
     (is_put i \<and> sVersion st = Version i \<and> (Err out = OK \<or> Err out = ErrMaybe) \<and>
        st' = \<lparr>sValue = Value i, sVersion = sVersion st + 1\<rparr>) \<or>
     (is_put i \<and> sVersion st \<noteq> Version i \<and> (Err out = ErrVersion \<or> Err out = ErrMaybe) \<and> st' = st)"
  by (auto simp: KvStep_def)

lemma accepts_Cons:
  "accepts st ((i, out) # ops) = Some st'' \<longleftrightarrow> (\<exists>st'. KvStep st i out = (True, Inr st') \<and> accepts st' ops = Some st'')"
  by (auto split: sum.splits bool.splits prod.splits)

subsection \<open>The server's contract\<close>

text \<open>A specification written from the comments of the server and the clerk: a key is either absent
  or has a value and a version. \<open>Put\<close> installs the value if the versions match (an absent key has
  version 0), answers \<open>ErrVersion\<close> if they do not, and \<open>ErrNoKey\<close> if the key is absent and the
  version is not 0. A clerk whose retries hide the answer reports \<open>ErrMaybe\<close>.\<close>

type_synonym entry = "(string \<times> Tversion) option"

definition spec_get :: "entry \<Rightarrow> KvOutput" where
  "spec_get s = (case s of
      None \<Rightarrow> \<lparr>oValue = [], oVersion = 0, Err = ErrNoKey\<rparr>
    | Some (v, n) \<Rightarrow> \<lparr>oValue = v, oVersion = n, Err = OK\<rparr>)"

definition spec_put :: "string \<Rightarrow> Tversion \<Rightarrow> entry \<Rightarrow> Err \<times> entry" where
  "spec_put v n s = (case s of
      None \<Rightarrow> if n = 0 then (OK, Some (v, 1)) else (ErrNoKey, None)
    | Some (_, m) \<Rightarrow> if n = m then (OK, Some (v, m + 1)) else (ErrVersion, s))"

definition spec_step :: "bool \<Rightarrow> KvInput \<Rightarrow> entry \<Rightarrow> KvOutput \<times> entry" where
  "spec_step lost i s =
     (if is_get i then (spec_get s, s)
      else (case spec_put (Value i) (Version i) s of
        (e, s') \<Rightarrow> (\<lparr>oValue = [], oVersion = 0, Err = (if lost then ErrMaybe else e)\<rparr>, s')))"

fun spec_run :: "(bool \<times> KvInput) list \<Rightarrow> entry \<Rightarrow> (KvInput \<times> KvOutput) list \<times> entry" where
  "spec_run [] s = ([], s)"
| "spec_run ((lost, i) # is) s =
     (case spec_step lost i s of (out, s1) \<Rightarrow>
      case spec_run is s1 of (ops, s2) \<Rightarrow> ((i, out) # ops, s2))"

definition model_state :: "entry \<Rightarrow> KvState" where
  "model_state s = (case s of None \<Rightarrow> KvInit | Some (v, n) \<Rightarrow> \<lparr>sValue = v, sVersion = n\<rparr>)"

subsection \<open>The partition by key\<close>

abbreviation key_of :: "operation \<Rightarrow> string" where "key_of v \<equiv> Key (Input v)"

lemma add_op_lookup:
  "map_of (add_op v m) k = (if k = key_of v then Some ((case map_of m k of None \<Rightarrow> [] | Some vs \<Rightarrow> vs) @ [v]) else map_of m k)"
  by (auto simp: add_op_def Let_def update_conv')

lemma add_op_keys: "set (keys (add_op v m)) = insert (key_of v) (set (keys m))"
  unfolding set_map dom_map_of_conv_image_fst [symmetric]
  by (auto simp: add_op_lookup dom_def split: if_splits)

lemma add_op_wf: "wf_map m \<Longrightarrow> wf_map (add_op v m)"
  by (simp add: add_op_def Let_def distinct_update)

lemma fold_add_op:
  assumes "wf_map m"
  shows "wf_map (fold add_op h m) \<and> set (keys (fold add_op h m)) = set (keys m) \<union> key_of ` set h \<and>
    (\<forall>k. map_of (fold add_op h m) k =
      (case map_of m k of Some vs \<Rightarrow> Some (vs @ filter (\<lambda>v. key_of v = k) h)
       | None \<Rightarrow> if k \<in> key_of ` set h then Some (filter (\<lambda>v. key_of v = k) h) else None))"
  using assms
proof (induction h arbitrary: m)
  case Nil
  then show ?case by (auto split: option.split)
next
  case (Cons v h)
  note IH = Cons.IH [OF add_op_wf [OF Cons.prems, of v]]
  have "map_of (fold add_op (v # h) m) k =
      (case map_of m k of Some vs \<Rightarrow> Some (vs @ filter (\<lambda>v. key_of v = k) (v # h))
       | None \<Rightarrow> if k \<in> key_of ` set (v # h) then Some (filter (\<lambda>v. key_of v = k) (v # h)) else None)" for k
    using IH by (cases "k = key_of v"; cases "map_of m k") (simp_all add: add_op_lookup del: map_of_eq_None_iff)
  moreover have "set (keys (fold add_op (v # h) m)) = set (keys m) \<union> key_of ` set (v # h)"
    using IH by (simp add: add_op_keys del: set_map)
  ultimately show ?case using IH by simp
qed

subsection \<open>Versions of accepted histories\<close>

definition ok_versions :: "(KvInput \<times> KvOutput) list \<Rightarrow> nat list" where
  "ok_versions ops = map (\<lambda>(i, out). unat (Version i)) (filter (\<lambda>(i, out). is_put i \<and> Err out = OK) ops)"

definition maybe_puts :: "(KvInput \<times> KvOutput) list \<Rightarrow> nat" where
  "maybe_puts ops = length (filter (\<lambda>(i, out). is_put i \<and> Err out = ErrMaybe) ops)"

lemma ok_versions_Cons [simp]:
  "ok_versions ((i, out) # ops) = (if is_put i \<and> Err out = OK then [unat (Version i)] else []) @ ok_versions ops"
  "maybe_puts ((i, out) # ops) = (if is_put i \<and> Err out = ErrMaybe then 1 else 0) + maybe_puts ops"
  "ok_versions [] = []" "maybe_puts [] = 0"
  by (simp_all add: ok_versions_def maybe_puts_def)

lemma unat_add_one: "unat (x :: 64 word) + 1 < 2 ^ 64 \<Longrightarrow> unat (x + 1) = unat x + 1"
  by (simp add: unat_word_ariths)

lemma accepted_versions:
  assumes "accepts st ops = Some st'" and "unat (sVersion st) + length ops < 2 ^ 64"
  shows "sorted_wrt (<) (ok_versions ops) \<and> (\<forall>n \<in> set (ok_versions ops). unat (sVersion st) \<le> n \<and> n < unat (sVersion st')) \<and>
    unat (sVersion st) + length (ok_versions ops) \<le> unat (sVersion st') \<and>
    unat (sVersion st') \<le> unat (sVersion st) + length (ok_versions ops) + maybe_puts ops"
  using assms
proof (induction ops arbitrary: st)
  case (Cons op ops)
  obtain i out where op: "op = (i, out)" by force
  with Cons.prems(1) obtain st1 where s1: "KvStep st i out = (True, Inr st1)" "accepts st1 ops = Some st'"
    by (auto simp: accepts_Cons simp del: accepts.simps)
  consider (same) "st1 = st" "\<not> (is_put i \<and> Err out = OK)"
    | (put) "is_put i" "sVersion st = Version i" "Err out = OK \<or> Err out = ErrMaybe" "sVersion st1 = sVersion st + 1"
    using s1(1) by (auto simp: KvStep_accepts)
  then show ?case
  proof cases
    case same
    with Cons.IH [OF s1(2)] Cons.prems(2) show ?thesis by (auto simp: op)
  next
    case put
    have "unat (sVersion st1) = unat (sVersion st) + 1" using put(4) Cons.prems(2) unat_add_one [of "sVersion st"] by simp
    with Cons.IH [OF s1(2)] Cons.prems(2) put show ?thesis by (auto simp: op)
  qed
qed simp

lemma KvPartition_parts:
  "KvPartition h = map (\<lambda>k. filter (\<lambda>v. key_of v = k) h) (sorted_list_of_set (key_of ` set h))"
proof -
  let ?m = "fold add_op h []"
  have m: "wf_map ?m" "set (keys ?m) = key_of ` set h"
    "\<And>k. map_of ?m k = (if k \<in> key_of ` set h then Some (filter (\<lambda>v. key_of v = k) h) else None)"
    using fold_add_op [of "[]" h] by simp_all
  have "sort (keys ?m) = sorted_list_of_set (key_of ` set h)"
    using m(1,2) by (metis distinct_remdups_id sorted_list_of_set_sort_remdups)
  moreover have "map (\<lambda>k. the (map_of ?m k)) (sorted_list_of_set (key_of ` set h)) =
      map (\<lambda>k. filter (\<lambda>v. key_of v = k) h) (sorted_list_of_set (key_of ` set h))"
    by (rule map_cong [OF refl]) (simp add: m(3))
  ultimately show ?thesis by (simp add: KvPartition_def Let_def)
qed

subsection \<open>Properties\<close>

text \<open>The partition of a history loses nothing, adds nothing and keeps the order: it has one part
  per key that occurs, in the order of the keys, and each part is the subsequence of the history's
  operations on that key.\<close>

theorem KvPartition_exact:
  "KvPartition h = map (\<lambda>k. filter (\<lambda>v. key_of v = k) h) (sorted_list_of_set (key_of ` set h))"
  by (rule KvPartition_parts)

text \<open>C20. The model and the server's contract agree but for one answer: a sequential run of a server
  that does what its comments say, with any answers lost on the way, is accepted, ending in the
  state of the server, exactly if no put was answered \<open>ErrNoKey\<close>.\<close>

theorem model_accepts_contract:
  assumes "\<forall>(lost, i) \<in> set is. is_get i \<or> is_put i" and "spec_run is s = (ops, s')"
  shows "accepts (model_state s) ops =
    (if \<exists>(i, out) \<in> set ops. is_put i \<and> Err out = ErrNoKey then None else Some (model_state s'))"
  using assms
proof (induction "is" arbitrary: s ops)
  case (Cons x "is")
  obtain lost i where x: "x = (lost, i)" by force
  obtain out s1 where st: "spec_step lost i s = (out, s1)" by force
  obtain ops1 where r: "spec_run is s1 = (ops1, s')" "ops = (i, out) # ops1"
    using Cons.prems(2) x st by (auto split: prod.splits)
  have op: "is_get i \<or> is_put i" using Cons.prems(1) x by auto
  have IH: "accepts (model_state s1) ops1 =
      (if \<exists>(i, out) \<in> set ops1. is_put i \<and> Err out = ErrNoKey then None else Some (model_state s'))"
    using Cons.IH [OF _ r(1)] Cons.prems(1) by auto
  have "KvStep (model_state s) i out = (\<not> (is_put i \<and> Err out = ErrNoKey), Inr (model_state s1))"
    using st op
    by (auto simp: KvStep_def spec_step_def spec_get_def spec_put_def model_state_def KvInit_def
        split: option.splits prod.splits if_splits)
  then show ?case using IH r(2) by (cases "is_put i \<and> Err out = ErrNoKey") auto
qed simp

theorem model_accepts_contract_witness:
  "accepts KvInit (fst (spec_run [(False, \<lparr>Op = 1, Key = ''k'', Value = ''a'', Version = 0\<rparr>),
     (True, \<lparr>Op = 1, Key = ''k'', Value = ''b'', Version = 1\<rparr>)] None)) = Some \<lparr>sValue = ''b'', sVersion = 2\<rparr> \<and>
   accepts KvInit (fst (spec_run [(False, \<lparr>Op = 1, Key = ''k'', Value = ''a'', Version = 5\<rparr>)] None)) = None"
  using model_accepts_contract [of "[(False, \<lparr>Op = 1, Key = ''k'', Value = ''a'', Version = 0\<rparr>),
      (True, \<lparr>Op = 1, Key = ''k'', Value = ''b'', Version = 1\<rparr>)]" None]
    model_accepts_contract [of "[(False, \<lparr>Op = 1, Key = ''k'', Value = ''a'', Version = 5\<rparr>)]" None]
  by (simp add: spec_step_def spec_put_def model_state_def)

text \<open>In an accepted history no two puts that returned OK have the same version: their versions
  increase strictly, and the final version counts at least the OK puts and at most the OK and the
  maybe puts (for histories shorter than the 64-bit version counter).\<close>

theorem accepted_puts_at_most_once:
  assumes "accepts KvInit ops = Some st" and "length ops < 2 ^ 64"
  shows "sorted_wrt (<) (ok_versions ops) \<and> length (ok_versions ops) \<le> unat (sVersion st) \<and>
    unat (sVersion st) \<le> length (ok_versions ops) + maybe_puts ops"
  using accepted_versions [OF assms(1)] assms(2) by (simp add: KvInit_def)

theorem accepted_puts_at_most_once_witness:
  "sorted_wrt (<) (ok_versions
     [(\<lparr>Op = 1, Key = ''k'', Value = ''a'', Version = 0\<rparr>, \<lparr>oValue = [], oVersion = 0, Err = OK\<rparr>),
      (\<lparr>Op = 1, Key = ''k'', Value = ''b'', Version = 1\<rparr>, \<lparr>oValue = [], oVersion = 0, Err = ErrMaybe\<rparr>),
      (\<lparr>Op = 1, Key = ''k'', Value = ''c'', Version = 2\<rparr>, \<lparr>oValue = [], oVersion = 0, Err = OK\<rparr>)])"
  using accepted_puts_at_most_once [of
     "[(\<lparr>Op = 1, Key = ''k'', Value = ''a'', Version = 0\<rparr>, \<lparr>oValue = [], oVersion = 0, Err = OK\<rparr>),
      (\<lparr>Op = 1, Key = ''k'', Value = ''b'', Version = 1\<rparr>, \<lparr>oValue = [], oVersion = 0, Err = ErrMaybe\<rparr>),
      (\<lparr>Op = 1, Key = ''k'', Value = ''c'', Version = 2\<rparr>, \<lparr>oValue = [], oVersion = 0, Err = OK\<rparr>)]"
     "\<lparr>sValue = ''c'', sVersion = 3\<rparr>"]
  by (simp add: KvStep_def KvInit_def)


end
