(* ===== verification/Kv_Tester.thy ===== *)
theory Kv_Tester
  imports Kv_Model Go_Json
begin

text \<open>The key/value test clients and checkers, \<^verbatim>\<open>kvtest1/kvtest.go\<close> and the logging wrappers of
  \<^verbatim>\<open>kvtest1/porcupine.go\<close>. The clerk under test is code outside the harness: it is a record of
  functions on a state of its own (which may hold a clock, the servers and all other clients).
  JSON is a pair of functions, given for the list of entries that the appending clients store
  (\<open>json_entries\<close>). A failed check (\<open>Fatalf\<close>) is an error value; loops that wait for the
  clerk are partial functions, so that running forever is \<open>None\<close>. The random draws and the moment
  of the done signal are arguments. The counters \<open>N\<close>, \<open>Nok\<close> and \<open>Nmaybe\<close> of the
  clients are integers: they count operations of one test run.\<close>

subsection \<open>The log of operations\<close>

type_synonym OpLog = "operation list"

definition OpLog_Len :: "OpLog \<Rightarrow> nat" where
  "OpLog_Len log = length log"

definition OpLog_Append :: "operation \<Rightarrow> OpLog \<Rightarrow> OpLog" where
  "OpLog_Append op log = log @ [op]"

definition OpLog_Read :: "OpLog \<Rightarrow> operation list" where
  "OpLog_Read log = log"

subsection \<open>The clerk and the test state\<close>

record 'c IKVClerk =
  ck_Get :: "string \<Rightarrow> 'c \<Rightarrow> (string \<times> Tversion \<times> Err) \<times> 'c"
  ck_Put :: "string \<Rightarrow> string \<Rightarrow> Tversion \<Rightarrow> 'c \<Rightarrow> Err \<times> 'c"
  ck_now :: "'c \<Rightarrow> int"

text \<open>\<open>oplog\<close> may be nil; \<open>ops\<close> is the operation counter of the configuration; \<open>infos\<close> are the
  descriptions handed to the annotation layer.\<close>

record 'c Test =
  world :: 'c
  oplog :: "OpLog option"
  ops :: "32 word"
  infos :: "(string \<times> string) list"

datatype kvt_error =
    PutFailed string Tversion Err
  | GetFailed string Err
  | UnmarshalFailed string
  | WrongError Err
  | WrongValue
  | CheckGetFailed string
  | WrongNumberOfPuts
  | OldPut int
  | AppendsMismatch
  | SkippedPuts int
  | TooManyPuts int
  | IndexOutOfRange

definition log_op :: "operation \<Rightarrow> 'c Test \<Rightarrow> 'c Test" where
  "log_op v s = s\<lparr>ops := ops s + 1, oplog := (case oplog s of None \<Rightarrow> None | Some l \<Rightarrow> Some (OpLog_Append v l))\<rparr>"

definition Get :: "'c IKVClerk \<Rightarrow> string \<Rightarrow> int \<Rightarrow> 'c Test \<Rightarrow> (string \<times> Tversion \<times> Err) \<times> 'c Test" where
  "Get ck key cli s =
     (let start = ck_now ck (world s) in
      case ck_Get ck key (world s) of ((val, ver, err), w) \<Rightarrow>
        ((val, ver, err),
         log_op \<lparr>ClientId = cli, Input = \<lparr>Op = 0, Key = key, Value = [], Version = 0\<rparr>, CallTime = start,
                 Output = \<lparr>oValue = val, oVersion = ver, Err = err\<rparr>, ReturnTime = ck_now ck w\<rparr>
           (s\<lparr>world := w\<rparr>)))"

definition Put :: "'c IKVClerk \<Rightarrow> string \<Rightarrow> string \<Rightarrow> Tversion \<Rightarrow> int \<Rightarrow> 'c Test \<Rightarrow> Err \<times> 'c Test" where
  "Put ck key value version cli s =
     (let start = ck_now ck (world s) in
      case ck_Put ck key value version (world s) of (err, w) \<Rightarrow>
        (err,
         log_op \<lparr>ClientId = cli, Input = \<lparr>Op = 1, Key = key, Value = value, Version = version\<rparr>, CallTime = start,
                 Output = \<lparr>oValue = [], oVersion = 0, Err = err\<rparr>, ReturnTime = ck_now ck w\<rparr>
           (s\<lparr>world := w\<rparr>)))"

text \<open>JSON, outside the repository: an encoder and a decoder that may fail.\<close>

record 'v json =
  Marshal :: "'v \<Rightarrow> string"
  Unmarshal :: "string \<Rightarrow> 'v option"

definition GetJson :: "'v json \<Rightarrow> 'c IKVClerk \<Rightarrow> string \<Rightarrow> int \<Rightarrow> 'c Test \<Rightarrow> kvt_error + (Tversion \<times> 'v \<times> 'c Test)" where
  "GetJson j ck key me s = (case Get ck key me s of ((val, ver, err), s') \<Rightarrow>
     if err = OK then (case Unmarshal j val of None \<Rightarrow> Inl (UnmarshalFailed val) | Some v \<Rightarrow> Inr (ver, v, s'))
     else Inl (GetFailed key err))"

definition PutJson :: "'v json \<Rightarrow> 'c IKVClerk \<Rightarrow> string \<Rightarrow> 'v \<Rightarrow> Tversion \<Rightarrow> int \<Rightarrow> 'c Test \<Rightarrow> Err \<times> 'c Test" where
  "PutJson j ck key v ver me s = Put ck key (Marshal j v) ver me s"

subsection \<open>Clients\<close>

partial_function (option) put_loop ::
  "'c IKVClerk \<Rightarrow> string \<Rightarrow> string \<Rightarrow> Tversion \<Rightarrow> int \<Rightarrow> 'c Test \<Rightarrow> (kvt_error + Tversion \<times> 'c Test) option" where
  "put_loop ck key value ver me s = (case Put ck key value ver me s of (err, s') \<Rightarrow>
     if err = OK then Some (Inr (ver + 1, s'))
     else if err = ErrMaybe \<or> err = ErrVersion then put_loop ck key value (ver + 1) me s'
     else if ver \<noteq> 0 then Some (Inl (PutFailed key ver err))
     else put_loop ck key value ver me s')"

declare put_loop.simps [code]

definition PutAtLeastOnce ::
  "'c IKVClerk \<Rightarrow> string \<Rightarrow> string \<Rightarrow> Tversion \<Rightarrow> int \<Rightarrow> 'c Test \<Rightarrow> (kvt_error + Tversion \<times> 'c Test) option" where
  "PutAtLeastOnce ck key value ver me s = (case put_loop ck key value ver me s of
      Some (Inr (ver', s')) \<Rightarrow> Some (Inr (ver', s'\<lparr>infos := infos s' @
        [(''Put('' @ key @ '', '' @ value @ '') completes'',
          ''version: '' @ digits (unat ver) @ '' -> '' @ digits (unat ver'))]\<rparr>))
    | r \<Rightarrow> r)"

definition CheckGet :: "'c IKVClerk \<Rightarrow> string \<Rightarrow> string \<Rightarrow> Tversion \<Rightarrow> 'c Test \<Rightarrow> kvt_error + 'c Test" where
  "CheckGet ck key value version s = (case Get ck key 0 s of ((val, ver, err), s') \<Rightarrow>
     if err \<noteq> OK then Inl (GetFailed key err)
     else if val \<noteq> value \<or> ver \<noteq> version then Inl (CheckGetFailed key)
     else Inr s')"

partial_function (option) PutAtLeastOnceJson ::
  "'v json \<Rightarrow> 'c IKVClerk \<Rightarrow> string \<Rightarrow> 'v \<Rightarrow> Tversion \<Rightarrow> int \<Rightarrow> 'c Test \<Rightarrow> (Tversion \<times> 'c Test) option" where
  "PutAtLeastOnceJson j ck key value ver me s = (case PutJson j ck key value 0 me s of (err, s') \<Rightarrow>
     if err \<noteq> ErrMaybe then Some (ver, s')
     else PutAtLeastOnceJson j ck key value (ver + 1) me s')"

declare PutAtLeastOnceJson.simps [code]

record EntryV =
  Id :: int
  V :: Tversion

partial_function (option) OnePut ::
  "EntryV json \<Rightarrow> int \<Rightarrow> 'c IKVClerk \<Rightarrow> string \<Rightarrow> Tversion \<Rightarrow> 'c Test \<Rightarrow> (kvt_error + (Tversion \<times> bool) \<times> 'c Test) option" where
  "OnePut j me ck key ver s = (case PutJson j ck key \<lparr>Id = me, V = ver\<rparr> ver me s of (err, s1) \<Rightarrow>
     if \<not> (err = OK \<or> err = ErrVersion \<or> err = ErrMaybe) then Some (Inl (WrongError err))
     else (case GetJson j ck key me s1 of
        Inl e \<Rightarrow> Some (Inl e)
      | Inr (ver0, e, s2) \<Rightarrow>
          if err = OK \<and> ver0 = ver + 1 \<and> Id e \<noteq> me \<and> V e \<noteq> ver then Some (Inl WrongValue)
          else if err = OK \<or> err = ErrMaybe then Some (Inr ((ver0, err = OK), s2))
          else OnePut j me ck key ver0 s2))"

declare OnePut.simps [code]

record ClntRes =
  Nok :: int
  Nmaybe :: int

text \<open>\<open>draws\<close> are the values of \<^verbatim>\<open>rand.Int()\<close> for the iterations before the done signal;
  \<open>verm\<close> is the map of versions, 0 for every key at the start.\<close>

fun put_client ::
  "EntryV json \<Rightarrow> bool \<Rightarrow> int \<Rightarrow> 'c IKVClerk \<Rightarrow> string list \<Rightarrow> nat list \<Rightarrow> (string \<Rightarrow> Tversion) \<Rightarrow> ClntRes \<Rightarrow> 'c Test \<Rightarrow>
    (kvt_error + ClntRes \<times> 'c Test) option" where
  "put_client j rk cli ck ka [] verm res s = Some (Inr (res, s))"
| "put_client j rk cli ck ka (r # draws) verm res s =
     (if ka = [] then Some (Inl IndexOutOfRange)
      else (let k = (if rk then ka ! (r mod length ka) else ka ! 0) in
        case OnePut j cli ck k (verm k) s of
          None \<Rightarrow> None
        | Some (Inl e) \<Rightarrow> Some (Inl e)
        | Some (Inr ((ver, ok), s')) \<Rightarrow>
            put_client j rk cli ck ka draws (verm(k := ver))
              (if ok then res\<lparr>Nok := Nok res + 1\<rparr> else res\<lparr>Nmaybe := Nmaybe res + 1\<rparr>) s'))"

definition OneClientPut where
  "OneClientPut j rk cli ck ka draws s = put_client j rk cli ck ka draws (\<lambda>k. 0) \<lparr>Nok = 0, Nmaybe = 0\<rparr> s"

definition MakeKeys :: "nat \<Rightarrow> string list" where
  "MakeKeys n = map (\<lambda>i. CHR ''k'' # Itoa (int i)) [0..<n]"

fun sum_res :: "ClntRes list \<Rightarrow> ClntRes \<Rightarrow> ClntRes" where
  "sum_res [] res = res"
| "sum_res (r # rs) res = sum_res rs \<lparr>Nok = Nok res + Nok r, Nmaybe = Nmaybe res + Nmaybe r\<rparr>"

definition CheckPutConcurrent ::
  "EntryV json \<Rightarrow> 'c IKVClerk \<Rightarrow> string \<Rightarrow> ClntRes list \<Rightarrow> ClntRes \<Rightarrow> bool \<Rightarrow> 'c Test \<Rightarrow> kvt_error + ClntRes \<times> 'c Test" where
  "CheckPutConcurrent j ck key rs res reliable s = (case GetJson j ck key (-1) s of
      Inl e \<Rightarrow> Inl e
    | Inr (ver0, e, s') \<Rightarrow>
        (let res' = sum_res rs res in
         if reliable then (if ver0 \<noteq> word_of_int (Nok res') then Inl WrongNumberOfPuts else Inr (res', s'))
         else if ver0 > word_of_int (Nok res' + Nmaybe res') then Inl WrongNumberOfPuts
         else Inr (res', s')))"

subsection \<open>Appending clients\<close>

text \<open>The Go types \<open>entry\<close> and \<open>EntryN\<close> have the same fields.\<close>

record EntryN =
  eId :: int
  eN :: int

text \<open>The inner loop: keep trying to append the client's \<open>i\<close>-th entry until the put succeeds or may
  have succeeded. The result says whether it was OK.\<close>

partial_function (option) append_one ::
  "EntryN list json \<Rightarrow> int \<Rightarrow> 'c IKVClerk \<Rightarrow> int \<Rightarrow> 'c Test \<Rightarrow> (kvt_error + bool \<times> 'c Test) option" where
  "append_one j me ck i s = (case GetJson j ck ''k'' me s of
      Inl e \<Rightarrow> Some (Inl e)
    | Inr (ver, es, s1) \<Rightarrow>
       (case PutJson j ck ''k'' (es @ [\<lparr>eId = me, eN = i\<rparr>]) ver me s1 of (err, s2) \<Rightarrow>
          if err = OK then Some (Inr (True, s2))
          else if err = ErrMaybe then Some (Inr (False, s2))
          else append_one j me ck i s2))"

declare append_one.simps [code]

text \<open>\<open>n\<close> iterations run before the done signal.\<close>

fun append_client ::
  "EntryN list json \<Rightarrow> int \<Rightarrow> 'c IKVClerk \<Rightarrow> nat \<Rightarrow> int \<Rightarrow> ClntRes \<Rightarrow> 'c Test \<Rightarrow> (kvt_error + ClntRes \<times> 'c Test) option" where
  "append_client j me ck 0 i res s = Some (Inr (res, s))"
| "append_client j me ck (Suc n) i res s = (case append_one j me ck i s of
      None \<Rightarrow> None
    | Some (Inl e) \<Rightarrow> Some (Inl e)
    | Some (Inr (ok, s')) \<Rightarrow>
        append_client j me ck n (i + 1)
          (if ok then res\<lparr>Nok := Nok res + 1\<rparr> else res\<lparr>Nmaybe := Nmaybe res + 1\<rparr>) s')"

definition OneClientAppend where
  "OneClientAppend j me ck n s = append_client j me ck n 0 \<lparr>Nok = 0, Nmaybe = 0\<rparr> s"

text \<open>Reading a map of ints gives 0 for a missing key.\<close>

definition geti :: "(int, int) gomap \<Rightarrow> int \<Rightarrow> int" where
  "geti m k = (case map_of m k of None \<Rightarrow> 0 | Some v \<Rightarrow> v)"

fun check_entries :: "EntryN list \<Rightarrow> (int, int) gomap \<Rightarrow> (int, int) gomap \<Rightarrow>
    kvt_error + (int, int) gomap \<times> (int, int) gomap" where
  "check_entries [] expect skipped = Inr (expect, skipped)"
| "check_entries (e # es) expect skipped =
     (if geti expect (eId e) > eN e then Inl (OldPut (eId e))
      else if geti expect (eId e) = eN e
        then check_entries es (AList.update (eId e) (geti expect (eId e) + 1) expect) skipped
      else (let s = eN e - geti expect (eId e)
            in check_entries es (AList.update (eId e) (eN e + 1) expect)
                 (AList.update (eId e) (geti skipped (eId e) + s) skipped)))"

fun check_clients :: "(int \<times> int) list \<Rightarrow> (int, int) gomap \<Rightarrow> ClntRes list \<Rightarrow> kvt_error + unit" where
  "check_clients [] skipped rs = Inr ()"
| "check_clients ((c, n) # cs) skipped rs =
     (if \<not> (0 \<le> c \<and> c < int (length rs)) then Inl IndexOutOfRange
      else if geti skipped c > Nmaybe (rs ! nat c) then Inl (SkippedPuts c)
      else if n > Nok (rs ! nat c) + Nmaybe (rs ! nat c) then Inl (TooManyPuts c)
      else check_clients cs skipped rs)"

definition CheckAppends :: "EntryN list \<Rightarrow> nat \<Rightarrow> ClntRes list \<Rightarrow> Tversion \<Rightarrow> kvt_error + unit" where
  "CheckAppends es nclnt rs ver =
     (let zero = map (\<lambda>i. (int i, 0)) [0..<nclnt] in
      case check_entries es zero zero of
        Inl e \<Rightarrow> Inl e
      | Inr (expect, skipped) \<Rightarrow>
          if int (length es) + 1 \<noteq> sint ver then Inl AppendsMismatch
          else check_clients expect skipped rs)"

subsection \<open>Writing many keys\<close>

fun put_all :: "'c IKVClerk \<Rightarrow> (string \<times> string) list \<Rightarrow> 'c Test \<Rightarrow> 'c Test" where
  "put_all ck [] s = s"
| "put_all ck ((k, v) # kvs) s = (case ck_Put ck k v 0 (world s) of (_, w) \<Rightarrow> put_all ck kvs (s\<lparr>world := w\<rparr>))"

text \<open>The values are random strings of the requested size, given by \<open>rnd\<close>. The puts go to the clerk
  directly and are not logged.\<close>

definition SpreadPutsSize :: "'c IKVClerk \<Rightarrow> nat \<Rightarrow> nat \<Rightarrow> (nat \<Rightarrow> nat \<Rightarrow> string) \<Rightarrow> 'c Test \<Rightarrow>
    kvt_error + (string list \<times> string list) \<times> 'c Test" where
  "SpreadPutsSize ck n valsz rnd s =
     (let ka = MakeKeys n;
          va = map (rnd valsz) [0..<n];
          s' = put_all ck (zip ka va) s
      in case each (\<lambda>(k, v). CheckGet ck k v 1) (zip ka va) s' of
           Inl e \<Rightarrow> Inl e
         | Inr s'' \<Rightarrow> Inr ((ka, va), s''))"

definition SpreadPuts where
  "SpreadPuts ck n rnd s = SpreadPutsSize ck n 20 rnd s"

text \<open>The partitioner splits the servers by a random bit per server.\<close>

definition partition_sides :: "nat list \<Rightarrow> int list \<times> int list" where
  "partition_sides draws =
     (let a = map (\<lambda>r. r mod 2) draws
      in (map int (filter (\<lambda>j. a ! j = 0) [0..<length a]), map int (filter (\<lambda>j. a ! j = 1) [0..<length a])))"

subsection \<open>What the append checker accepts\<close>

definition entries_of :: "int \<Rightarrow> EntryN list \<Rightarrow> int list" where
  "entries_of c es = map eN (filter (\<lambda>e. eId e = c) es)"

text \<open>One past the last entry, or 0.\<close>

definition next_of :: "int list \<Rightarrow> int" where
  "next_of ns = (if ns = [] then 0 else last ns + 1)"

text \<open>Entries that increase strictly from 0 on.\<close>

definition increasing :: "int list \<Rightarrow> bool" where
  "increasing ns \<longleftrightarrow> sorted_wrt (<) ns \<and> (\<forall>n \<in> set ns. 0 \<le> n)"

lemma geti_update [simp]: "geti (AList.update k v m) k' = (if k' = k then v else geti m k')"
  by (simp add: geti_def update_conv')

lemma entries_of_simps [simp]:
  "entries_of c [] = []" "entries_of c (e # es) = (if eId e = c then eN e # entries_of c es else entries_of c es)"
  "entries_of c (es @ es') = entries_of c es @ entries_of c es'"
  by (simp_all add: entries_of_def)

lemma last_greatest: "sorted_wrt (<) ns \<Longrightarrow> x \<in> set ns \<Longrightarrow> (x :: int) \<le> last ns"
  by (induction ns rule: rev_induct) (auto simp: sorted_wrt_append)

lemma increasing_snoc: "increasing (ns @ [n]) \<longleftrightarrow> increasing ns \<and> next_of ns \<le> n"
proof (cases "ns = []")
  case False
  then have l: "last ns \<in> set ns" by simp
  show ?thesis
  proof
    assume a: "increasing (ns @ [n])"
    then have "\<forall>x \<in> set ns. x < n" by (simp add: increasing_def sorted_wrt_append)
    with l have "last ns < n" by blast
    then have "next_of ns \<le> n" using False by (simp add: next_of_def)
    with a show "increasing ns \<and> next_of ns \<le> n" by (simp add: increasing_def sorted_wrt_append)
  next
    assume a: "increasing ns \<and> next_of ns \<le> n"
    then have "last ns < n" "0 \<le> last ns" using l False by (auto simp: increasing_def next_of_def)
    with a last_greatest [of ns] show "increasing (ns @ [n])"
      by (auto simp: increasing_def sorted_wrt_append) (metis order_le_less_trans)
  qed
qed (simp add: increasing_def next_of_def)

lemma increasing_append: "increasing (ms @ ns) \<Longrightarrow> increasing ms"
  by (simp add: increasing_def sorted_wrt_append)

lemma next_of_snoc [simp]: "next_of (ns @ [n]) = n + 1"
  by (simp add: next_of_def)

text \<open>The loop over the entries, from the point where \<open>seen\<close> have been processed.\<close>

definition tracked :: "EntryN list \<Rightarrow> (int, int) gomap \<Rightarrow> (int, int) gomap \<Rightarrow> bool" where
  "tracked seen expect skipped \<longleftrightarrow>
     (\<forall>c. increasing (entries_of c seen) \<and> geti expect c = next_of (entries_of c seen) \<and>
        geti skipped c = next_of (entries_of c seen) - int (length (entries_of c seen)))"

lemma tracked_step:
  assumes "tracked seen expect skipped" and "geti expect (eId e) \<le> eN e"
  shows "tracked (seen @ [e]) (AList.update (eId e) (eN e + 1) expect)
    (AList.update (eId e) (geti skipped (eId e) + (eN e - geti expect (eId e))) skipped)"
  using assms by (auto simp: tracked_def increasing_snoc)

lemma tracked_step_same:
  assumes "tracked seen expect skipped" and "geti expect (eId e) = eN e"
  shows "tracked (seen @ [e]) (AList.update (eId e) (geti expect (eId e) + 1) expect) skipped"
  using assms by (auto simp: tracked_def increasing_snoc)

lemma check_entries_ok:
  assumes "tracked seen expect skipped" and "\<forall>c. increasing (entries_of c (seen @ es))"
  shows "\<exists>expect' skipped'. check_entries es expect skipped = Inr (expect', skipped') \<and> tracked (seen @ es) expect' skipped' \<and>
    set (keys expect') = set (keys expect) \<union> eId ` set es \<and> (wf_map expect \<longrightarrow> wf_map expect')"
  using assms
proof (induction es arbitrary: seen expect skipped)
  case (Cons e es)
  have "increasing ((entries_of (eId e) seen @ [eN e]) @ entries_of (eId e) es)"
    using Cons.prems(2) [rule_format, of "eId e"] by simp
  from increasing_append [OF this] have le: "geti expect (eId e) \<le> eN e"
    using Cons.prems(1) by (simp add: tracked_def increasing_snoc)
  have rest: "\<forall>c. increasing (entries_of c ((seen @ [e]) @ es))" using Cons.prems(2) by simp
  have upd: "set (keys (AList.update k v m)) = insert k (set (keys m))" for k v and m :: "(int, int) gomap"
    by (induction m) auto
  show ?case
  proof (cases "geti expect (eId e) = eN e")
    case True
    from Cons.IH [OF tracked_step_same [OF Cons.prems(1) True] rest] True show ?thesis
      by (auto simp: upd distinct_update simp del: set_map)
  next
    case False
    from Cons.IH [OF tracked_step [OF Cons.prems(1) le] rest] False le show ?thesis
      by (auto simp: upd distinct_update Let_def simp del: set_map)
  qed
qed auto

lemma check_entries_only:
  assumes "tracked seen expect skipped" and "check_entries es expect skipped = Inr r"
  shows "\<forall>c. increasing (entries_of c (seen @ es))"
  using assms
proof (induction es arbitrary: seen expect skipped)
  case Nil
  then show ?case by (simp add: tracked_def)
next
  case (Cons e es)
  then have le: "geti expect (eId e) \<le> eN e" by (auto split: if_splits)
  show ?case
  proof (cases "geti expect (eId e) = eN e")
    case True
    with Cons.IH [OF tracked_step_same [OF Cons.prems(1) True]] Cons.prems(2) show ?thesis by simp
  next
    case False
    with Cons.IH [OF tracked_step [OF Cons.prems(1) le]] Cons.prems(2) le show ?thesis by (simp add: Let_def)
  qed
qed

lemma check_clients_iff:
  "check_clients cs skipped rs = Inr () \<longleftrightarrow> (\<forall>(c, n) \<in> set cs. 0 \<le> c \<and> c < int (length rs) \<and>
     geti skipped c \<le> Nmaybe (rs ! nat c) \<and> n \<le> Nok (rs ! nat c) + Nmaybe (rs ! nat c))"
  by (induction cs) (auto simp: not_less not_le split: if_splits)

lemma geti_zero: "geti (map (\<lambda>i. (int i, 0)) [0..<n]) c = 0"
proof -
  have "v = 0" if "map_of (map (\<lambda>i. (int i, 0)) [0..<n]) c = Some v" for v :: int
    using map_of_SomeD [OF that] by auto
  then show ?thesis by (auto simp: geti_def split: option.split)
qed

lemma tracked_zero: "tracked [] (map (\<lambda>i. (int i, 0)) [0..<n]) (map (\<lambda>i. (int i, 0)) [0..<n])"
  by (simp add: tracked_def geti_zero increasing_def next_of_def)

text \<open>The clients that the checker looks at: those that ran and those that occur in the value.\<close>

definition checked_clients :: "EntryN list \<Rightarrow> nat \<Rightarrow> int set" where
  "checked_clients es n = int ` {..<n} \<union> eId ` set es"

lemma CheckAppends_iff:
  "CheckAppends es n rs ver = Inr () \<longleftrightarrow>
     (\<forall>c. increasing (entries_of c es)) \<and> int (length es) + 1 = sint ver \<and>
     (\<forall>c \<in> checked_clients es n. 0 \<le> c \<and> c < int (length rs) \<and>
        next_of (entries_of c es) - int (length (entries_of c es)) \<le> Nmaybe (rs ! nat c) \<and>
        next_of (entries_of c es) \<le> Nok (rs ! nat c) + Nmaybe (rs ! nat c))"
proof -
  let ?zero = "map (\<lambda>i. (int i, 0 :: int)) [0..<n]"
  show ?thesis
  proof (cases "\<forall>c. increasing (entries_of c es)")
    case False
    have "check_entries es ?zero ?zero \<noteq> Inr r" for r
    proof
      assume r: "check_entries es ?zero ?zero = Inr r"
      from check_entries_only [OF tracked_zero r] False show False by simp
    qed
    then have "CheckAppends es n rs ver \<noteq> Inr ()"
      unfolding CheckAppends_def Let_def by (cases "check_entries es ?zero ?zero") auto
    with False show ?thesis by simp
  next
    case True
    then obtain ex sk where r: "check_entries es ?zero ?zero = Inr (ex, sk)" and t: "tracked es ex sk"
      and ks: "set (keys ex) = set (keys ?zero) \<union> eId ` set es" and wf: "wf_map ex"
      using check_entries_ok [OF tracked_zero, of es n] by (auto simp: distinct_map inj_on_def comp_def)
    have dom: "set (keys ex) = checked_clients es n"
      unfolding ks by (auto simp: checked_clients_def image_image)
    have "(c, m) \<in> set ex \<longleftrightarrow> c \<in> checked_clients es n \<and> m = next_of (entries_of c es)" for c m
    proof -
      have "(c, m) \<in> set ex \<longleftrightarrow> map_of ex c = Some m" using wf by simp
      also have "\<dots> \<longleftrightarrow> c \<in> set (keys ex) \<and> m = geti ex c"
        by (cases "map_of ex c") (auto simp: geti_def map_of_None_keys dest: map_of_Some_keys simp del: set_map map_of_eq_None_iff)
      finally show ?thesis using t dom by (simp add: tracked_def del: set_map)
    qed
    then have "(\<forall>(c, m) \<in> set ex. P c m) \<longleftrightarrow> (\<forall>c \<in> checked_clients es n. P c (next_of (entries_of c es)))" for P
      by (simp add: Ball_def split_paired_All)
    with r t True show ?thesis by (auto simp: CheckAppends_def check_clients_iff tracked_def)
  qed
qed

subsection \<open>The JSON text of entries\<close>

definition enc_EntryV :: "EntryV \<Rightarrow> jvalue" where
  "enc_EntryV e = JObj [(''Id'', enc_int (Id e)), (''V'', enc_int (uint (V e)))]"

definition EntryV_field :: "string \<Rightarrow> EntryV decoder option" where
  "EntryV_field = map_of
     [(''ID'', \<lambda>v e. map_option (\<lambda>i. e\<lparr>Id := i\<rparr>) (dec_int v (Id e))),
      (''V'', \<lambda>v e. map_option (\<lambda>n. e\<lparr>V := n\<rparr>) (dec_uint64 v (V e)))]"

definition json_EntryV :: "EntryV json" where
  "json_EntryV = \<lparr>Marshal = \<lambda>e. print (enc_EntryV e),
     Unmarshal = \<lambda>s. Unmarshal_json (dec_struct EntryV_field) s \<lparr>Id = 0, V = 0\<rparr>\<rparr>"

definition enc_EntryN :: "EntryN \<Rightarrow> jvalue" where
  "enc_EntryN e = JObj [(''Id'', enc_int (eId e)), (''N'', enc_int (eN e))]"

definition EntryN_field :: "string \<Rightarrow> EntryN decoder option" where
  "EntryN_field = map_of
     [(''ID'', \<lambda>v e. map_option (\<lambda>i. e\<lparr>eId := i\<rparr>) (dec_int v (eId e))),
      (''N'', \<lambda>v e. map_option (\<lambda>n. e\<lparr>eN := n\<rparr>) (dec_int v (eN e)))]"

definition json_entries :: "EntryN list json" where
  "json_entries = \<lparr>Marshal = \<lambda>es. print (enc_slice enc_EntryN es),
     Unmarshal = \<lambda>s. Unmarshal_json (dec_slice (dec_struct EntryN_field) \<lparr>eId = 0, eN = 0\<rparr>) s []\<rparr>"

definition entries_fit :: "EntryN list \<Rightarrow> bool" where
  "entries_fit es \<longleftrightarrow> list_all (\<lambda>e. int64 (eId e) \<and> int64 (eN e)) es"

lemma fold_entry_names: "foldName ''Id'' = ''ID''" "foldName ''V'' = ''V''" "foldName ''N'' = ''N''"
  by code_simp+

lemma valid_entry_names: "valid_utf8 ''Id''" "valid_utf8 ''V''" "valid_utf8 ''N''"
  by (rule ascii_valid, simp add: byte_of_def)+

lemma json_EntryV_back: "int64 (Id e) \<Longrightarrow> Unmarshal json_EntryV (Marshal json_EntryV e) = Some e"
proof -
  assume e: "int64 (Id e)"
  have "parse_json (print (enc_EntryV e)) = Some (enc_EntryV e)"
    by (rule parse_print) (simp_all add: enc_EntryV_def valid_entry_names maxNestingDepth_def)
  with e show ?thesis
    by (simp add: json_EntryV_def Unmarshal_json_def) (simp add: enc_EntryV_def EntryV_field_def fold_entry_names del: foldName.simps)
qed

lemma json_entries_back: "entries_fit es \<Longrightarrow> Unmarshal json_entries (Marshal json_entries es) = Some es"
proof -
  assume es: "entries_fit es"
  have d: "dec_struct EntryN_field (enc_EntryN e) \<lparr>eId = 0, eN = 0\<rparr> = Some e" if "e \<in> set es" for e
    using es that by (simp add: entries_fit_def list_all_iff enc_EntryN_def EntryN_field_def fold_entry_names del: foldName.simps)
  have "parse_json (print (enc_slice enc_EntryN es)) = Some (enc_slice enc_EntryN es)"
  proof (rule parse_print)
    show "plain (enc_slice enc_EntryN es)"
      by (rule plain_enc_slice) (simp add: enc_EntryN_def valid_entry_names)
    have "depth (enc_slice enc_EntryN es) \<le> Suc 1"
      by (rule depth_enc_slice) (simp add: enc_EntryN_def)
    then show "depth (enc_slice enc_EntryN es) \<le> maxNestingDepth" by (simp add: maxNestingDepth_def)
  qed
  with dec_enc_slice [of es "dec_struct EntryN_field" enc_EntryN, OF d] show ?thesis
    by (simp add: json_entries_def Unmarshal_json_def)
qed

interpretation entryv_text: json_format "Marshal json_EntryV" "Unmarshal json_EntryV" "\<lambda>e. int64 (Id e)" "(=)"
  by unfold_locales (simp_all add: json_EntryV_back)

interpretation entries_text: json_format "Marshal json_entries" "Unmarshal json_entries" entries_fit "(=)"
  by unfold_locales (simp_all add: json_entries_back)

subsection \<open>Runs of appending clients\<close>

text \<open>The operations of one appending client, as an automaton over its log.\<close>

datatype append_phase = AIdle | AGot "EntryN list" Tversion

record append_state =
  a_i :: int
  a_ok :: int
  a_maybe :: int
  a_phase :: append_phase

definition append_step :: "EntryN list json \<Rightarrow> int \<Rightarrow> operation \<Rightarrow> append_state \<Rightarrow> append_state option" where
  "append_step j me v a = (case a_phase a of
      AIdle \<Rightarrow>
        if is_get (Input v) \<and> Err (Output v) = OK
        then map_option (\<lambda>es. a\<lparr>a_phase := AGot es (oVersion (Output v))\<rparr>) (Unmarshal j (oValue (Output v)))
        else None
    | AGot es ver \<Rightarrow>
        if is_put (Input v) \<and> Value (Input v) = Marshal j (es @ [\<lparr>eId = me, eN = a_i a\<rparr>]) \<and> Version (Input v) = ver
        then Some (if Err (Output v) = OK then a\<lparr>a_i := a_i a + 1, a_ok := a_ok a + 1, a_phase := AIdle\<rparr>
              else if Err (Output v) = ErrMaybe then a\<lparr>a_i := a_i a + 1, a_maybe := a_maybe a + 1, a_phase := AIdle\<rparr>
              else a\<lparr>a_phase := AIdle\<rparr>)
        else None)"

fun append_run :: "EntryN list json \<Rightarrow> int \<Rightarrow> operation list \<Rightarrow> append_state \<Rightarrow> append_state option" where
  "append_run j me [] a = Some a"
| "append_run j me (v # vs) a = Option.bind (append_step j me v a) (append_run j me vs)"

lemma append_run_append: "append_run j me (vs @ ws) a = Option.bind (append_run j me vs a) (append_run j me ws)"
  by (induction vs arbitrary: a) (auto split: bind_split)

abbreviation at_idle :: "int \<Rightarrow> int \<Rightarrow> int \<Rightarrow> append_state" where
  "at_idle i ok mb \<equiv> \<lparr>a_i = i, a_ok = ok, a_maybe = mb, a_phase = AIdle\<rparr>"

lemma log_op_oplog: "oplog (log_op v s) = map_option (\<lambda>l. l @ [v]) (oplog s)"
  by (simp add: log_op_def OpLog_Append_def split: option.split)

text \<open>Each call logs one operation, with what was asked and answered.\<close>

lemma Get_log:
  assumes "Get ck key me s = ((val, ver, err), s')"
  shows "\<exists>v. oplog s' = map_option (\<lambda>l. l @ [v]) (oplog s) \<and> ClientId v = me \<and> is_get (Input v) \<and> Key (Input v) = key \<and>
    oValue (Output v) = val \<and> oVersion (Output v) = ver \<and> Err (Output v) = err"
  using assms by (auto simp: Get_def Let_def log_op_oplog split: prod.splits)

lemma Put_log:
  assumes "Put ck key value ver me s = (err, s')"
  shows "\<exists>v. oplog s' = map_option (\<lambda>l. l @ [v]) (oplog s) \<and> ClientId v = me \<and> is_put (Input v) \<and> Key (Input v) = key \<and>
    Value (Input v) = value \<and> Version (Input v) = ver \<and> Err (Output v) = err"
proof -
  obtain w where "ck_Put ck key value ver (world s) = (err, w)"
    using assms by (auto simp: Put_def Let_def split: prod.splits)
  with assms show ?thesis by (auto simp: Put_def Let_def log_op_oplog)
qed

lemma GetJson_log:
  assumes "GetJson j ck key me s = Inr (ver, x, s')"
  shows "\<exists>v. oplog s' = map_option (\<lambda>l. l @ [v]) (oplog s) \<and> ClientId v = me \<and> is_get (Input v) \<and> Key (Input v) = key \<and>
    Unmarshal j (oValue (Output v)) = Some x \<and> oVersion (Output v) = ver \<and> Err (Output v) = OK"
proof -
  from assms obtain val where "Get ck key me s = ((val, ver, OK), s')" "Unmarshal j val = Some x"
    by (auto simp: GetJson_def split: prod.splits if_splits option.splits)
  with Get_log show ?thesis by fastforce
qed

definition append_one_ok :: "EntryN list json \<Rightarrow> int \<Rightarrow> int \<Rightarrow> 'c Test \<Rightarrow> (kvt_error + bool \<times> 'c Test) \<Rightarrow> bool" where
  "append_one_ok j me i s r \<longleftrightarrow> (\<forall>ok s' l. r = Inr (ok, s') \<longrightarrow> oplog s = Some l \<longrightarrow>
    (\<exists>vs. oplog s' = Some (l @ vs) \<and> (\<forall>v \<in> set vs. ClientId v = me) \<and>
    (\<forall>n m. append_run j me vs (at_idle i n m) =
      Some (at_idle (i + 1) (n + (if ok then 1 else 0)) (m + (if ok then 0 else 1))))))"

lemma append_one_log:
  assumes "append_one j me ck i s = Some r"
  shows "append_one_ok j me i s r"
proof (rule append_one.raw_induct [where P = "\<lambda>j me ck i s r. append_one_ok j me i s r", OF _ assms])
  fix rec :: "EntryN list json \<Rightarrow> int \<Rightarrow> 'c IKVClerk \<Rightarrow> int \<Rightarrow> 'c Test \<Rightarrow> (kvt_error + bool \<times> 'c Test) option"
  fix j me ck i and s :: "'c Test" and r
  assume IH: "\<And>j me ck i s r. rec j me ck i s = Some r \<Longrightarrow> append_one_ok j me i s r"
    and body: "(case GetJson j ck ''k'' me s of Inl e \<Rightarrow> Some (Inl e)
      | Inr (ver, es, s1) \<Rightarrow>
         (case PutJson j ck ''k'' (es @ [\<lparr>eId = me, eN = i\<rparr>]) ver me s1 of (err, s2) \<Rightarrow>
            if err = OK then Some (Inr (True, s2))
            else if err = ErrMaybe then Some (Inr (False, s2))
            else rec j me ck i s2)) = Some r"
  show "append_one_ok j me i s r" unfolding append_one_ok_def
  proof (intro allI impI)
  fix ok s' l assume r: "r = Inr (ok, s')" and l: "oplog s = Some l"
  from body r obtain ver es s1 where g: "GetJson j ck ''k'' me s = Inr (ver, es, s1)"
    by (auto split: sum.splits)
  obtain err s2 where p: "PutJson j ck ''k'' (es @ [\<lparr>eId = me, eN = i\<rparr>]) ver me s1 = (err, s2)" by force
  from GetJson_log [OF g] obtain g where gg: "oplog s1 = map_option (\<lambda>l. l @ [g]) (oplog s)" "ClientId g = me" "is_get (Input g)"
    "Unmarshal j (oValue (Output g)) = Some es" "oVersion (Output g) = ver" "Err (Output g) = OK" by blast
  from Put_log [OF p [unfolded PutJson_def]] obtain v where v: "ClientId v = me" "is_put (Input v)"
    "Value (Input v) = Marshal j (es @ [\<lparr>eId = me, eN = i\<rparr>])" "Version (Input v) = ver"
    "Err (Output v) = err" "oplog s2 = map_option (\<lambda>l. l @ [v]) (oplog s1)" by blast
  have l2: "oplog s2 = Some (l @ [g, v])" using v(6) gg(1) l by simp
  have get: "append_step j me g (at_idle i n m) = Some \<lparr>a_i = i, a_ok = n, a_maybe = m, a_phase = AGot es ver\<rparr>" for n m
    using gg by (simp add: append_step_def)
  have put: "append_step j me v \<lparr>a_i = i, a_ok = n, a_maybe = m, a_phase = AGot es ver\<rparr> =
      Some (if err = OK then at_idle (i + 1) (n + 1) m else if err = ErrMaybe then at_idle (i + 1) n (m + 1) else at_idle i n m)" for n m
    using v by (simp add: append_step_def)
  show "\<exists>vs. oplog s' = Some (l @ vs) \<and> (\<forall>v \<in> set vs. ClientId v = me) \<and>
    (\<forall>n m. append_run j me vs (at_idle i n m) =
      Some (at_idle (i + 1) (n + (if ok then 1 else 0)) (m + (if ok then 0 else 1))))"
  proof (cases "err = OK \<or> err = ErrMaybe")
    case True
    with body r g p have "s' = s2" "ok = (err = OK)" by (auto split: if_splits)
    with True get put l2 v(1) gg(2) show ?thesis by (intro exI [of _ "[g, v]"]) auto
  next
    case False
    with body g p have "rec j me ck i s2 = Some r" by simp
    from IH [OF this] r l2 obtain vs where vs: "oplog s' = Some (l @ [g, v] @ vs)" "\<forall>v \<in> set vs. ClientId v = me"
      "\<forall>n m. append_run j me vs (at_idle i n m) =
        Some (at_idle (i + 1) (n + (if ok then 1 else 0)) (m + (if ok then 0 else 1)))"
      by (auto simp: append_one_ok_def)
    with False get put v(1) gg(2) show ?thesis by (intro exI [of _ "[g, v] @ vs"]) auto
  qed
  qed
qed

lemma append_client_log:
  assumes "append_client j me ck n i res s = Some (Inr (res', s'))" and "oplog s = Some l"
  shows "\<exists>vs. oplog s' = Some (l @ vs) \<and> (\<forall>v \<in> set vs. ClientId v = me) \<and>
    append_run j me vs (at_idle i (Nok res) (Nmaybe res)) = Some (at_idle (i + int n) (Nok res') (Nmaybe res'))"
  using assms
proof (induction n arbitrary: i res s l)
  case (Suc n)
  then obtain ok s1 where o: "append_one j me ck i s = Some (Inr (ok, s1))"
    and r: "append_client j me ck n (i + 1) (if ok then res\<lparr>Nok := Nok res + 1\<rparr> else res\<lparr>Nmaybe := Nmaybe res + 1\<rparr>) s1 =
      Some (Inr (res', s'))" by (auto split: option.splits sum.splits)
  from append_one_log [OF o] Suc.prems(2) obtain vs where vs: "oplog s1 = Some (l @ vs)" "\<forall>v \<in> set vs. ClientId v = me"
    "\<forall>n m. append_run j me vs (at_idle i n m) =
      Some (at_idle (i + 1) (n + (if ok then 1 else 0)) (m + (if ok then 0 else 1)))" by (auto simp: append_one_ok_def)
  from Suc.IH [OF r vs(1)] vs show ?case
    by (auto simp: append_run_append add.assoc split: if_splits)
qed simp

subsection \<open>Concurrent appends\<close>

text \<open>A sequence of operations of several clients on one key that a correct server can have carried
  out in this order: the model accepts each step, and a get returns the current version too (the
  model itself does not look at the version of a get).\<close>

fun linearizes :: "KvState \<Rightarrow> operation list \<Rightarrow> KvState option" where
  "linearizes st [] = Some st"
| "linearizes st (v # H) = (case KvStep st (Input v) (Output v) of
      (True, Inr st') \<Rightarrow>
        if is_get (Input v) \<and> oVersion (Output v) \<noteq> sVersion st then None else linearizes st' H
    | _ \<Rightarrow> None)"

lemma linearizes_Cons:
  "linearizes st (v # H) = Some st'' \<longleftrightarrow> (\<exists>st'. KvStep st (Input v) (Output v) = (True, Inr st') \<and>
     (is_get (Input v) \<longrightarrow> oVersion (Output v) = sVersion st) \<and> linearizes st' H = Some st'')"
  by (auto split: sum.splits bool.splits prod.splits)

text \<open>The state of a client against the value \<open>es\<close> of the key, after \<open>k\<close> operations.\<close>

definition client_inv :: "nat \<Rightarrow> EntryN list \<Rightarrow> KvState \<Rightarrow> nat \<Rightarrow> append_state \<Rightarrow> bool" where
  "client_inv k es st c a \<longleftrightarrow>
     0 \<le> a_i a \<and> a_i a \<le> int k \<and> increasing (entries_of (int c) es) \<and> next_of (entries_of (int c) es) \<le> a_i a \<and>
     a_ok a \<le> int (length (entries_of (int c) es)) \<and> a_ok a + a_maybe a = a_i a \<and>
     (\<forall>es' ver. a_phase a = AGot es' ver \<longrightarrow>
        unat ver \<le> unat (sVersion st) \<and> (ver = sVersion st \<longrightarrow> es' = es))"

definition append_inv :: "EntryN list json \<Rightarrow> nat \<Rightarrow> nat \<Rightarrow> EntryN list \<Rightarrow> KvState \<Rightarrow> (nat \<Rightarrow> append_state) \<Rightarrow> bool" where
  "append_inv j n k es st cs \<longleftrightarrow>
     sValue st = Marshal j es \<and> unat (sVersion st) = length es + 1 \<and> length es \<le> k \<and>
     (\<forall>e \<in> set es. 0 \<le> eId e \<and> eId e < int n \<and> 0 \<le> eN e \<and> eN e < int k) \<and>
     (\<forall>c < n. client_inv k es st c (cs c))"

lemma append_inv_fits: "append_inv j n k es st cs \<Longrightarrow> int n \<le> 2 ^ 63 \<Longrightarrow> int k \<le> 2 ^ 63 \<Longrightarrow> entries_fit es"
  by (force simp: append_inv_def entries_fit_def list_all_iff)

lemma client_inv_later: "client_inv k es st c a \<Longrightarrow> client_inv (k + 1) es st c a"
  by (simp add: client_inv_def)

text \<open>A put by another client: what this client has read is old now.\<close>

lemma client_inv_other:
  assumes "client_inv k es st d a" and "d \<noteq> c" and "unat (sVersion st') = unat (sVersion st) + 1"
  shows "client_inv (k + 1) (es @ [\<lparr>eId = int c, eN = i\<rparr>]) st' d a"
proof -
  have "unat ver < unat (sVersion st')" if "unat ver \<le> unat (sVersion st)" for ver :: Tversion
    using that assms(3) by simp
  with assms(1,2) show ?thesis by (fastforce simp: client_inv_def)
qed

lemma append_inv_step:
  assumes inv: "append_inv j n k es st cs" and c: "c < n"
    and json: "Unmarshal j (Marshal j es) = Some es"
    and st: "KvStep st (Input v) (Output v) = (True, Inr st')" "is_get (Input v) \<longrightarrow> oVersion (Output v) = sVersion st"
    and a: "append_step j (int c) v (cs c) = Some a'" and small: "k + 2 < 2 ^ 64"
  shows "\<exists>es'. append_inv j n (k + 1) es' st' (cs(c := a'))"
proof (cases "a_phase (cs c)")
  case AIdle
  with a obtain es' where g: "is_get (Input v)" "Unmarshal j (oValue (Output v)) = Some es'"
    and a': "a' = (cs c)\<lparr>a_phase := AGot es' (oVersion (Output v))\<rparr>"
    by (auto simp: append_step_def split: if_splits)
  with st have "st' = st" "oValue (Output v) = sValue st" "oVersion (Output v) = sVersion st"
    by (auto simp: KvStep_accepts)
  moreover from this g(2) inv json have "es' = es" by (simp add: append_inv_def)
  ultimately show ?thesis using inv a' by (intro exI [of _ es]) (auto simp: append_inv_def client_inv_def)
next
  case (AGot es0 ver)
  with a have p: "is_put (Input v)" "Value (Input v) = Marshal j (es0 @ [\<lparr>eId = int c, eN = a_i (cs c)\<rparr>])" "Version (Input v) = ver"
    and a': "a' = (if Err (Output v) = OK then (cs c)\<lparr>a_i := a_i (cs c) + 1, a_ok := a_ok (cs c) + 1, a_phase := AIdle\<rparr>
       else if Err (Output v) = ErrMaybe then (cs c)\<lparr>a_i := a_i (cs c) + 1, a_maybe := a_maybe (cs c) + 1, a_phase := AIdle\<rparr>
       else (cs c)\<lparr>a_phase := AIdle\<rparr>)"
    by (auto simp: append_step_def split: if_splits)
  have cl: "client_inv k es st c (cs c)" using inv c by (simp add: append_inv_def)
  show ?thesis
  proof (cases "ver = sVersion st")
    case True
    with cl AGot have es0: "es0 = es" by (auto simp: client_inv_def)
    from True st(1) p have ok: "Err (Output v) = OK \<or> Err (Output v) = ErrMaybe"
      and st': "st' = \<lparr>sValue = Value (Input v), sVersion = sVersion st + 1\<rparr>"
      by (auto simp: KvStep_accepts)
    let ?es = "es @ [\<lparr>eId = int c, eN = a_i (cs c)\<rparr>]"
    have ver: "unat (sVersion st') = unat (sVersion st) + 1"
      using inv small st' unat_add_one [of "sVersion st"] by (simp add: append_inv_def)
    have "client_inv (k + 1) ?es st' d ((cs(c := a')) d)" if d: "d < n" for d
    proof (cases "d = c")
      case True
      then show ?thesis using cl a' ok by (auto simp: client_inv_def increasing_snoc)
    next
      case False
      with inv d client_inv_other [OF _ False ver] show ?thesis by (simp add: append_inv_def)
    qed
    then have "append_inv j n (k + 1) ?es st' (cs(c := a'))"
      using inv cl c st' ver p(2) es0 by (auto simp: append_inv_def client_inv_def)
    then show ?thesis by blast
  next
    case False
    with st(1) p have "st' = st" and err: "Err (Output v) = ErrVersion \<or> Err (Output v) = ErrMaybe"
      by (auto simp: KvStep_accepts)
    moreover have "append_inv j n (k + 1) es st (cs(c := a'))"
      using inv a' err c by (auto simp: append_inv_def client_inv_def)
    ultimately show ?thesis by auto
  qed
qed

lemma appends_linearize:
  assumes "linearizes st H = Some st'" and "append_inv j n k es st cs"
    and json: "\<And>es. entries_fit es \<Longrightarrow> Unmarshal j (Marshal j es) = Some es"
    and "\<forall>v \<in> set H. \<exists>c < n. ClientId v = int c"
    and "\<forall>c < n. append_run j (int c) (filter (\<lambda>v. ClientId v = int c) H) (cs c) = Some (fin c)"
    and "int n \<le> 2 ^ 63" and "k + length H \<le> 2 ^ 63"
  shows "\<exists>es'. append_inv j n (k + length H) es' st' fin"
  using assms(1,2,4,5,7)
proof (induction H arbitrary: st k es cs)
  case Nil
  then have "append_inv j n k es st fin" by (auto simp: append_inv_def)
  with Nil show ?case by auto
next
  case (Cons v H)
  from Cons.prems(3) obtain c where c: "c < n" "ClientId v = int c" by auto
  from Cons.prems(1) obtain st1 where s1: "KvStep st (Input v) (Output v) = (True, Inr st1)"
    "is_get (Input v) \<longrightarrow> oVersion (Output v) = sVersion st" "linearizes st1 H = Some st'"
    unfolding linearizes_Cons by blast
  from Cons.prems(4) c obtain a where a: "append_step j (int c) v (cs c) = Some a"
    "append_run j (int c) (filter (\<lambda>v. ClientId v = int c) H) a = Some (fin c)"
    by (fastforce simp: bind_eq_Some_conv)
  have k: "k + 2 < 2 ^ 64" "int k \<le> 2 ^ 63" using Cons.prems(5) by simp_all
  note json' = json [OF append_inv_fits [OF Cons.prems(2) assms(6) k(2)]]
  from append_inv_step [OF Cons.prems(2) c(1) json' s1(1,2) a(1) k(1)] obtain es1
    where e1: "append_inv j n (k + 1) es1 st1 (cs(c := a))" by blast
  have rest: "\<forall>v \<in> set H. \<exists>c < n. ClientId v = int c" using Cons.prems(3) by simp
  have runs: "\<forall>d < n. append_run j (int d) (filter (\<lambda>v. ClientId v = int d) H) ((cs(c := a)) d) = Some (fin d)"
    using Cons.prems(4) c a(2) by auto
  have "(k + 1) + length H \<le> 2 ^ 63" using Cons.prems(5) by simp
  from Cons.IH [OF s1(3) e1 rest runs this] show ?case by simp
qed

text \<open>What \<open>CheckAppends\<close> wants follows from the invariant once every client has stopped.\<close>

lemma append_inv_checks:
  assumes inv: "append_inv j n k es st fin" and "k + 1 < 2 ^ 63" and "length rs = n"
    and fin: "\<And>c. c < n \<Longrightarrow> a_ok (fin c) = Nok (rs ! c) \<and> a_maybe (fin c) = Nmaybe (rs ! c)"
  shows "CheckAppends es n rs (sVersion st) = Inr ()"
  unfolding CheckAppends_iff
proof (intro conjI ballI)
  show "\<forall>c. increasing (entries_of c es)"
  proof
    fix c
    show "increasing (entries_of c es)"
    proof (cases "0 \<le> c \<and> c < int n")
      case True
      then obtain d where "c = int d" "d < n" by (metis nonneg_int_cases of_nat_less_iff)
      then show ?thesis using inv by (auto simp: append_inv_def client_inv_def)
    next
      case False
      then have "entries_of c es = []" using inv by (auto simp: entries_of_def append_inv_def filter_empty_conv)
      then show ?thesis by (simp add: increasing_def)
    qed
  qed
  have u: "unat (sVersion st) = length es + 1" and "length es \<le> k" using inv by (simp_all add: append_inv_def)
  then have "unat (sVersion st) < 2 ^ 63" using assms(2) by simp
  from sint_small [OF this] show "int (length es) + 1 = sint (sVersion st)" using u by simp
next
  fix c assume "c \<in> checked_clients es n"
  then have "0 \<le> c \<and> c < int n" using inv by (auto simp: checked_clients_def append_inv_def)
  then obtain d where d: "c = int d" "d < n" by (metis int_nat_eq of_nat_less_iff)
  have "next_of (entries_of (int d) es) \<le> a_i (fin d)" "a_ok (fin d) \<le> int (length (entries_of (int d) es))"
    "a_ok (fin d) + a_maybe (fin d) = a_i (fin d)" using inv d(2) by (auto simp: append_inv_def client_inv_def)
  then show "0 \<le> c" "c < int (length rs)"
    "next_of (entries_of c es) - int (length (entries_of c es)) \<le> Nmaybe (rs ! nat c)"
    "next_of (entries_of c es) \<le> Nok (rs ! nat c) + Nmaybe (rs ! nat c)"
    using d assms(3) fin by auto
qed

subsection \<open>Concurrent puts\<close>

lemma put_log_counts:
  "length (ok_versions (map (\<lambda>v. (Input v, Output v)) vs)) = length (filter (\<lambda>v. is_put (Input v) \<and> Err (Output v) = OK) vs)"
  "maybe_puts (map (\<lambda>v. (Input v, Output v)) vs) = length (filter (\<lambda>v. is_put (Input v) \<and> Err (Output v) = ErrMaybe) vs)"
  by (induction vs) (simp_all add: ok_versions_def maybe_puts_def)

abbreviation ok_puts :: "operation list \<Rightarrow> nat" where
  "ok_puts vs \<equiv> length (filter (\<lambda>v. is_put (Input v) \<and> Err (Output v) = OK) vs)"

abbreviation lost_puts :: "operation list \<Rightarrow> nat" where
  "lost_puts vs \<equiv> length (filter (\<lambda>v. is_put (Input v) \<and> Err (Output v) = ErrMaybe) vs)"

text \<open>One put of a client logs puts that failed because of the version, then one that counts.\<close>

definition one_put_ok :: "int \<Rightarrow> 'c Test \<Rightarrow> (kvt_error + (Tversion \<times> bool) \<times> 'c Test) \<Rightarrow> bool" where
  "one_put_ok me s r \<longleftrightarrow> (\<forall>ver ok s' l. r = Inr ((ver, ok), s') \<longrightarrow> oplog s = Some l \<longrightarrow>
    (\<exists>vs. oplog s' = Some (l @ vs) \<and> (\<forall>v \<in> set vs. ClientId v = me) \<and>
      ok_puts vs = (if ok then 1 else 0) \<and> lost_puts vs = (if ok then 0 else 1)))"

lemma OnePut_log:
  assumes "OnePut j me ck key ver s = Some r"
  shows "one_put_ok me s r"
proof (rule OnePut.raw_induct [where P = "\<lambda>j me ck key ver s r. one_put_ok me s r", OF _ assms])
  fix rec :: "EntryV json \<Rightarrow> int \<Rightarrow> 'c IKVClerk \<Rightarrow> string \<Rightarrow> Tversion \<Rightarrow> 'c Test \<Rightarrow> (kvt_error + (Tversion \<times> bool) \<times> 'c Test) option"
  fix j me ck key ver and s :: "'c Test" and r
  assume IH: "\<And>j me ck key ver s r. rec j me ck key ver s = Some r \<Longrightarrow> one_put_ok me s r"
    and body: "(case PutJson j ck key \<lparr>Id = me, V = ver\<rparr> ver me s of (err, s1) \<Rightarrow>
     if \<not> (err = OK \<or> err = ErrVersion \<or> err = ErrMaybe) then Some (Inl (WrongError err))
     else (case GetJson j ck key me s1 of
        Inl e \<Rightarrow> Some (Inl e)
      | Inr (ver0, e, s2) \<Rightarrow>
          if err = OK \<and> ver0 = ver + 1 \<and> Id e \<noteq> me \<and> V e \<noteq> ver then Some (Inl WrongValue)
          else if err = OK \<or> err = ErrMaybe then Some (Inr ((ver0, err = OK), s2))
          else rec j me ck key ver0 s2)) = Some r"
  show "one_put_ok me s r" unfolding one_put_ok_def
  proof (intro allI impI)
    fix ver' ok s' l assume r: "r = Inr ((ver', ok), s')" and l: "oplog s = Some l"
    obtain err s1 where p: "PutJson j ck key \<lparr>Id = me, V = ver\<rparr> ver me s = (err, s1)" by force
    with body r have err: "err = OK \<or> err = ErrVersion \<or> err = ErrMaybe" by (auto split: if_splits)
    from body r p err obtain ver0 e s2 where g: "GetJson j ck key me s1 = Inr (ver0, e, s2)"
      by (auto split: sum.splits if_splits)
    from Put_log [OF p [unfolded PutJson_def]] obtain v where v: "oplog s1 = map_option (\<lambda>l. l @ [v]) (oplog s)"
      "ClientId v = me" "is_put (Input v)" "Err (Output v) = err" by blast
    from GetJson_log [OF g] obtain w where w: "oplog s2 = map_option (\<lambda>l. l @ [w]) (oplog s1)"
      "ClientId w = me" "is_get (Input w)" by blast
    have l2: "oplog s2 = Some (l @ [v, w])" using v(1) w(1) l by simp
    have notput: "\<not> is_put (Input w)" using w(3) by simp
    show "\<exists>vs. oplog s' = Some (l @ vs) \<and> (\<forall>v \<in> set vs. ClientId v = me) \<and>
      ok_puts vs = (if ok then 1 else 0) \<and> lost_puts vs = (if ok then 0 else 1)"
    proof (cases "err = OK \<or> err = ErrMaybe")
      case True
      with body r p g err have "s' = s2" "ok = (err = OK)" by (auto split: if_splits)
      with True l2 v w notput show ?thesis by (intro exI [of _ "[v, w]"]) auto
    next
      case False
      with body r p g err have "rec j me ck key ver0 s2 = Some r" by (auto split: if_splits)
      from IH [OF this] r l2 obtain vs where "oplog s' = Some (l @ [v, w] @ vs)" "\<forall>v \<in> set vs. ClientId v = me"
        "ok_puts vs = (if ok then 1 else 0)" "lost_puts vs = (if ok then 0 else 1)"
        by (auto simp: one_put_ok_def)
      with False v w notput show ?thesis by (intro exI [of _ "[v, w] @ vs"]) auto
    qed
  qed
qed

lemma put_client_log:
  assumes "put_client j rk cli ck ka draws verm res s = Some (Inr (res', s'))" and "oplog s = Some l"
  shows "\<exists>vs. oplog s' = Some (l @ vs) \<and> (\<forall>v \<in> set vs. ClientId v = cli) \<and>
    Nok res' = Nok res + int (ok_puts vs) \<and> Nmaybe res' = Nmaybe res + int (lost_puts vs)"
  using assms
proof (induction draws arbitrary: verm res s l)
  case (Cons r draws)
  from Cons.prems(1) obtain k ver ok s1 verm' where o: "OnePut j cli ck k (verm k) s = Some (Inr ((ver, ok), s1))"
    and rest: "put_client j rk cli ck ka draws verm'
      (if ok then res\<lparr>Nok := Nok res + 1\<rparr> else res\<lparr>Nmaybe := Nmaybe res + 1\<rparr>) s1 = Some (Inr (res', s'))"
    by (auto simp: Let_def split: option.splits sum.splits if_splits)
  from OnePut_log [OF o] Cons.prems(2) obtain vs where vs: "oplog s1 = Some (l @ vs)" "\<forall>v \<in> set vs. ClientId v = cli"
    "ok_puts vs = (if ok then 1 else 0)" "lost_puts vs = (if ok then 0 else 1)" by (auto simp: one_put_ok_def)
  from Cons.IH [OF rest vs(1)] obtain ws where ws: "oplog s' = Some (l @ vs @ ws)" "\<forall>v \<in> set ws. ClientId v = cli"
    "Nok res' = Nok (if ok then res\<lparr>Nok := Nok res + 1\<rparr> else res\<lparr>Nmaybe := Nmaybe res + 1\<rparr>) + int (ok_puts ws)"
    "Nmaybe res' = Nmaybe (if ok then res\<lparr>Nok := Nok res + 1\<rparr> else res\<lparr>Nmaybe := Nmaybe res + 1\<rparr>) + int (lost_puts ws)"
    by auto
  show ?case using vs ws by (intro exI [of _ "vs @ ws"]) auto
qed simp

text \<open>Counting in an interleaving is counting in its parts.\<close>

lemma interleaving_count:
  assumes "\<forall>v \<in> set H. \<exists>c < n. ClientId v = int c"
  shows "length (filter P H) = (\<Sum>c<n. length (filter P (filter (\<lambda>v. ClientId v = int c) H)))"
  using assms
proof (induction H)
  case (Cons v H)
  then obtain c where c: "c < n" "ClientId v = int c" by auto
  have "(\<Sum>d<n. length (filter P (filter (\<lambda>v. ClientId v = int d) (v # H)))) =
      (\<Sum>d<n. (if d = c \<and> P v then 1 else 0) + length (filter P (filter (\<lambda>v. ClientId v = int d) H)))"
    using c by (intro sum.cong) auto
  also have "\<dots> = (if P v then 1 else 0) + (\<Sum>d<n. length (filter P (filter (\<lambda>v. ClientId v = int d) H)))"
    using c by (simp add: sum.distrib)
  finally show ?case using Cons by simp
qed simp

lemma sum_res_eq:
  "sum_res rs res = \<lparr>Nok = Nok res + sum_list (map Nok rs), Nmaybe = Nmaybe res + sum_list (map Nmaybe rs)\<rparr>"
  by (induction rs arbitrary: res) auto

lemma linearizes_accepts: "linearizes st H = Some st' \<Longrightarrow> accepts st (map (\<lambda>v. (Input v, Output v)) H) = Some st'"
proof (induction H arbitrary: st)
  case (Cons v H)
  from Cons.prems obtain st1 where "KvStep st (Input v) (Output v) = (True, Inr st1)" "linearizes st1 H = Some st'"
    unfolding linearizes_Cons by blast
  with Cons.IH show ?case by simp
qed simp


subsection \<open>A clerk that meets its contract\<close>

text \<open>The contract of a clerk towards a single writer: every answer is one that the model accepts,
  nothing but the key of a put changes, a get returns the current version, and only finitely many
  answers are lost (\<open>budget\<close> bounds them).\<close>

locale kv_clerk =
  fixes ck :: "'c IKVClerk" and at_key :: "'c \<Rightarrow> string \<Rightarrow> KvState" and budget :: "'c \<Rightarrow> nat"
  assumes put_law: "ck_Put ck k v n w = (err, w') \<Longrightarrow>
      KvStep (at_key w k) \<lparr>Op = 1, Key = k, Value = v, Version = n\<rparr> \<lparr>oValue = [], oVersion = 0, Err = err\<rparr> = (True, Inr (at_key w' k)) \<and>
      (\<forall>k'. k' \<noteq> k \<longrightarrow> at_key w' k' = at_key w k')"
    and put_budget: "ck_Put ck k v n w = (err, w') \<Longrightarrow> budget w' \<le> budget w \<and> (err = ErrMaybe \<longrightarrow> budget w' < budget w)"
    and get_law: "ck_Get ck k w = ((v, n, err), w') \<Longrightarrow>
      at_key w' = at_key w \<and> v = sValue (at_key w k) \<and> n = sVersion (at_key w k) \<and> (0 < n \<longrightarrow> err = OK) \<and> budget w' = budget w"
begin

text \<open>One put at version \<open>ver\<close>, as the loops see it.\<close>

lemma Put_cases:
  assumes "Put ck key value ver me s = (err, s')"
  obtains (applied) "ver = sVersion (at_key (world s) key)" "at_key (world s') key = \<lparr>sValue = value, sVersion = ver + 1\<rparr>"
      "err = OK \<or> err = ErrMaybe"
  | (refused) "ver \<noteq> sVersion (at_key (world s) key)" "at_key (world s') key = at_key (world s) key"
      "err = ErrVersion \<or> err = ErrMaybe"
proof -
  from assms obtain w where w: "ck_Put ck key value ver (world s) = (err, w)" and s': "world s' = w"
    by (auto simp: Put_def Let_def log_op_def split: prod.splits)
  from put_law [OF w] show thesis using s' applied refused by (auto simp: KvStep_accepts)
qed

lemma Put_budget:
  assumes "Put ck key value ver me s = (err, s')"
  shows "budget (world s') \<le> budget (world s) \<and> (err = ErrMaybe \<longrightarrow> budget (world s') < budget (world s))"
proof -
  from assms obtain w where w: "ck_Put ck key value ver (world s) = (err, w)" and s': "world s' = w"
    by (auto simp: Put_def Let_def log_op_def split: prod.splits)
  from put_budget [OF w] s' show ?thesis by simp
qed

text \<open>Starting at or below the current version, the loop ends: every refused put brings the
  version one step closer, and every lost answer uses up budget.\<close>

lemma put_loop_ends:
  assumes "unat ver \<le> unat (sVersion (at_key (world s) key))"
    and "unat (sVersion (at_key (world s) key)) + budget (world s) + 1 < 2 ^ 64"
  shows "\<exists>ver' s'. put_loop ck key value ver me s = Some (Inr (ver', s')) \<and>
    at_key (world s') key = \<lparr>sValue = value, sVersion = ver'\<rparr> \<and>
    unat (sVersion (at_key (world s) key)) < unat ver' \<and>
    unat ver' \<le> unat (sVersion (at_key (world s) key)) + budget (world s) + 1"
  using assms
proof (induction "(unat (sVersion (at_key (world s) key)) - unat ver) + budget (world s)" arbitrary: ver s rule: less_induct)
  case less
  let ?v = "sVersion (at_key (world s) key)"
  obtain err s1 where p: "Put ck key value ver me s = (err, s1)" by force
  note b = Put_budget [OF p]
  have up: "unat (ver + 1) = unat ver + 1" using less.prems by (intro unat_add_one) simp
  from p show ?case
  proof (cases rule: Put_cases)
    case applied
    have v1: "unat (sVersion (at_key (world s1) key)) = unat ?v + 1" using applied(1,2) up by simp
    show ?thesis
    proof (cases "err = OK")
      case True
      then have "put_loop ck key value ver me s = Some (Inr (ver + 1, s1))"
        using p by (subst put_loop.simps) simp
      then show ?thesis using applied(1,2) up by simp
    next
      case False
      with applied(3) have m: "err = ErrMaybe" by simp
      have loop: "put_loop ck key value ver me s = put_loop ck key value (ver + 1) me s1"
        using p m by (subst put_loop.simps) simp
      have "unat (ver + 1) = unat (sVersion (at_key (world s1) key))" using applied(2) by simp
      with less.hyps [of s1 "ver + 1"] b m v1 less.prems up obtain ver' s' where
        "put_loop ck key value (ver + 1) me s1 = Some (Inr (ver', s'))" "at_key (world s') key = \<lparr>sValue = value, sVersion = ver'\<rparr>"
        "unat (sVersion (at_key (world s1) key)) < unat ver'"
        "unat ver' \<le> unat (sVersion (at_key (world s1) key)) + budget (world s1) + 1" by auto
      with loop v1 b m show ?thesis by auto
    qed
  next
    case refused
    have lt: "unat ver < unat ?v" using less.prems(1) refused(1) by (simp add: word_unat_eq_iff)
    have loop: "put_loop ck key value ver me s = put_loop ck key value (ver + 1) me s1"
      using p refused(3) by (subst put_loop.simps) auto
    have "(unat (sVersion (at_key (world s1) key)) - unat (ver + 1)) + budget (world s1) < (unat ?v - unat ver) + budget (world s)"
      "unat (ver + 1) \<le> unat (sVersion (at_key (world s1) key))"
      "unat (sVersion (at_key (world s1) key)) + budget (world s1) + 1 < 2 ^ 64"
      using b lt up refused(2) less.prems by (simp_all, linarith+)
    from less.hyps [OF this] refused(2) obtain ver' s' where
      "put_loop ck key value (ver + 1) me s1 = Some (Inr (ver', s'))" "at_key (world s') key = \<lparr>sValue = value, sVersion = ver'\<rparr>"
      "unat ?v < unat ver'" "unat ver' \<le> unat ?v + budget (world s1) + 1" by metis
    with loop b show ?thesis by auto
  qed
qed

end

text \<open>A clerk in the terms of the model: an object per key and a schedule of lost answers.\<close>

record store_world =
  objs :: "string \<Rightarrow> KvState"
  losses :: "bool list"
  clock :: int

definition model_clerk :: "store_world IKVClerk" where
  "model_clerk = \<lparr>
     ck_Get = (\<lambda>k w. ((sValue (objs w k), sVersion (objs w k), if sVersion (objs w k) = 0 then ErrNoKey else OK), w\<lparr>clock := clock w + 1\<rparr>)),
     ck_Put = (\<lambda>k v n w.
       let lost = (losses w \<noteq> [] \<and> hd (losses w));
           w1 = w\<lparr>losses := tl (losses w), clock := clock w + 1\<rparr>
       in if sVersion (objs w k) = n
          then (if lost then ErrMaybe else OK, w1\<lparr>objs := (objs w)(k := \<lparr>sValue = v, sVersion = n + 1\<rparr>)\<rparr>)
          else (if lost then ErrMaybe else ErrVersion, w1)),
     ck_now = clock\<rparr>"

definition lost_left :: "store_world \<Rightarrow> nat" where
  "lost_left w = length (filter id (losses w))"

interpretation mclerk: kv_clerk model_clerk objs lost_left
proof
  fix k v n w err w'
  assume p: "ck_Put model_clerk k v n w = (err, w')"
  then show "KvStep (objs w k) \<lparr>Op = 1, Key = k, Value = v, Version = n\<rparr> \<lparr>oValue = [], oVersion = 0, Err = err\<rparr> = (True, Inr (objs w' k)) \<and>
      (\<forall>k'. k' \<noteq> k \<longrightarrow> objs w' k' = objs w k')"
    by (auto simp: model_clerk_def Let_def KvStep_def split: if_splits)
  have "length (filter id (tl xs)) \<le> length (filter id xs) \<and> (xs \<noteq> [] \<and> hd xs \<longrightarrow> length (filter id (tl xs)) < length (filter id xs))"
    for xs by (cases xs) auto
  with p show "lost_left w' \<le> lost_left w \<and> (err = ErrMaybe \<longrightarrow> lost_left w' < lost_left w)"
    by (auto simp: model_clerk_def Let_def lost_left_def split: if_splits)
next
  fix k w v n err w'
  assume "ck_Get model_clerk k w = ((v, n, err), w')"
  then show "objs w' = objs w \<and> v = sValue (objs w k) \<and> n = sVersion (objs w k) \<and> (0 < n \<longrightarrow> err = OK) \<and> lost_left w' = lost_left w"
    by (auto simp: model_clerk_def lost_left_def)
qed


subsection \<open>Properties\<close>

text \<open>C16. Soundness of the append test: take any number of clients that ran \<open>OneClientAppend\<close>
  against any clerks, and suppose that some order of all the logged operations is one that a
  correct server can produce, starting from the text of the empty list at version 1. Then the final
  value is the JSON text of a list that \<open>CheckAppends\<close> accepts with the results that the clients
  reported, whatever was lost, retried or refused.\<close>

theorem appends_pass_check:
  assumes "\<And>c. c < n \<Longrightarrow> OneClientAppend json_entries (int c) (ck c) (iters c) (s c) = Some (Inr (rs ! c, s' c)) \<and>
      oplog (s c) = Some [] \<and> oplog (s' c) = Some (lg c)"
    and "length rs = n" and "int n \<le> 2 ^ 63"
    and "\<forall>v \<in> set H. \<exists>c < n. ClientId v = int c" and "\<And>c. c < n \<Longrightarrow> filter (\<lambda>v. ClientId v = int c) H = lg c"
    and "linearizes \<lparr>sValue = Marshal json_entries [], sVersion = 1\<rparr> H = Some st" and "length H + 1 < 2 ^ 63"
  shows "\<exists>es. Unmarshal json_entries (sValue st) = Some es \<and> CheckAppends es n rs (sVersion st) = Inr ()"
proof -
  define fin where "fin c = at_idle (int (iters c)) (Nok (rs ! c)) (Nmaybe (rs ! c))" for c
  have run: "append_run json_entries (int c) (filter (\<lambda>v. ClientId v = int c) H) (at_idle 0 0 0) = Some (fin c)" if c: "c < n" for c
    using append_client_log [of json_entries "int c" "ck c" "iters c" 0 "\<lparr>Nok = 0, Nmaybe = 0\<rparr>" "s c" "rs ! c" "s' c" "[]"]
      assms(1,5) [OF c] by (auto simp: OneClientAppend_def fin_def)
  have "append_inv json_entries n 0 [] \<lparr>sValue = Marshal json_entries [], sVersion = 1\<rparr> (\<lambda>c. at_idle 0 0 0)"
    by (simp add: append_inv_def client_inv_def increasing_def next_of_def)
  from appends_linearize [OF assms(6) this json_entries_back assms(4)] run assms(3,7) obtain es
    where inv: "append_inv json_entries n (length H) es st fin" by auto
  have "entries_fit es" using append_inv_fits [OF inv assms(3)] assms(7) by simp
  then have "Unmarshal json_entries (sValue st) = Some es"
    using inv json_entries_back by (simp add: append_inv_def)
  with append_inv_checks [OF inv assms(7,2)] show ?thesis by (auto simp: fin_def)
qed

definition demo_entries :: "EntryN list" where
  "demo_entries = [\<lparr>eId = 0, eN = 0\<rparr>]"

lemma demo_fit: "Unmarshal json_entries (Marshal json_entries []) = Some []"
  "Unmarshal json_entries (Marshal json_entries demo_entries) = Some demo_entries"
  by (rule json_entries_back, simp add: entries_fit_def demo_entries_def)+

definition demo_world :: "bool list \<Rightarrow> store_world Test" where
  "demo_world ls = \<lparr>world = \<lparr>objs = (\<lambda>k. \<lparr>sValue = Marshal json_entries [], sVersion = 1\<rparr>), losses = ls, clock = 0\<rparr>,
     oplog = Some [], ops = 0, infos = []\<rparr>"

definition demo_got :: operation where
  "demo_got = \<lparr>ClientId = 0, Input = \<lparr>Op = 0, Key = ''k'', Value = [], Version = 0\<rparr>, CallTime = 0,
     Output = \<lparr>oValue = Marshal json_entries [], oVersion = 1, Err = OK\<rparr>, ReturnTime = 1\<rparr>"

definition demo_appended :: operation where
  "demo_appended = \<lparr>ClientId = 0, Input = \<lparr>Op = 1, Key = ''k'', Value = Marshal json_entries demo_entries, Version = 1\<rparr>, CallTime = 1,
     Output = \<lparr>oValue = [], oVersion = 0, Err = OK\<rparr>, ReturnTime = 2\<rparr>"

lemma demo_append:
  "\<exists>s'. OneClientAppend json_entries 0 model_clerk 1 (demo_world []) = Some (Inr (\<lparr>Nok = 1, Nmaybe = 0\<rparr>, s')) \<and>
     oplog s' = Some [demo_got, demo_appended]"
proof -
  have g: "GetJson json_entries model_clerk ''k'' 0 (demo_world []) = Inr (1, [], log_op demo_got
      (demo_world []\<lparr>world := (world (demo_world []))\<lparr>clock := 1\<rparr>\<rparr>))" (is "_ = Inr (1, [], ?s1)")
    by (simp add: GetJson_def Get_def model_clerk_def demo_world_def demo_fit demo_got_def Let_def)
  obtain err s2 where p: "PutJson json_entries model_clerk ''k'' demo_entries 1 0 ?s1 = (err, s2)" by force
  then have s2: "err = OK" "oplog s2 = Some [demo_got, demo_appended]"
    by (auto simp: PutJson_def Put_def model_clerk_def Let_def demo_world_def log_op_def OpLog_Append_def demo_appended_def)
  with g p have "OneClientAppend json_entries 0 model_clerk 1 (demo_world []) = Some (Inr (\<lparr>Nok = 1, Nmaybe = 0\<rparr>, s2))"
    by (simp add: OneClientAppend_def append_one.simps demo_entries_def)
  with s2 show ?thesis by blast
qed

theorem appends_pass_check_witness:
  "CheckAppends demo_entries 1 [\<lparr>Nok = 1, Nmaybe = 0\<rparr>] 2 = Inr ()"
proof -
  from demo_append obtain s' where
    r: "OneClientAppend json_entries 0 model_clerk 1 (demo_world []) = Some (Inr (\<lparr>Nok = 1, Nmaybe = 0\<rparr>, s'))"
      "oplog s' = Some [demo_got, demo_appended]" by blast
  have lin: "linearizes \<lparr>sValue = Marshal json_entries [], sVersion = 1\<rparr> [demo_got, demo_appended] =
      Some \<lparr>sValue = Marshal json_entries demo_entries, sVersion = 2\<rparr>"
    by (simp add: KvStep_def demo_got_def demo_appended_def)
  have c: "ClientId demo_got = 0" "ClientId demo_appended = 0" by (simp_all add: demo_got_def demo_appended_def)
  have "\<exists>es. Unmarshal json_entries (Marshal json_entries demo_entries) = Some es \<and> CheckAppends es 1 [\<lparr>Nok = 1, Nmaybe = 0\<rparr>] 2 = Inr ()"
    using appends_pass_check [where n = 1 and H = "[demo_got, demo_appended]" and s = "\<lambda>c. demo_world []" and ck = "\<lambda>c. model_clerk"
        and iters = "\<lambda>c. 1" and s' = "\<lambda>c. s'" and lg = "\<lambda>c. [demo_got, demo_appended]" and rs = "[\<lparr>Nok = 1, Nmaybe = 0\<rparr>]", OF _ _ _ _ _ lin] r c
    by (simp add: demo_world_def)
  then show ?thesis by (simp add: demo_fit)
qed

text \<open>What \<open>CheckAppends\<close> accepts, exactly: each client's entries increase strictly from 0 on;
  the number of entries plus one is the version; and for each client that ran or occurs in the
  value there is a result, the numbers that it skipped are at most its maybe puts, and its last
  number is below the number of its puts.\<close>

theorem CheckAppends_exact:
  "CheckAppends es n rs ver = Inr () \<longleftrightarrow>
     (\<forall>c. sorted_wrt (<) (entries_of c es) \<and> (\<forall>m \<in> set (entries_of c es). 0 \<le> m)) \<and> int (length es) + 1 = sint ver \<and>
     (\<forall>c \<in> int ` {..<n} \<union> eId ` set es. 0 \<le> c \<and> c < int (length rs) \<and>
        next_of (entries_of c es) - int (length (entries_of c es)) \<le> Nmaybe (rs ! nat c) \<and>
        next_of (entries_of c es) \<le> Nok (rs ! nat c) + Nmaybe (rs ! nat c))"
  unfolding CheckAppends_iff increasing_def checked_clients_def by blast

theorem CheckAppends_exact_witness:
  "CheckAppends [\<lparr>eId = 0, eN = 1\<rparr>, \<lparr>eId = 0, eN = 0\<rparr>] 1 [\<lparr>Nok = 1, Nmaybe = 9\<rparr>] 3 \<noteq> Inr () \<and>
   CheckAppends [\<lparr>eId = 0, eN = 0\<rparr>, \<lparr>eId = 0, eN = 2\<rparr>] 1 [\<lparr>Nok = 2, Nmaybe = 0\<rparr>] 3 \<noteq> Inr ()"
  unfolding CheckAppends_exact by (simp add: next_of_def)

text \<open>C17. Soundness of the concurrent put test: clients that run \<open>OneClientPut\<close> on one key against a
  linearizable server, then a read of the final version: \<open>CheckPutConcurrent\<close> succeeds, exactly
  counting the puts on a reliable network (no answer lost) and bounding them otherwise.\<close>

theorem concurrent_puts_pass_check:
  assumes "\<And>c. c < n \<Longrightarrow> OneClientPut j rk (int c) (ck c) [key] (draws c) (s c) = Some (Inr (rs ! c, s' c)) \<and>
      oplog (s c) = Some [] \<and> oplog (s' c) = Some (lg c)"
    and "length rs = n"
    and "\<forall>v \<in> set H. \<exists>c < n. ClientId v = int c" and "\<And>c. c < n \<Longrightarrow> filter (\<lambda>v. ClientId v = int c) H = lg c"
    and "accepts KvInit (map (\<lambda>v. (Input v, Output v)) H) = Some st" and "length H < 2 ^ 64"
    and "GetJson j' ckr key (-1) t = Inr (sVersion st, e, t')"
    and "reliable \<longrightarrow> (\<forall>v \<in> set H. Err (Output v) \<noteq> ErrMaybe)"
  shows "\<exists>res. CheckPutConcurrent j' ckr key rs \<lparr>Nok = 0, Nmaybe = 0\<rparr> reliable t = Inr (res, t') \<and>
    Nok res \<le> uint (sVersion st) \<and> uint (sVersion st) \<le> Nok res + Nmaybe res"
proof -
  define ok where "ok = ok_puts H"
  define lost where "lost = lost_puts H"
  have counts: "Nok (rs ! c) = int (ok_puts (lg c)) \<and> Nmaybe (rs ! c) = int (lost_puts (lg c))" if "c < n" for c
    using assms(1) [OF that] put_client_log [of j rk "int c" "ck c" "[key]" "draws c" "\<lambda>k. 0" "\<lparr>Nok = 0, Nmaybe = 0\<rparr>" "s c" "rs ! c" "s' c" "[]"]
    by (auto simp: OneClientPut_def)
  have sums: "sum_list (map f rs) = (\<Sum>c<n. f (rs ! c))" for f :: "ClntRes \<Rightarrow> int"
    using assms(2) by (simp add: sum_list_sum_nth lessThan_atLeast0)
  have "ok = (\<Sum>c<n. ok_puts (lg c))" "lost = (\<Sum>c<n. lost_puts (lg c))"
    unfolding ok_def lost_def by (subst interleaving_count [OF assms(3)], rule sum.cong, simp_all add: assms(4))+
  then have tot: "sum_list (map Nok rs) = int ok" "sum_list (map Nmaybe rs) = int lost"
    using counts by (simp_all add: sums)
  have v: "ok \<le> unat (sVersion st)" "unat (sVersion st) \<le> ok + lost"
    using accepted_versions [OF assms(5)] assms(6) by (simp_all add: KvInit_def put_log_counts ok_def lost_def)
  have "ok + lost \<le> length H"
    unfolding ok_def lost_def by (induction H) auto
  then have "ok + lost < 2 ^ 64" using assms(6) by (rule order_le_less_trans)
  then have "int (ok + lost) < int (2 ^ 64)" by (simp only: of_nat_less_iff)
  then have small: "int ok + int lost < 2 ^ 64" by simp
  have res: "sum_res rs \<lparr>Nok = 0, Nmaybe = 0\<rparr> = \<lparr>Nok = int ok, Nmaybe = int lost\<rparr>" by (simp add: sum_res_eq tot)
  have eq: "sVersion st = word_of_int (int ok)" if "lost = 0"
  proof -
    have "unat (sVersion st) = ok" using that v by simp
    then show ?thesis by auto
  qed
  have "int ok \<le> int (unat (sVersion st))" "int (unat (sVersion st)) \<le> int (ok + lost)"
    using v by (simp_all only: of_nat_le_iff)
  then have bounds: "int ok \<le> uint (sVersion st)" "uint (sVersion st) \<le> int ok + int lost" by simp_all
  have le: "\<not> sVersion st > word_of_int (int ok + int lost)"
  proof -
    note bounds(2)
    also have "int ok + int lost = uint (word_of_int (int ok + int lost) :: Tversion)"
      unfolding uint_word_of_int using small by (simp add: take_bit_int_eq_self)
    finally show ?thesis by (simp only: not_less word_le_def)
  qed
  have "lost = 0" if reliable using that assms(8) by (auto simp: lost_def filter_empty_conv)
  then have "CheckPutConcurrent j' ckr key rs \<lparr>Nok = 0, Nmaybe = 0\<rparr> reliable t = Inr (\<lparr>Nok = int ok, Nmaybe = int lost\<rparr>, t')"
    using assms(7) eq le by (simp add: CheckPutConcurrent_def res Let_def)
  then show ?thesis using bounds by simp
qed


definition demo_text :: string where
  "demo_text = Marshal json_EntryV \<lparr>Id = 0, V = 0\<rparr>"

lemma demo_text_decodes [simp]: "Unmarshal json_EntryV demo_text = Some \<lparr>Id = 0, V = 0\<rparr>"
  unfolding demo_text_def by (rule json_EntryV_back) simp

definition demo_fresh :: "bool list \<Rightarrow> store_world Test" where
  "demo_fresh ls = \<lparr>world = \<lparr>objs = (\<lambda>k. KvInit), losses = ls, clock = 0\<rparr>, oplog = Some [], ops = 0, infos = []\<rparr>"

definition demo_put_op :: "Err \<Rightarrow> operation" where
  "demo_put_op err = \<lparr>ClientId = 0, Input = \<lparr>Op = 1, Key = ''k'', Value = demo_text, Version = 0\<rparr>,
     CallTime = 0, Output = \<lparr>oValue = [], oVersion = 0, Err = err\<rparr>, ReturnTime = 1\<rparr>"

definition demo_get_op :: operation where
  "demo_get_op = \<lparr>ClientId = 0, Input = \<lparr>Op = 0, Key = ''k'', Value = [], Version = 0\<rparr>, CallTime = 1,
     Output = \<lparr>oValue = demo_text, oVersion = 1, Err = OK\<rparr>, ReturnTime = 2\<rparr>"

lemma demo_put:
  "OneClientPut json_EntryV False 0 model_clerk [''k''] [5] (demo_fresh [True]) = Some (Inr (\<lparr>Nok = 0, Nmaybe = 1\<rparr>,
     \<lparr>world = \<lparr>objs = (\<lambda>k. KvInit)(''k'' := \<lparr>sValue = demo_text, sVersion = 1\<rparr>), losses = [], clock = 2\<rparr>,
      oplog = Some [demo_put_op ErrMaybe, demo_get_op], ops = 2, infos = []\<rparr>))"
proof -
  let ?s1 = "\<lparr>world = \<lparr>objs = (\<lambda>k. KvInit)(''k'' := \<lparr>sValue = demo_text, sVersion = 1\<rparr>), losses = [], clock = 1\<rparr>,
      oplog = Some [demo_put_op ErrMaybe], ops = 1, infos = []\<rparr>"
  have p: "PutJson json_EntryV model_clerk ''k'' \<lparr>Id = 0, V = 0\<rparr> 0 0 (demo_fresh [True]) = (ErrMaybe, ?s1)"
    by (simp add: PutJson_def Put_def model_clerk_def Let_def demo_fresh_def log_op_def OpLog_Append_def demo_text_def demo_put_op_def KvInit_def)
  have g: "GetJson json_EntryV model_clerk ''k'' 0 ?s1 = Inr (1, \<lparr>Id = 0, V = 0\<rparr>, ?s1
      \<lparr>world := (world ?s1)\<lparr>clock := 2\<rparr>, oplog := Some [demo_put_op ErrMaybe, demo_get_op], ops := 2\<rparr>)"
    by (simp add: GetJson_def Get_def model_clerk_def Let_def log_op_def OpLog_Append_def demo_get_op_def)
  show ?thesis
    by (simp add: OneClientPut_def Let_def) (subst OnePut.simps, simp add: p g)
qed

theorem concurrent_puts_pass_check_witness:
  "\<exists>res t'. CheckPutConcurrent json_EntryV model_clerk ''k'' [\<lparr>Nok = 0, Nmaybe = 1\<rparr>] \<lparr>Nok = 0, Nmaybe = 0\<rparr> False
     \<lparr>world = \<lparr>objs = (\<lambda>k. KvInit)(''k'' := \<lparr>sValue = demo_text, sVersion = 1\<rparr>), losses = [], clock = 2\<rparr>,
      oplog = None, ops = 2, infos = []\<rparr> = Inr (res, t')"
proof -
  let ?t = "\<lparr>world = \<lparr>objs = (\<lambda>k. KvInit)(''k'' := \<lparr>sValue = demo_text, sVersion = 1\<rparr>), losses = [], clock = 2\<rparr>,
      oplog = None, ops = 2, infos = []\<rparr>"
  let ?H = "[demo_put_op ErrMaybe, demo_get_op]"
  have acc: "accepts KvInit (map (\<lambda>v. (Input v, Output v)) ?H) = Some \<lparr>sValue = demo_text, sVersion = 1\<rparr>"
    by (simp add: demo_put_op_def demo_get_op_def KvStep_def KvInit_def)
  have g: "\<exists>t'. GetJson json_EntryV model_clerk ''k'' (-1) ?t =
      Inr (sVersion \<lparr>sValue = demo_text, sVersion = 1\<rparr>, \<lparr>Id = 0, V = 0\<rparr>, t')"
    by (simp add: GetJson_def Get_def model_clerk_def Let_def)
  then obtain t' where g: "GetJson json_EntryV model_clerk ''k'' (-1) ?t =
      Inr (sVersion \<lparr>sValue = demo_text, sVersion = 1\<rparr>, \<lparr>Id = 0, V = 0\<rparr>, t')" by blast
  have c: "ClientId (demo_put_op ErrMaybe) = 0" "ClientId demo_get_op = 0" by (simp_all add: demo_put_op_def demo_get_op_def)
  show ?thesis
    using concurrent_puts_pass_check [where n = 1 and H = ?H and rs = "[\<lparr>Nok = 0, Nmaybe = 1\<rparr>]" and lg = "\<lambda>c. ?H"
        and draws = "\<lambda>c. [5]" and s = "\<lambda>c. demo_fresh [True]" and reliable = False, OF _ _ _ _ acc _ g] demo_put c
    by (fastforce simp: demo_fresh_def)
qed



text \<open>The model does not look at the version or the error of a get: a history in which a get
  reports a version that the key never had is accepted, and so the linearizability check alone
  does not exclude it.\<close>

theorem model_ignores_get_version:
  "is_get i \<longrightarrow> KvStep st i (out\<lparr>oVersion := n, Err := err\<rparr>) = KvStep st i out"
  by (simp add: KvStep_def)

theorem model_ignores_get_version_witness:
  "accepts KvInit [(\<lparr>Op = 0, Key = ''k'', Value = [], Version = 0\<rparr>, \<lparr>oValue = [], oVersion = 77, Err = OK\<rparr>)] = Some KvInit"
proof -
  let ?i = "\<lparr>Op = 0, Key = ''k'', Value = [], Version = 0\<rparr>" and ?out = "\<lparr>oValue = [], oVersion = 0, Err = ErrNoKey\<rparr>"
  have "KvStep KvInit ?i (?out\<lparr>oVersion := 77, Err := OK\<rparr>) = KvStep KvInit ?i ?out"
    using model_ignores_get_version [of ?i KvInit OK 77 ?out] by simp
  then have "KvStep KvInit ?i \<lparr>oValue = [], oVersion = 77, Err = OK\<rparr> = (True, Inr KvInit)" by (simp add: KvStep_def KvInit_def)
  then show ?thesis by simp
qed


end
