(* ===== verification/Kv_Spawn.thy ===== *)
theory Kv_Spawn
  imports Kv_Tester Server_Groups Annotations
begin

section \<open>Clients that run at the same time (kvtest1/kvtest.go)\<close>

text \<open>
  \<open>SpawnClientsAndWait\<close> starts one goroutine per client (\<open>runClient\<close>), sleeps, sends one done
  signal per client on a channel they share and collects their results, each from a channel of its
  own. Both kinds of channel are unbuffered: a send and its receive are one step. The program is a
  step relation on the state of the main goroutine and of the clients; which client makes the next
  step, and which one takes a done signal, is open. A client function \<open>Fclnt\<close> is code outside: its
  local state, the body of its loop that runs when no signal is there, which may also make the
  function return by itself, and the result it returns on the signal. A client that waits in its
  \<^verbatim>\<open>select\<close> takes a signal that is being sent, as the default branch is only taken when no sender
  is blocked. The theory also has the partitioner that runs beside the clients.
\<close>

record ('l, 'k, 'w) Fclnt =
  f_init :: "nat \<Rightarrow> 'l"
  f_body :: "nat \<Rightarrow> 'k \<Rightarrow> 'l \<Rightarrow> 'w \<Rightarrow> ('l + ClntRes) \<times> 'w"
  f_done :: "'l \<Rightarrow> ClntRes"

record ('k, 'w) IClerkMaker =
  mk_MakeClerk :: "'w \<Rightarrow> 'k \<times> 'w"
  mk_DeleteClerk :: "'k \<Rightarrow> 'w \<Rightarrow> 'w"

text \<open>Where a client is: about to make its clerk; in the \<^verbatim>\<open>select\<close> of its loop; sending its result;
  deleting its clerk; gone. The variable \<open>v\<close> with the result stays visible in the last two.\<close>

datatype ('l, 'k) client =
    Made
  | Looping 'k 'l
  | Sending 'k ClntRes
  | Deleting 'k ClntRes
  | Gone ClntRes

text \<open>Where the main goroutine is; the counters of its loops are the arguments. \<open>Blocked\<close> is the
  send of a done signal that no client has taken yet.\<close>

datatype main_pc =
    Spawning nat
  | Sleeping
  | Signalling nat
  | Blocked nat
  | Collecting "ClntRes list"
  | Returned "ClntRes list"

record ('l, 'k, 'w) spawn_state =
  pc :: main_pc
  clients :: "('l, 'k) client list"
  shared :: 'w

definition spawn_init :: "'w \<Rightarrow> ('l, 'k, 'w) spawn_state" where
  "spawn_init w = \<lparr>pc = Spawning 0, clients = [], shared = w\<rparr>"

inductive spawn_step ::
  "nat \<Rightarrow> ('k, 'w) IClerkMaker \<Rightarrow> ('l, 'k, 'w) Fclnt \<Rightarrow> ('l, 'k, 'w) spawn_state \<Rightarrow> ('l, 'k, 'w) spawn_state \<Rightarrow> bool"
  for nclnt mkc fn where
  go: "pc s = Spawning i \<Longrightarrow> i < nclnt \<Longrightarrow>
    spawn_step nclnt mkc fn s (s\<lparr>pc := Spawning (i + 1), clients := clients s @ [Made]\<rparr>)"
| sleep: "pc s = Spawning i \<Longrightarrow> \<not> i < nclnt \<Longrightarrow> spawn_step nclnt mkc fn s (s\<lparr>pc := Sleeping\<rparr>)"
| wake: "pc s = Sleeping \<Longrightarrow> spawn_step nclnt mkc fn s (s\<lparr>pc := Signalling 0\<rparr>)"
| signal: "pc s = Signalling i \<Longrightarrow> i < nclnt \<Longrightarrow> spawn_step nclnt mkc fn s (s\<lparr>pc := Blocked i\<rparr>)"
| receive: "pc s = Blocked i \<Longrightarrow> c < length (clients s) \<Longrightarrow> clients s ! c = Looping ck l \<Longrightarrow>
    spawn_step nclnt mkc fn s (s\<lparr>pc := Signalling (i + 1), clients := (clients s)[c := Sending ck (f_done fn l)]\<rparr>)"
| collect: "pc s = Signalling i \<Longrightarrow> \<not> i < nclnt \<Longrightarrow> spawn_step nclnt mkc fn s (s\<lparr>pc := Collecting []\<rparr>)"
| result: "pc s = Collecting rs \<Longrightarrow> length rs < nclnt \<Longrightarrow> clients s ! length rs = Sending ck v \<Longrightarrow>
    spawn_step nclnt mkc fn s (s\<lparr>pc := Collecting (rs @ [v]), clients := (clients s)[length rs := Deleting ck v]\<rparr>)"
| return: "pc s = Collecting rs \<Longrightarrow> \<not> length rs < nclnt \<Longrightarrow> spawn_step nclnt mkc fn s (s\<lparr>pc := Returned rs\<rparr>)"
| make: "c < length (clients s) \<Longrightarrow> clients s ! c = Made \<Longrightarrow> mk_MakeClerk mkc (shared s) = (ck, w) \<Longrightarrow>
    spawn_step nclnt mkc fn s (s\<lparr>clients := (clients s)[c := Looping ck (f_init fn c)], shared := w\<rparr>)"
| iterate: "c < length (clients s) \<Longrightarrow> clients s ! c = Looping ck l \<Longrightarrow> (\<nexists>i. pc s = Blocked i) \<Longrightarrow>
    f_body fn c ck l (shared s) = (Inl l', w) \<Longrightarrow>
    spawn_step nclnt mkc fn s (s\<lparr>clients := (clients s)[c := Looping ck l'], shared := w\<rparr>)"
| give_up: "c < length (clients s) \<Longrightarrow> clients s ! c = Looping ck l \<Longrightarrow> (\<nexists>i. pc s = Blocked i) \<Longrightarrow>
    f_body fn c ck l (shared s) = (Inr v, w) \<Longrightarrow>
    spawn_step nclnt mkc fn s (s\<lparr>clients := (clients s)[c := Sending ck v], shared := w\<rparr>)"
| delete: "c < length (clients s) \<Longrightarrow> clients s ! c = Deleting ck v \<Longrightarrow>
    spawn_step nclnt mkc fn s (s\<lparr>clients := (clients s)[c := Gone v], shared := mk_DeleteClerk mkc ck (shared s)\<rparr>)"

inductive_cases spawn_stepE [consumes 1, case_names go sleep wake signal receive collect result return make iterate give_up delete]:
  "spawn_step n mkc fn s s'"

abbreviation spawn_run where
  "spawn_run n mkc fn \<equiv> (spawn_step n mkc fn)\<^sup>*\<^sup>*"

subsection \<open>The invariant\<close>

text \<open>A client has stopped once it has its result; \<open>res\<close> is that result.\<close>

fun stopped :: "('l, 'k) client \<Rightarrow> bool" where
  "stopped Made = False"
| "stopped (Looping ck l) = False"
| "stopped _ = True"

fun collected :: "('l, 'k) client \<Rightarrow> bool" where
  "collected (Deleting ck v) = True"
| "collected (Gone v) = True"
| "collected _ = False"

fun res :: "('l, 'k) client \<Rightarrow> ClntRes option" where
  "res (Sending ck v) = Some v"
| "res (Deleting ck v) = Some v"
| "res (Gone v) = Some v"
| "res _ = None"

definition count_stopped :: "('l, 'k) client list \<Rightarrow> nat" where
  "count_stopped cs = length (filter stopped cs)"

text \<open>A client function that returns only on a done signal.\<close>

definition waits :: "('l, 'k, 'w) Fclnt \<Rightarrow> bool" where
  "waits fn \<longleftrightarrow> (\<forall>c ck l w. \<exists>l' w'. f_body fn c ck l w = (Inl l', w'))"

text \<open>How many clients the loops of the main goroutine have started, stopped and collected.\<close>

fun started :: "nat \<Rightarrow> main_pc \<Rightarrow> nat" where
  "started n (Spawning i) = i"
| "started n _ = n"

fun signalled :: "nat \<Rightarrow> main_pc \<Rightarrow> nat" where
  "signalled n (Spawning i) = 0"
| "signalled n Sleeping = 0"
| "signalled n (Signalling i) = i"
| "signalled n (Blocked i) = i"
| "signalled n _ = n"

fun got :: "main_pc \<Rightarrow> ClntRes list" where
  "got (Collecting rs) = rs"
| "got (Returned rs) = rs"
| "got _ = []"

definition spawn_inv :: "nat \<Rightarrow> ('l, 'k, 'w) spawn_state \<Rightarrow> bool" where
  "spawn_inv n s \<longleftrightarrow> length (clients s) = started n (pc s) \<and> started n (pc s) \<le> n \<and> signalled n (pc s) \<le> n \<and>
     (\<forall>i. pc s = Blocked i \<longrightarrow> i < n) \<and> (\<forall>rs. pc s = Returned rs \<longrightarrow> length rs = n) \<and>
     count_stopped (clients s) = signalled n (pc s) \<and> length (got (pc s)) \<le> n \<and>
     (\<forall>c < length (clients s). collected (clients s ! c) \<longleftrightarrow> c < length (got (pc s))) \<and>
     (\<forall>c < length (got (pc s)). res (clients s ! c) = Some (got (pc s) ! c))"

lemma count_stopped_update:
  assumes "c < length cs"
  shows "count_stopped (cs[c := x]) + (if stopped (cs ! c) then 1 else 0) = count_stopped cs + (if stopped x then 1 else 0)"
  using length_filter_update [OF assms, of stopped x] by (simp add: count_stopped_def)

lemma count_stopped_same: "c < length cs \<Longrightarrow> stopped x = stopped (cs ! c) \<Longrightarrow> count_stopped (cs[c := x]) = count_stopped cs"
  using count_stopped_update [of c cs x] by (auto split: if_splits)

lemma count_stopped_new: "c < length cs \<Longrightarrow> stopped x \<Longrightarrow> \<not> stopped (cs ! c) \<Longrightarrow> count_stopped (cs[c := x]) = Suc (count_stopped cs)"
  using count_stopped_update [of c cs x] by simp

text \<open>A client that moves on without a change of its results.\<close>

lemma spawn_inv_client:
  assumes "spawn_inv n s" and "c < length (clients s)"
    and "stopped x = stopped (clients s ! c)" "collected x = collected (clients s ! c)" "res x = res (clients s ! c)"
  shows "spawn_inv n (s\<lparr>clients := (clients s)[c := x], shared := w\<rparr>)"
  using assms by (auto simp: spawn_inv_def count_stopped_same nth_list_update)

lemma all_stopped: "count_stopped cs = length cs \<Longrightarrow> c < length cs \<Longrightarrow> stopped (cs ! c)"
  unfolding count_stopped_def using filter_id_conv [of stopped cs]
  by (metis length_filter_less nth_mem order_less_irrefl)

lemma some_running: "count_stopped cs < length cs \<Longrightarrow> \<exists>c < length cs. \<not> stopped (cs ! c)"
  unfolding count_stopped_def by (metis filter_True in_set_conv_nth less_irrefl)

lemma spawn_inv_init: "spawn_inv n (spawn_init w)"
  by (simp add: spawn_inv_def spawn_init_def count_stopped_def)

lemma spawn_inv_step:
  assumes "spawn_step n mkc fn s s'" and inv: "spawn_inv n s" and "waits fn"
  shows "spawn_inv n s'"
  using assms(1)
proof (cases rule: spawn_stepE)
  case (go i)
  with inv show ?thesis by (auto simp: spawn_inv_def count_stopped_def nth_append)
next
  case (receive i c ck l)
  with inv show ?thesis
    by (auto simp: spawn_inv_def count_stopped_new nth_list_update)
next
  case (result rs ck v)
  with inv have "count_stopped ((clients s)[length rs := Deleting ck v]) = n"
    by (subst count_stopped_same) (auto simp: spawn_inv_def)
  with result inv show ?thesis
    by (auto simp: spawn_inv_def nth_list_update nth_append less_Suc_eq)
next
  case (make c ck w)
  with spawn_inv_client [OF inv, of c "Looping ck (f_init fn c)" w] show ?thesis by simp
next
  case (iterate c ck l l' w)
  with spawn_inv_client [OF inv, of c "Looping ck l'" w] show ?thesis by simp
next
  case (give_up c ck l v w)
  with assms(3) show ?thesis by (metis waits_def Inl_Inr_False prod.inject)
next
  case (delete c ck v)
  with spawn_inv_client [OF inv, of c "Gone v" "mk_DeleteClerk mkc ck (shared s)"] show ?thesis by simp
qed (use inv in \<open>auto simp: spawn_inv_def\<close>)

lemma spawn_inv_run: "spawn_run n mkc fn s s' \<Longrightarrow> spawn_inv n s \<Longrightarrow> waits fn \<Longrightarrow> spawn_inv n s'"
  by (induction rule: rtranclp_induct) (auto intro: spawn_inv_step)
subsection \<open>The results are those of the clients\<close>

text \<open>The local states that client \<open>c\<close> can have in its loop.\<close>

inductive runs :: "('l, 'k, 'w) Fclnt \<Rightarrow> nat \<Rightarrow> 'l \<Rightarrow> bool" for fn c where
  init: "runs fn c (f_init fn c)"
| body: "runs fn c l \<Longrightarrow> f_body fn c ck l w = (Inl l', w') \<Longrightarrow> runs fn c l'"

definition local_ok :: "('l, 'k, 'w) Fclnt \<Rightarrow> nat \<Rightarrow> ('l, 'k) client \<Rightarrow> bool" where
  "local_ok fn c cl \<longleftrightarrow> (\<forall>ck l. cl = Looping ck l \<longrightarrow> runs fn c l) \<and>
     (\<forall>v. res cl = Some v \<longrightarrow> (\<exists>l. runs fn c l \<and> v = f_done fn l))"

abbreviation locals_ok :: "('l, 'k, 'w) Fclnt \<Rightarrow> ('l, 'k) client list \<Rightarrow> bool" where
  "locals_ok fn cs \<equiv> \<forall>c < length cs. local_ok fn c (cs ! c)"

lemma locals_update: "locals_ok fn cs \<Longrightarrow> local_ok fn c x \<Longrightarrow> locals_ok fn (cs[c := x])"
  by (cases "c < length cs") (auto simp: nth_list_update)

lemma locals_step:
  assumes "spawn_step n mkc fn s s'" and inv: "locals_ok fn (clients s)" and "waits fn" and "spawn_inv n s"
  shows "locals_ok fn (clients s')"
  using assms(1)
proof (cases rule: spawn_stepE)
  case (go i)
  with inv show ?thesis by (auto simp: nth_append local_ok_def)
next
  case (receive i c ck l)
  with inv have "local_ok fn c (Sending ck (f_done fn l))" by (fastforce simp: local_ok_def)
  with receive inv locals_update show ?thesis by simp
next
  case (result rs ck v)
  then have "length rs < length (clients s)" using assms(4) by (simp add: spawn_inv_def)
  with result inv have "local_ok fn (length rs) (Deleting ck v)" by (fastforce simp: local_ok_def)
  with result inv locals_update show ?thesis by simp
next
  case (make c ck w)
  have "local_ok fn c (Looping ck (f_init fn c))" by (simp add: local_ok_def runs.init)
  with make inv locals_update show ?thesis by simp
next
  case (iterate c ck l l' w)
  with inv have "runs fn c l" by (auto simp: local_ok_def)
  then have "local_ok fn c (Looping ck l')" using iterate(5) by (auto simp: local_ok_def intro: runs.body)
  with iterate inv locals_update show ?thesis by simp
next
  case (give_up c ck l v w)
  with assms(3) show ?thesis by (metis waits_def Inl_Inr_False prod.inject)
next
  case (delete c ck v)
  with inv have "local_ok fn c (Gone v)" by (fastforce simp: local_ok_def)
  with delete inv locals_update show ?thesis by simp
qed (use inv in auto)

lemma reachable_spawn:
  assumes "spawn_run n mkc fn (spawn_init w) s" and "waits fn"
  shows "spawn_inv n s \<and> locals_ok fn (clients s)"
  using assms(1)
proof (induction rule: rtranclp_induct)
  case base
  show ?case using spawn_inv_init [of n w] by (simp add: spawn_init_def)
next
  case (step s t)
  with locals_step [OF step(2) _ assms(2)] spawn_inv_step [OF step(2) _ assms(2)] show ?case by blast
qed

subsection \<open>No deadlock\<close>

text \<open>A bound on the steps that bring \<open>SpawnClientsAndWait\<close> to its return.\<close>

fun rank :: "nat \<Rightarrow> main_pc \<Rightarrow> nat" where
  "rank n (Spawning i) = 3 * n + 6 + 2 * (n - i)"
| "rank n Sleeping = 3 * n + 5"
| "rank n (Signalling i) = n + 4 + 2 * (n - i)"
| "rank n (Blocked i) = n + 3 + 2 * (n - i)"
| "rank n (Collecting rs) = 1 + (n - length rs)"
| "rank n (Returned rs) = 0"

definition made :: "('l, 'k) client list \<Rightarrow> nat" where
  "made cs = length (filter (\<lambda>c. c = Made) cs)"

definition distance :: "nat \<Rightarrow> ('l, 'k, 'w) spawn_state \<Rightarrow> nat" where
  "distance n s = rank n (pc s) + made (clients s)"

lemma made_update: "c < length cs \<Longrightarrow> x \<noteq> Made \<Longrightarrow> made (cs[c := x]) + (if cs ! c = Made then 1 else 0) = made cs"
proof (induction cs arbitrary: c)
  case (Cons a cs)
  then show ?case by (cases c) (auto simp: made_def)
qed simp

lemma closer:
  assumes inv: "spawn_inv n s" and nr: "\<nexists>rs. pc s = Returned rs"
  shows "\<exists>s'. spawn_step n mkc fn s s' \<and> distance n s' < distance n s"
proof (cases "pc s")
  case (Spawning i)
  show ?thesis
  proof (cases "i < n")
    case True
    show ?thesis
      by (intro exI conjI, rule spawn_step.go [OF Spawning True])
        (simp add: Spawning distance_def made_def, insert True, arith)
  next
    case False
    show ?thesis
      by (intro exI conjI, rule spawn_step.sleep [OF Spawning False]) (simp add: Spawning False distance_def)
  qed
next
  case Sleeping
  show ?thesis
      by (intro exI conjI, rule spawn_step.wake [OF Sleeping]) (simp add: Sleeping distance_def)
next
  case (Signalling i)
  show ?thesis
  proof (cases "i < n")
    case True
    show ?thesis
      by (intro exI conjI, rule spawn_step.signal [OF Signalling True]) (simp add: Signalling True distance_def)
  next
    case False
    show ?thesis
      by (intro exI conjI, rule spawn_step.collect [OF Signalling False]) (simp add: Signalling False distance_def)
  qed
next
  case (Blocked i)
  with inv have "count_stopped (clients s) < length (clients s)" "i < n" by (auto simp: spawn_inv_def)
  with some_running obtain c where c: "c < length (clients s)" "\<not> stopped (clients s ! c)" by blast
  show ?thesis
  proof (cases "clients s ! c")
    case Made
    obtain ck w where mk: "mk_MakeClerk mkc (shared s) = (ck, w)" by force
    have "made ((clients s)[c := Looping ck (f_init fn c)]) < made (clients s)"
      using made_update [OF c(1), of "Looping ck (f_init fn c)"] Made by simp
    then show ?thesis
      by (intro exI [of _ "s\<lparr>clients := (clients s)[c := Looping ck (f_init fn c)], shared := w\<rparr>"])
        (simp add: spawn_step.make [OF c(1) Made mk] distance_def)
  next
    case (Looping ck l)
    have m: "made ((clients s)[c := Sending ck (f_done fn l)]) = made (clients s)"
      using made_update [OF c(1), of "Sending ck (f_done fn l)"] Looping by simp
    show ?thesis
      by (intro exI conjI, rule spawn_step.receive [OF Blocked c(1) Looping])
        (use m \<open>i < n\<close> in \<open>simp add: Blocked distance_def\<close>)
  qed (use c in auto)
next
  case (Collecting rs)
  show ?thesis
  proof (cases "length rs < n")
    case True
    with inv Collecting have c: "length rs < length (clients s)" "stopped (clients s ! length rs)" "\<not> collected (clients s ! length rs)"
      by (auto simp: spawn_inv_def intro: all_stopped)
    then obtain ck v where v: "clients s ! length rs = Sending ck v" by (cases "clients s ! length rs") auto
    have m: "made ((clients s)[length rs := Deleting ck v]) = made (clients s)"
      using made_update [OF c(1), of "Deleting ck v"] v by simp
    show ?thesis
      by (intro exI conjI, rule spawn_step.result [OF Collecting True v])
        (use m True in \<open>simp add: Collecting distance_def\<close>)
  next
    case False
    show ?thesis
      by (intro exI conjI, rule spawn_step.return [OF Collecting False]) (simp add: Collecting False distance_def)
  qed
qed (use nr in auto)

lemma can_return:
  assumes "spawn_inv n s" and "waits fn"
  shows "\<exists>s' rs. spawn_run n mkc fn s s' \<and> pc s' = Returned rs"
  using assms(1)
proof (induction "distance n s" arbitrary: s rule: less_induct)
  case less
  show ?case
  proof (cases "\<exists>rs. pc s = Returned rs")
    case False
    with closer [OF less.prems] obtain t where t: "spawn_step n mkc fn s t" "distance n t < distance n s" by blast
    from less.hyps [OF t(2) spawn_inv_step [OF t(1) less.prems assms(2)]] t(1) show ?thesis
      by (meson converse_rtranclp_into_rtranclp)
  qed blast
qed

text \<open>A client function that returns by itself does not take its done signal: with one client,
  the main goroutine then waits for ever.\<close>

theorem early_return_deadlocks:
  assumes "mk_MakeClerk mkc w = (ck, w1)" and "f_body fn 0 ck (f_init fn 0) w1 = (Inr v, w2)"
  shows "\<exists>s. spawn_run 1 mkc fn (spawn_init w) s \<and> pc s = Blocked 0 \<and> (\<nexists>s'. spawn_step 1 mkc fn s s')"
proof -
  let ?s = "\<lambda>p cs x. \<lparr>pc = p, clients = cs, shared = x\<rparr>"
  have st: "spawn_step 1 mkc fn (?s (Spawning 0) [] w) (?s (Spawning 1) [Made] w)"
    "spawn_step 1 mkc fn (?s (Spawning 1) [Made] w) (?s (Spawning 1) [Looping ck (f_init fn 0)] w1)"
    "spawn_step 1 mkc fn (?s (Spawning 1) [Looping ck (f_init fn 0)] w1) (?s (Spawning 1) [Sending ck v] w2)"
    "spawn_step 1 mkc fn (?s (Spawning 1) [Sending ck v] w2) (?s Sleeping [Sending ck v] w2)"
    "spawn_step 1 mkc fn (?s Sleeping [Sending ck v] w2) (?s (Signalling 0) [Sending ck v] w2)"
    "spawn_step 1 mkc fn (?s (Signalling 0) [Sending ck v] w2) (?s (Blocked 0) [Sending ck v] w2)"
    using spawn_step.go [of "?s (Spawning 0) [] w" 0 1 mkc fn]
      spawn_step.make [of 0 "?s (Spawning 1) [Made] w" mkc ck w1 1 fn]
      spawn_step.give_up [of 0 "?s (Spawning 1) [Looping ck (f_init fn 0)] w1" ck "f_init fn 0" fn v w2 1 mkc]
      spawn_step.sleep [of "?s (Spawning 1) [Sending ck v] w2" 1 1 mkc fn]
      spawn_step.wake [of "?s Sleeping [Sending ck v] w2" 1 mkc fn]
      spawn_step.signal [of "?s (Signalling 0) [Sending ck v] w2" 0 1 mkc fn] assms by simp_all
  have "spawn_run 1 mkc fn (?s (Spawning 0) [] w) (?s (Blocked 0) [Sending ck v] w2)"
    using st by (meson converse_rtranclp_into_rtranclp rtranclp.rtrancl_refl)
  moreover have "\<nexists>s'. spawn_step 1 mkc fn (?s (Blocked 0) [Sending ck v] w2) s'"
    by (auto elim!: spawn_stepE)
  ultimately show ?thesis by (auto simp: spawn_init_def)
qed

subsection \<open>The partitioner\<close>

text \<open>One round: a random bit per server, the two sides in the order of the servers, the partition
  of the network and its annotation (at time \<open>t\<close>).\<close>

definition partition_round :: "nat list \<Rightarrow> int \<Rightarrow> 'svc gn \<times> ann_state \<Rightarrow> grp_error + 'svc gn \<times> ann_state" where
  "partition_round draws t ga = (case partition_sides draws of (p, q) \<Rightarrow>
     andthen (Partition p q (fst ga)) (\<lambda>g. Inr (g, AnnotateTwoPartitions p q t (snd ga))))"

text \<open>The rounds up to the stop signal, with the draws and the times of each.\<close>

definition Partitioner :: "(nat list \<times> int) list \<Rightarrow> 'svc gn \<times> ann_state \<Rightarrow> grp_error + 'svc gn \<times> ann_state" where
  "Partitioner rounds = each (\<lambda>(draws, t). partition_round draws t) rounds"

lemma partition_sides_sets:
  "partition_sides draws = (map int (filter (\<lambda>j. draws ! j mod 2 = 0) [0..<length draws]),
     map int (filter (\<lambda>j. draws ! j mod 2 = 1) [0..<length draws]))"
  unfolding partition_sides_def Let_def length_map
  by (intro prod_eqI; simp only: fst_conv snd_conv; intro arg_cong [of _ _ "map int"] filter_cong; simp)

lemma partition_round_works:
  assumes "wf_grp (fst g)" and "length draws = length (srvs (fst g))"
  shows "\<exists>g'. partition_round draws t (g, a) = Inr (g', AnnotateTwoPartitions (fst (partition_sides draws)) (snd (partition_sides draws)) t a) \<and>
    wf_grp (fst g') \<and> length (srvs (fst g')) = length (srvs (fst g)) \<and>
    (\<forall>i < length draws. \<forall>j < length draws. up g' i j \<longleftrightarrow> draws ! i mod 2 = draws ! j mod 2)"
proof -
  let ?n = "length draws"
  let ?p = "filter (\<lambda>j. draws ! j mod 2 = 0) [0..<?n]" and ?q = "filter (\<lambda>j. draws ! j mod 2 = 1) [0..<?n]"
  have "\<exists>g'. Partition (map int ?p) (map int ?q) (fst g, snd g) = Inr g' \<and> wf_grp (fst g') \<and> grp_frame g' = grp_frame (fst g, snd g) \<and>
    (\<forall>i \<in> set ?p \<union> set ?q. connected (fst g') ! i) \<and>
    (\<forall>i \<in> set ?p \<union> set ?q. \<forall>j \<in> set ?p \<union> set ?q. up g' i j = (i \<in> set ?p \<longleftrightarrow> j \<in> set ?p))"
    by (rule Partition_sides) (use assms in auto)
  then obtain g' where g': "Partition (map int ?p) (map int ?q) g = Inr g'" "wf_grp (fst g')" "grp_frame g' = grp_frame g"
    "\<forall>i \<in> set ?p \<union> set ?q. \<forall>j \<in> set ?p \<union> set ?q. up g' i j = (i \<in> set ?p \<longleftrightarrow> j \<in> set ?p)" by auto
  from g'(3) have "srvs (fst g') = srvs (fst g)" by (cases g; cases g') (simp add: grp_frame_def)
  moreover have bit: "i \<in> set ?p \<union> set ?q \<longleftrightarrow> i < ?n" for i by auto
  ultimately show ?thesis using g' by (auto simp: partition_round_def partition_sides_sets andthen_def mod2_eq_if)
qed

lemma Partitioner_keeps:
  assumes "wf_grp (fst g)" and "\<forall>(draws, t) \<in> set rounds. length draws = length (srvs (fst g))"
  shows "\<exists>g' a'. Partitioner rounds (g, a) = Inr (g', a') \<and> wf_grp (fst g') \<and> length (srvs (fst g')) = length (srvs (fst g))"
  using assms
proof (induction rounds arbitrary: g a)
  case (Cons r rounds)
  obtain draws t where r: "r = (draws, t)" by force
  with Cons.prems partition_round_works [of g draws t a] obtain g1 a1 where
    g1: "partition_round draws t (g, a) = Inr (g1, a1)" "wf_grp (fst g1)" "length (srvs (fst g1)) = length (srvs (fst g))" by auto
  with Cons.IH [OF g1(2), of a1] Cons.prems(2) r show ?case by (auto simp: Partitioner_def)
qed (simp add: Partitioner_def)

subsection \<open>Making the test\<close>

text \<open>\<open>MakeTest\<close> starts with an empty log. The clerk maker and the flag for random keys are passed to
  the functions that use them.\<close>

definition kvtest_MakeClerk :: "('k, 'w) IClerkMaker \<Rightarrow> 'w \<Rightarrow> 'k \<times> 'w" where
  "kvtest_MakeClerk mck w = mk_MakeClerk mck w"

definition MakeTest :: "'c \<Rightarrow> 32 word \<Rightarrow> 'c Test" where
  "MakeTest cfg n = \<lparr>world = cfg, oplog = Some [], ops = n, infos = []\<rparr>"

subsection \<open>Properties\<close>

text \<open>C18. \<open>SpawnClientsAndWait\<close> never deadlocks: with client functions that return on the done signal
  (and not by themselves), any number of clients and any order of their steps, every state that
  is reached can go on to the return; and when it returns, there is one result per client, in the
  order of the clients, each computed by that client's own loop, and every client has been
  received from.\<close>

theorem SpawnClientsAndWait_returns:
  assumes "waits fn" and "spawn_run n mkc fn (spawn_init w) s"
  shows "(\<exists>s' rs. spawn_run n mkc fn s s' \<and> pc s' = Returned rs) \<and>
    (\<forall>rs. pc s = Returned rs \<longrightarrow> length rs = n \<and> length (clients s) = n \<and>
      (\<forall>c < n. collected (clients s ! c) \<and> (\<exists>l. runs fn c l \<and> rs ! c = f_done fn l)))"
proof -
  from reachable_spawn [OF assms(2,1)] have inv: "spawn_inv n s" "locals_ok fn (clients s)" by auto
  have "length rs = n \<and> length (clients s) = n \<and> (\<forall>c < n. collected (clients s ! c) \<and> (\<exists>l. runs fn c l \<and> rs ! c = f_done fn l))"
    if p: "pc s = Returned rs" for rs
  proof -
    have n: "length rs = n" "length (clients s) = n" using inv(1) p by (auto simp: spawn_inv_def)
    have "collected (clients s ! c) \<and> res (clients s ! c) = Some (rs ! c)" if "c < n" for c
      using inv(1) p n that by (auto simp: spawn_inv_def)
    with inv(2) n show ?thesis by (auto simp: local_ok_def)
  qed
  with can_return [OF inv(1) assms(1)] show ?thesis by blast
qed

definition demo_fclnt :: "(nat, unit, nat) Fclnt" where
  "demo_fclnt = \<lparr>f_init = \<lambda>c. 0, f_body = \<lambda>c ck l w. (Inl (l + 1), w + c), f_done = \<lambda>l. \<lparr>Nok = int l, Nmaybe = 0\<rparr>\<rparr>"

definition demo_maker :: "(unit, nat) IClerkMaker" where
  "demo_maker = \<lparr>mk_MakeClerk = \<lambda>w. ((), w), mk_DeleteClerk = \<lambda>ck w. w\<rparr>"

theorem SpawnClientsAndWait_returns_witness:
  "\<exists>s rs. spawn_run 2 demo_maker demo_fclnt (spawn_init 0) s \<and> pc s = Returned rs \<and> length rs = 2"
proof -
  have w: "waits demo_fclnt" by (simp add: waits_def demo_fclnt_def)
  from SpawnClientsAndWait_returns [OF w rtranclp.rtrancl_refl] obtain s rs where
    s: "spawn_run 2 demo_maker demo_fclnt (spawn_init 0) s" "pc s = Returned rs" by blast
  from SpawnClientsAndWait_returns [OF w s(1)] s show ?thesis by blast
qed

text \<open>The partitioner: after any number of rounds, and whatever state the links were in, two
  servers of the group are linked exactly if their random bits of the last round are equal.\<close>

theorem Partitioner_separates:
  assumes "wf_grp (fst g)" and "\<forall>(draws, t) \<in> set (rounds @ [(last_draws, t)]). length draws = length (srvs (fst g))"
  shows "\<exists>g' a'. Partitioner (rounds @ [(last_draws, t)]) (g, a) = Inr (g', a') \<and>
    (\<forall>i < length (srvs (fst g)). \<forall>j < length (srvs (fst g)). up g' i j \<longleftrightarrow> last_draws ! i mod 2 = last_draws ! j mod 2)"
proof -
  from Partitioner_keeps [OF assms(1), of rounds a] assms(2) obtain g1 a1 where
    g1: "Partitioner rounds (g, a) = Inr (g1, a1)" "wf_grp (fst g1)" "length (srvs (fst g1)) = length (srvs (fst g))" by auto
  with partition_round_works [OF g1(2), of last_draws t a1] assms(2) show ?thesis
    by (auto simp: Partitioner_def each_append)
qed

theorem Partitioner_separates_witness:
  "\<forall>a. \<exists>g' a'. Partitioner [([0, 0, 0], 5), ([4, 7, 2], 9)] ((demo_grp, MakeNetwork), a) = Inr (g', a') \<and> up g' 0 2 \<and> \<not> up g' 0 1"
  using Partitioner_separates [of "(demo_grp, MakeNetwork)" "[([0, 0, 0], 5)]" "[4, 7, 2]" 9] demo_grp_wf by fastforce

end
