(* ===== verification/Porcupine_Check.thy ===== *)
theory Porcupine_Check
  imports Kv_Tester Annotations
begin

section \<open>Checking a history for linearizability (kvtest1/porcupine.go)\<close>

text \<open>
  \<open>checkPorcupine\<close> hands the log of a test to the \<^verbatim>\<open>porcupine\<close> library, fails the test if the
  library finds that the history is not linearizable, and decides who visualizes it. The library
  is outside the repository: its \<open>CheckOperationsVerbose\<close> is the argument \<open>check\<close>, a function of
  the history and the time limit. Opening the file is I/O, so whether it succeeds is an argument
  (\<open>opened\<close>), as are the two times that the library of annotations reads and the order in which
  it visits its map. What is done to files, in order, is a list of effects; a visualization that
  cannot be written after the file was opened is only reported and counts as written.

  The second half runs \<open>Test.Get\<close> and \<open>Test.Put\<close> of many clients concurrently, each call in three
  steps: it reads the clock, takes effect at the store some time later, reads the clock again and
  logs the operation.
\<close>

datatype CheckResult = Ok | Illegal | Unknown

datatype effect =
    OpenFailed string
  | Opened string
  | Wrote string "Ann list"
  | CheckTimedOut

type_synonym checker = "operation list \<Rightarrow> int \<Rightarrow> CheckResult"

definition linearizabilityCheckTimeout :: int where
  "linearizabilityCheckTimeout = 1000000000"

text \<open>Showing the history, in either branch. With \<open>VIS_ENABLE\<close> set to never, the file of a failed
  check is opened all the same.\<close>

definition show_failed ::
  "string \<Rightarrow> string \<Rightarrow> bool \<Rightarrow> (string \<times> Continuous) list \<Rightarrow> int \<Rightarrow> int \<Rightarrow> ann_state \<Rightarrow> effect list \<times> ann_state" where
  "show_failed vis_enable fpath opened order t t' a =
     (if \<not> opened then ([OpenFailed fpath], a)
      else if vis_enable \<noteq> ''never'' then
        (case FinalizeAnnotations ''test failed'' order t t' a of (as, a') \<Rightarrow> ([Opened fpath, Wrote fpath as], a'))
      else ([Opened fpath], a))"

definition show_passed ::
  "string \<Rightarrow> string \<Rightarrow> bool \<Rightarrow> (string \<times> Continuous) list \<Rightarrow> int \<Rightarrow> int \<Rightarrow> ann_state \<Rightarrow> effect list \<times> ann_state" where
  "show_passed vis_enable fpath opened order t t' a =
     (if vis_enable = ''always'' \<and> GetAnnotationFinalized a then
        (if \<not> opened then ([OpenFailed fpath], a)
         else (case FinalizeAnnotations ''test passed'' order t t' a of (as, a') \<Rightarrow> ([Opened fpath, Wrote fpath as], a')))
      else ([], a))"

text \<open>The result says whether the test failed (\<open>t.Fatal\<close>). \<open>None\<close> is the nil dereference of a test
  without a log.\<close>

definition checkPorcupine ::
  "checker \<Rightarrow> string \<Rightarrow> string \<Rightarrow> bool \<Rightarrow> (string \<times> Continuous) list \<Rightarrow> int \<Rightarrow> int \<Rightarrow> OpLog option \<Rightarrow> int \<Rightarrow>
   ann_state \<Rightarrow> (bool \<times> effect list \<times> ann_state) option" where
  "checkPorcupine check vis_enable fpath opened order t t' opLog nsec a = (case opLog of
      None \<Rightarrow> None
    | Some log \<Rightarrow>
        (let res = check (OpLog_Read log) nsec in
         if res = Illegal then Some (True, show_failed vis_enable fpath opened order t t' a)
         else (case show_passed vis_enable fpath opened order t t' a of
           (fx, a') \<Rightarrow> Some (False, (if res = Unknown then [CheckTimedOut] else []) @ fx, a'))))"

definition CheckPorcupineT ::
  "checker \<Rightarrow> string \<Rightarrow> string \<Rightarrow> bool \<Rightarrow> (string \<times> Continuous) list \<Rightarrow> int \<Rightarrow> int \<Rightarrow> int \<Rightarrow> 'c Test \<Rightarrow>
   ann_state \<Rightarrow> (bool \<times> effect list \<times> ann_state) option" where
  "CheckPorcupineT check vis_enable fpath opened order t t' nsec ts a =
     checkPorcupine check vis_enable fpath opened order t t' (oplog ts) nsec a"

definition CheckPorcupine ::
  "checker \<Rightarrow> string \<Rightarrow> string \<Rightarrow> bool \<Rightarrow> (string \<times> Continuous) list \<Rightarrow> int \<Rightarrow> int \<Rightarrow> 'c Test \<Rightarrow>
   ann_state \<Rightarrow> (bool \<times> effect list \<times> ann_state) option" where
  "CheckPorcupine check vis_enable fpath opened order t t' ts a =
     CheckPorcupineT check vis_enable fpath opened order t t' linearizabilityCheckTimeout ts a"

text \<open>The package's functions \<open>Get\<close> and \<open>Put\<close>, which take the log as an argument; \<open>n\<close> is the operation
  counter of the configuration. The methods of \<open>Test\<close> are these on the test's own log.\<close>

definition logged :: "operation \<Rightarrow> OpLog option \<Rightarrow> OpLog option" where
  "logged v log = (case log of None \<Rightarrow> None | Some l \<Rightarrow> Some (OpLog_Append v l))"

definition Get_fn ::
  "32 word \<Rightarrow> 'c IKVClerk \<Rightarrow> string \<Rightarrow> OpLog option \<Rightarrow> int \<Rightarrow> 'c \<Rightarrow> (string \<times> Tversion \<times> Err) \<times> 32 word \<times> OpLog option \<times> 'c" where
  "Get_fn n ck key log cli w =
     (let start = ck_now ck w in
      case ck_Get ck key w of ((val, ver, err), w') \<Rightarrow>
        ((val, ver, err), n + 1,
         logged \<lparr>ClientId = cli, Input = \<lparr>Op = 0, Key = key, Value = [], Version = 0\<rparr>, CallTime = start,
                 Output = \<lparr>oValue = val, oVersion = ver, Err = err\<rparr>, ReturnTime = ck_now ck w'\<rparr> log, w'))"

definition Put_fn ::
  "32 word \<Rightarrow> 'c IKVClerk \<Rightarrow> string \<Rightarrow> string \<Rightarrow> Tversion \<Rightarrow> OpLog option \<Rightarrow> int \<Rightarrow> 'c \<Rightarrow> Err \<times> 32 word \<times> OpLog option \<times> 'c" where
  "Put_fn n ck key value version log cli w =
     (let start = ck_now ck w in
      case ck_Put ck key value version w of (err, w') \<Rightarrow>
        (err, n + 1,
         logged \<lparr>ClientId = cli, Input = \<lparr>Op = 1, Key = key, Value = value, Version = version\<rparr>, CallTime = start,
                 Output = \<lparr>oValue = [], oVersion = 0, Err = err\<rparr>, ReturnTime = ck_now ck w'\<rparr> log, w'))"

lemma Get_is_Get_fn:
  "Get ck key cli s = (case Get_fn (ops s) ck key (oplog s) cli (world s) of
     (r, n, log, w) \<Rightarrow> (r, s\<lparr>world := w, ops := n, oplog := log\<rparr>))"
  by (simp add: Get_def Get_fn_def logged_def log_op_def Let_def split: prod.split)

lemma Put_is_Put_fn:
  "Put ck key value version cli s = (case Put_fn (ops s) ck key value version (oplog s) cli (world s) of
     (r, n, log, w) \<Rightarrow> (r, s\<lparr>world := w, ops := n, oplog := log\<rparr>))"
  by (simp add: Put_def Put_fn_def logged_def log_op_def Let_def split: prod.split)

subsection \<open>The visualizations of a test\<close>

text \<open>How often the annotations of a test are shown by the check and by the clean-up after it, which
  is told whether the test failed.\<close>

definition writes :: "effect list \<Rightarrow> nat" where
  "writes fx = length (filter (\<lambda>e. case e of Wrote _ _ \<Rightarrow> True | _ \<Rightarrow> False) fx)"

definition displays :: "vis \<Rightarrow> nat" where
  "displays v = (case v of Visualized _ _ \<Rightarrow> 1 | _ \<Rightarrow> 0)"

lemma writes_simps [simp]:
  "writes [] = 0" "writes (e # fx) = (case e of Wrote _ _ \<Rightarrow> 1 | _ \<Rightarrow> 0) + writes fx"
  by (simp_all add: writes_def split: effect.split)

lemma check_fresh:
  assumes "\<not> GetAnnotationFinalized a"
  shows "checkPorcupine check vis_enable fpath opened order t t' (Some log) nsec a =
    Some (if check log nsec = Illegal then (True, show_failed vis_enable fpath opened order t t' a)
          else (False, if check log nsec = Unknown then [CheckTimedOut] else [], a))"
  using assms by (simp add: checkPorcupine_def show_passed_def OpLog_Read_def Let_def)

text \<open>One visualization at most. In a test whose annotations have not been finalized, the check
  fails the test exactly if the library says so. If it fails and visualization is not switched
  off and the file can be opened, the check writes one file, with all annotations, every ongoing
  one closed and a last one saying that the test failed, and the clean-up then writes nothing. In
  all other cases the check writes nothing, so whether the annotations are shown is up to the
  clean-up.\<close>

theorem visualized_once:
  assumes "\<not> GetAnnotationFinalized a"
    and "checkPorcupine check vis_enable fpath opened order t t' (Some log) nsec a = Some (failed, fx, a')"
    and "cleanup vis_enable fpath' opened' (failed \<or> failed') e order' u u' (annotation a') = (v, an)"
  shows "(failed \<longleftrightarrow> check log nsec = Illegal) \<and>
    (if failed \<and> vis_enable \<noteq> ''never'' \<and> opened
     then fx = [Opened fpath, Wrote fpath (annotations (annotation a) @
            map (\<lambda>(tag, co). concretize tag co t) order @ [end_annotation ''test failed'' t'])] \<and> v = Cleared
     else writes fx = 0 \<and> a' = a) \<and>
    writes fx + displays v \<le> 1"
proof (cases "check log nsec = Illegal \<and> vis_enable \<noteq> ''never'' \<and> opened")
  case True
  with assms(1,2) have r: "failed" "a' = a\<lparr>annotation := (annotation a)\<lparr>finalized := True\<rparr>\<rparr>"
    "fx = [Opened fpath, Wrote fpath (annotations (annotation a) @
            map (\<lambda>(tag, co). concretize tag co t) order @ [end_annotation ''test failed'' t'])]"
    by (auto simp: check_fresh show_failed_def FinalizeAnnotations_def finalize_def)
  with assms(3) have "v = Cleared" by (simp add: cleanup_def isFinalized_def)
  with r True show ?thesis by (simp add: displays_def)
next
  case False
  with assms(1,2) have r: "failed \<longleftrightarrow> check log nsec = Illegal" "a' = a" "writes fx = 0"
    by (auto simp: check_fresh show_failed_def split: if_splits)
  have "displays v \<le> 1" by (simp add: displays_def split: vis.split)
  with r False show ?thesis by auto
qed

text \<open>A test that begins, and whose log the library rejects, with the visualization on.\<close>

definition demo_begun :: ann_state where
  "demo_begun = AnnotateContinuous ''phase'' ''p'' ''p'' 3
     (AnnotateTest ''t'' 1 2 \<lparr>annotation = mkAnnotation, finfo = None\<rparr>)"

lemmas demo_begun_simps = demo_begun_def AnnotateTest_def AnnotateInfo_def AnnotatePointColor_def annotatePointColor_def
  AnnotateContinuous_def annotateContinuousColor_def clear_def mkAnnotation_def GetAnnotationFinalized_def isFinalized_def Let_def

theorem visualized_once_witness:
  "\<exists>fx a' an as. checkPorcupine (\<lambda>H n. Illegal) ''always'' ''f'' True (continuous (annotation demo_begun)) 7 8 (Some []) 1 demo_begun =
      Some (True, fx, a') \<and> fx = [Opened ''f'', Wrote ''f'' as] \<and> length as = 3 \<and>
    cleanup ''always'' ''f'' True True ''test failed'' [] 9 9 (annotation a') = (Cleared, an)"
proof -
  let ?o = "continuous (annotation demo_begun)"
  have fresh: "\<not> GetAnnotationFinalized demo_begun" by (simp add: demo_begun_simps)
  obtain fx a' where c: "checkPorcupine (\<lambda>H n. Illegal) ''always'' ''f'' True ?o 7 8 (Some []) 1 demo_begun = Some (True, fx, a')"
    using fresh by (cases "show_failed ''always'' ''f'' True ?o 7 8 demo_begun") (simp add: check_fresh)
  obtain v an where v: "cleanup ''always'' ''f'' True (True \<or> True) ''test failed'' [] 9 9 (annotation a') = (v, an)" by force
  have "length (annotations (annotation demo_begun) @ map (\<lambda>(tag, co). concretize tag co 7) ?o @ [end_annotation ''test failed'' 8]) = 3"
    by (simp add: demo_begun_simps)
  with visualized_once [OF fresh c v] c v show ?thesis by auto
qed

subsection \<open>Linearizable histories\<close>

text \<open>What the library promises to decide: each part of the history has an order in which no
  operation comes before one that had returned when it was called, and which the model accepts.\<close>

definition in_real_time :: "operation \<Rightarrow> operation \<Rightarrow> bool" where
  "in_real_time v w \<longleftrightarrow> \<not> ReturnTime w < CallTime v"

abbreviation op_io :: "operation \<Rightarrow> KvInput \<times> KvOutput" where
  "op_io v \<equiv> (Input v, Output v)"

definition good_order :: "operation list \<Rightarrow> bool" where
  "good_order L \<longleftrightarrow> sorted_wrt in_real_time L \<and> accepts KvInit (map op_io L) \<noteq> None"

definition linearizable :: "operation list \<Rightarrow> bool" where
  "linearizable H \<longleftrightarrow> (\<forall>P \<in> set (KvPartition H). \<exists>L. mset L = mset P \<and> good_order L)"

text \<open>A checker that tries all orders, as an instance of the library.\<close>

fun inserted :: "'a \<Rightarrow> 'a list \<Rightarrow> 'a list list" where
  "inserted x [] = [[x]]"
| "inserted x (y # ys) = (x # y # ys) # map ((#) y) (inserted x ys)"

fun orders :: "'a list \<Rightarrow> 'a list list" where
  "orders [] = [[]]"
| "orders (x # xs) = concat (map (inserted x) (orders xs))"

definition all_orders_checker :: checker where
  "all_orders_checker H nsec =
     (if list_all (\<lambda>P. list_ex good_order (orders P)) (KvPartition H) then Ok else Illegal)"

lemma inserted_mid: "us @ x # vs \<in> set (inserted x (us @ vs))"
  by (induction us) (auto, cases vs, auto)

lemma inserted_mset: "zs \<in> set (inserted x ys) \<Longrightarrow> mset zs = add_mset x (mset ys)"
  by (induction x ys arbitrary: zs rule: inserted.induct) auto

lemma orders_iff: "L \<in> set (orders P) \<longleftrightarrow> mset L = mset P"
proof (induction P arbitrary: L)
  case (Cons x P)
  show ?case
  proof
    assume "L \<in> set (orders (x # P))"
    then show "mset L = mset (x # P)" using Cons inserted_mset by fastforce
  next
    assume L: "mset L = mset (x # P)"
    then have "x \<in> set L" by (metis list.set_intros(1) mset_eq_setD)
    then obtain us vs where l: "L = us @ x # vs" by (meson split_list)
    with L have "us @ vs \<in> set (orders P)" by (simp add: Cons)
    then show "L \<in> set (orders (x # P))" using inserted_mid [of us x vs] l by auto
  qed
qed simp

lemma all_orders_exact: "all_orders_checker H nsec = Illegal \<longleftrightarrow> \<not> linearizable H"
proof -
  have "list_ex good_order (orders P) \<longleftrightarrow> (\<exists>L. mset L = mset P \<and> good_order L)" for P
    unfolding list_ex_iff Bex_def orders_iff ..
  then show ?thesis by (simp add: all_orders_checker_def linearizable_def list_all_iff)
qed

subsection \<open>Concurrent clients\<close>

text \<open>Where a client is in \<open>Test.Get\<close> or \<open>Test.Put\<close>: not in a call; after reading the clock; after the
  clerk's call took effect at the store. The store does what the comments of the server say
  (\<open>spec_step\<close>), and the answer of a put may be lost on the way.\<close>

datatype call_phase =
    NoCall
  | Called int KvInput
  | Answered int KvInput KvOutput

record kv_world =
  phase :: "int \<Rightarrow> call_phase"
  store :: "string \<Rightarrow> entry"
  now :: int
  kv_log :: OpLog

inductive kv_call :: "kv_world \<Rightarrow> kv_world \<Rightarrow> bool" where
  tick: "now s \<le> n \<Longrightarrow> kv_call s (s\<lparr>now := n\<rparr>)"
| call_start: "phase s c = NoCall \<Longrightarrow> is_get i \<or> is_put i \<Longrightarrow>
    kv_call s (s\<lparr>phase := (phase s)(c := Called (now s) i)\<rparr>)"
| take_effect: "phase s c = Called t i \<Longrightarrow> spec_step lost i (store s (Key i)) = (out, e) \<Longrightarrow>
    \<not> (is_put i \<and> Err out = ErrNoKey) \<Longrightarrow>
    kv_call s (s\<lparr>phase := (phase s)(c := Answered t i out), store := (store s)(Key i := e)\<rparr>)"
| call_end: "phase s c = Answered t i out \<Longrightarrow>
    kv_call s (s\<lparr>phase := (phase s)(c := NoCall),
      kv_log := OpLog_Append \<lparr>ClientId = c, Input = i, CallTime = t, Output = out, ReturnTime = now s\<rparr> (kv_log s)\<rparr>)"

inductive kv_run :: "kv_world \<Rightarrow> bool" where
  start: "kv_run \<lparr>phase = (\<lambda>c. NoCall), store = (\<lambda>k. None), now = 0, kv_log = []\<rparr>"
| step: "kv_run s \<Longrightarrow> kv_call s s' \<Longrightarrow> kv_run s'"

text \<open>The operations that have taken effect, in that order: those of calls that are still to return
  carry their client.\<close>

type_synonym effects = "(int option \<times> operation) list"

definition open_calls :: "int \<Rightarrow> effects \<Rightarrow> effects" where
  "open_calls c E = filter (\<lambda>e. fst e = Some c) E"

definition after_call :: "(int option \<times> operation) \<Rightarrow> (int option \<times> operation) \<Rightarrow> bool" where
  "after_call a b \<longleftrightarrow> (fst b = None \<longrightarrow> in_real_time (snd a) (snd b))"

definition tracks :: "effects \<Rightarrow> kv_world \<Rightarrow> bool" where
  "tracks E s \<longleftrightarrow>
     (\<forall>c. open_calls c E = (case phase s c of
        Answered t i out \<Rightarrow> [(Some c, \<lparr>ClientId = c, Input = i, CallTime = t, Output = out, ReturnTime = 0\<rparr>)] | _ \<Rightarrow> [])) \<and>
     mset (kv_log s) = mset (map snd (filter (\<lambda>e. fst e = None) E)) \<and>
     sorted_wrt after_call E \<and>
     (\<forall>e \<in> set E. CallTime (snd e) \<le> now s) \<and> (\<forall>c t i. phase s c = Called t i \<longrightarrow> t \<le> now s \<and> (is_get i \<or> is_put i)) \<and>
     (\<forall>k. accepts KvInit (map op_io (filter (\<lambda>v. key_of v = k) (map snd E))) = Some (model_state (store s k)))"

lemma tracks_start: "tracks [] \<lparr>phase = (\<lambda>c. NoCall), store = (\<lambda>k. None), now = 0, kv_log = []\<rparr>"
  by (simp add: tracks_def open_calls_def model_state_def)

lemma spec_step_accepted:
  assumes "spec_step lost i e = (out, e')" and "\<not> (is_put i \<and> Err out = ErrNoKey)" and "is_get i \<or> is_put i"
  shows "KvStep (model_state e) i out = (True, Inr (model_state e'))"
  using assms
  by (auto simp: KvStep_def spec_step_def spec_get_def spec_put_def model_state_def KvInit_def
      split: option.splits prod.splits if_splits)

lemma tracks_effect:
  assumes "tracks E s" and "phase s c = Called t i" and "spec_step lost i (store s (Key i)) = (out, e)"
    and "\<not> (is_put i \<and> Err out = ErrNoKey)"
  shows "tracks (E @ [(Some c, \<lparr>ClientId = c, Input = i, CallTime = t, Output = out, ReturnTime = 0\<rparr>)])
    (s\<lparr>phase := (phase s)(c := Answered t i out), store := (store s)(Key i := e)\<rparr>)"
proof -
  have i: "is_get i \<or> is_put i" "t \<le> now s" using assms(1,2) by (auto simp: tracks_def)
  note ok = spec_step_accepted [OF assms(3,4) i(1)]
  have "open_calls c E = []" using assms(1,2) by (simp add: tracks_def)
  then show ?thesis
    using assms(1) i(2) ok
    by (auto simp: tracks_def open_calls_def after_call_def sorted_wrt_append accepts_append split: call_phase.splits)
qed

lemma tracks_return:
  assumes "tracks E s" and "phase s c = Answered t i out"
  shows "\<exists>E'. tracks E' (s\<lparr>phase := (phase s)(c := NoCall),
      kv_log := OpLog_Append \<lparr>ClientId = c, Input = i, CallTime = t, Output = out, ReturnTime = now s\<rparr> (kv_log s)\<rparr>)"
proof -
  let ?v = "\<lparr>ClientId = c, Input = i, CallTime = t, Output = out, ReturnTime = 0\<rparr>"
  let ?w = "\<lparr>ClientId = c, Input = i, CallTime = t, Output = out, ReturnTime = now s\<rparr>"
  have "open_calls c E = [(Some c, ?v)]" using assms by (simp add: tracks_def)
  then obtain us vs where E: "E = us @ (Some c, ?v) # vs" and none: "\<forall>e \<in> set us. fst e \<noteq> Some c" "\<forall>e \<in> set vs. fst e \<noteq> Some c"
    unfolding open_calls_def filter_eq_Cons_iff by (auto simp: eq_commute [of "[]"] filter_empty_conv)
  have calls: "open_calls c' (us @ (None, ?w) # vs) = (if c' = c then [] else open_calls c' E)" for c'
    using none by (auto simp: open_calls_def E filter_empty_conv)
  have order: "sorted_wrt after_call E" using assms(1) by (simp add: tracks_def)
  have early: "\<forall>e \<in> set us. CallTime (snd e) \<le> now s" using assms(1) by (auto simp: tracks_def E)
  have "sorted_wrt after_call (us @ (None, ?w) # vs)"
    using order early by (fastforce simp: E sorted_wrt_append after_call_def in_real_time_def)
  moreover have "\<forall>e \<in> set (us @ (None, ?w) # vs). CallTime (snd e) \<le> now s" using assms(1) by (auto simp: tracks_def E)
  moreover have "map op_io (filter (\<lambda>v. key_of v = k) (map snd (us @ (None, ?w) # vs))) =
      map op_io (filter (\<lambda>v. key_of v = k) (map snd E))" for k by (simp add: E)
  ultimately have "tracks (us @ (None, ?w) # vs) (s\<lparr>phase := (phase s)(c := NoCall), kv_log := OpLog_Append ?w (kv_log s)\<rparr>)"
    using assms(1) unfolding tracks_def calls by (auto simp: E OpLog_Append_def)
  then show ?thesis by blast
qed

lemma kv_run_tracked: "kv_run s \<Longrightarrow> \<exists>E. tracks E s"
proof (induction rule: kv_run.induct)
  case start
  show ?case using tracks_start by blast
next
  case (step s s')
  then obtain E where E: "tracks E s" by blast
  from step.hyps(2) show ?case
  proof cases
    case (tick n)
    with E have "tracks E s'" by (fastforce simp: tracks_def)
    then show ?thesis by blast
  next
    case (call_start c i)
    with E have "tracks E s'" by (auto simp: tracks_def)
    then show ?thesis by blast
  next
    case (take_effect c t i lost out e)
    with tracks_effect [OF E] show ?thesis by blast
  next
    case (call_end c t i out)
    with tracks_return [OF E] show ?thesis by blast
  qed
qed

text \<open>When no call that took effect is still to return, the order of the effects shows that the log
  is linearizable.\<close>

lemma settled_linearizable:
  assumes "kv_run s" and "\<forall>c t i out. phase s c \<noteq> Answered t i out"
  shows "linearizable (kv_log s)"
proof -
  obtain E where E: "tracks E s" using kv_run_tracked [OF assms(1)] by blast
  have none: "open_calls c E = []" for c using E assms(2) by (auto simp: tracks_def split: call_phase.splits)
  have closed: "\<forall>e \<in> set E. fst e = None"
  proof
    fix e
    assume "e \<in> set E"
    with none [of "the (fst e)"] show "fst e = None" by (cases "fst e") (auto simp: open_calls_def filter_empty_conv)
  qed
  let ?L = "map snd E"
  from closed have "filter (\<lambda>e. fst e = None) E = E" by (simp add: filter_id_conv)
  then have all_logged: "mset ?L = mset (kv_log s)" using E by (simp add: tracks_def)
  have order: "sorted_wrt in_real_time ?L"
    unfolding sorted_wrt_map
  proof (rule sorted_wrt_mono_rel)
    show "sorted_wrt after_call E" using E by (simp add: tracks_def)
    show "in_real_time (snd a) (snd b)" if "a \<in> set E" "b \<in> set E" "after_call a b" for a b
      using that closed by (simp add: after_call_def)
  qed
  have "\<exists>L. mset L = mset P \<and> good_order L" if P: "P \<in> set (KvPartition (kv_log s))" for P
  proof -
    from P obtain k where k: "P = filter (\<lambda>v. key_of v = k) (kv_log s)" by (auto simp: KvPartition_parts)
    have "good_order (filter (\<lambda>v. key_of v = k) ?L)"
      using E order by (simp add: tracks_def good_order_def sorted_wrt_filter)
    moreover have "mset (filter (\<lambda>v. key_of v = k) ?L) = mset P" unfolding k mset_filter all_logged ..
    ultimately show ?thesis by blast
  qed
  then show ?thesis by (simp add: linearizable_def)
qed


text \<open>Client 1 puts; before its put has returned, client 2 reads the new value.\<close>

definition demo_i1 :: KvInput where "demo_i1 = \<lparr>Op = 1, Key = ''k'', Value = ''a'', Version = 0\<rparr>"
definition demo_i2 :: KvInput where "demo_i2 = \<lparr>Op = 0, Key = ''k'', Value = [], Version = 0\<rparr>"

definition demo_overlap :: OpLog where
  "demo_overlap =
     [\<lparr>ClientId = 2, Input = demo_i2, CallTime = 1, Output = \<lparr>oValue = ''a'', oVersion = 1, Err = OK\<rparr>, ReturnTime = 1\<rparr>,
      \<lparr>ClientId = 1, Input = demo_i1, CallTime = 0, Output = \<lparr>oValue = [], oVersion = 0, Err = OK\<rparr>, ReturnTime = 1\<rparr>]"

lemma demo_overlap_run:
  "\<exists>s. kv_run s \<and> (\<forall>c t i out. phase s c \<noteq> Answered t i out) \<and> kv_log s = demo_overlap"
proof -
  define s0 where "s0 = \<lparr>phase = (\<lambda>c. NoCall), store = (\<lambda>k. None), now = 0, kv_log = []\<rparr>"
  define s1 where "s1 = s0\<lparr>phase := (phase s0)(1 := Called (now s0) demo_i1)\<rparr>"
  define o1 where "o1 = \<lparr>oValue = [], oVersion = 0, Err = OK\<rparr>"
  define s2 where "s2 = s1\<lparr>phase := (phase s1)(1 := Answered 0 demo_i1 o1), store := (store s1)(Key demo_i1 := Some (''a'', 1))\<rparr>"
  define s3 where "s3 = s2\<lparr>now := 1\<rparr>"
  define s4 where "s4 = s3\<lparr>phase := (phase s3)(2 := Called (now s3) demo_i2)\<rparr>"
  define o2 where "o2 = \<lparr>oValue = ''a'', oVersion = 1, Err = OK\<rparr>"
  define s5 where "s5 = s4\<lparr>phase := (phase s4)(2 := Answered 1 demo_i2 o2), store := (store s4)(Key demo_i2 := Some (''a'', 1))\<rparr>"
  define s6 where "s6 = s5\<lparr>phase := (phase s5)(2 := NoCall),
     kv_log := OpLog_Append \<lparr>ClientId = 2, Input = demo_i2, CallTime = 1, Output = o2, ReturnTime = now s5\<rparr> (kv_log s5)\<rparr>"
  define s7 where "s7 = s6\<lparr>phase := (phase s6)(1 := NoCall),
     kv_log := OpLog_Append \<lparr>ClientId = 1, Input = demo_i1, CallTime = 0, Output = o1, ReturnTime = now s6\<rparr> (kv_log s6)\<rparr>"
  note defs = s0_def s1_def s2_def s3_def s4_def s5_def s6_def o1_def o2_def demo_i1_def demo_i2_def
  have "kv_run s0" unfolding s0_def by (rule kv_run.start)
  moreover have "kv_call s0 s1" unfolding s1_def by (rule kv_call.call_start) (simp_all add: s0_def demo_i1_def)
  moreover have "kv_call s1 s2" unfolding s2_def
    by (rule kv_call.take_effect [where lost = False]) (simp_all add: defs spec_step_def spec_put_def)
  moreover have "kv_call s2 s3" unfolding s3_def by (rule kv_call.tick) (simp add: defs)
  moreover have "kv_call s3 s4" unfolding s4_def by (rule kv_call.call_start) (simp_all add: defs)
  moreover have "kv_call s4 s5" unfolding s5_def
    by (rule kv_call.take_effect [where lost = False]) (simp_all add: defs spec_step_def spec_get_def)
  moreover have "kv_call s5 s6" unfolding s6_def by (rule kv_call.call_end) (simp add: defs)
  moreover have "kv_call s6 s7" unfolding s7_def by (rule kv_call.call_end) (simp add: defs)
  ultimately have "kv_run s7" by (meson kv_run.step)
  moreover have "phase s7 = (\<lambda>c. NoCall)" "kv_log s7 = demo_overlap"
    by (auto simp: s7_def defs demo_overlap_def OpLog_Append_def fun_eq_iff)
  ultimately show ?thesis by (intro exI [of _ s7]) simp
qed

text \<open>A history that is not linearizable: the get was called after the put returned and missed it.\<close>

definition demo_stale :: OpLog where
  "demo_stale =
     [\<lparr>ClientId = 1, Input = demo_i1, CallTime = 0, Output = \<lparr>oValue = [], oVersion = 0, Err = OK\<rparr>, ReturnTime = 1\<rparr>,
      \<lparr>ClientId = 2, Input = demo_i2, CallTime = 2, Output = \<lparr>oValue = [], oVersion = 0, Err = ErrNoKey\<rparr>, ReturnTime = 3\<rparr>]"


end
