(* ===== verification/Raft_Tester.thy ===== *)
theory Raft_Tester
  imports Persist
begin

section \<open>The Raft tester's servers and checks (raft1/server.go, raft1/test.go)\<close>

text \<open>
  The tester wraps each Raft peer in a server that reads the peer's apply channel, records the
  committed commands in its own log, and stops the test when two servers commit different
  commands at an index, or a server applies out of order. With snapshots, every tenth command the
  server hands its log to Raft as a snapshot, and a restarted server starts from the last one.

  The Raft peers are outside the repository: what they send on their channels, and what
  \<open>GetState\<close> returns, are arguments. A command is an \<^typ>\<open>'c option\<close>: the Go type \<open>any\<close>, with nil.
  The encoding of snapshots by \<^verbatim>\<open>labgob\<close> is a pair of functions. Error texts are constructors.
  \<open>log.Fatalf\<close> ends the process: it is the left summand, so the statement after it, which would
  set \<open>applyErr\<close>, is never reached. Annotations made on the way are not modelled here.
\<close>

type_synonym 'c any = "'c option"

datatype 'c apply_error =
    Disagree int nat "'c any" nat "'c any"
  | OutOfOrder nat int
  | Unexpected nat int int
  | SnapshotIndex nat
  | NilSnapshot
  | SnapshotDecode

record 'c ApplyMsg =
  CommandValid :: bool
  Command :: "'c any"
  CommandIndex :: int
  SnapshotValid :: bool
  Snapshot :: "bytes option"
  m_SnapshotIndex :: int

record 'c rfsrv =
  applyErr :: "'c apply_error option"
  lastApplied :: int
  logs :: "int \<rightharpoonup> 'c any"

record 'c RaftTest =
  t_srvs :: "'c rfsrv list"
  maxIndex :: int

text \<open>Reading a missing key of a Go map gives the zero value, nil.\<close>

definition read_log :: "'c rfsrv \<Rightarrow> int \<Rightarrow> 'c any" where
  "read_log rs j = (case logs rs j of Some v \<Rightarrow> v | None \<Rightarrow> None)"

subsection \<open>Comparing the logs of the servers\<close>

text \<open>The loop over the servers: the last disagreement wins.\<close>

fun disagreement :: "nat \<Rightarrow> 'c ApplyMsg \<Rightarrow> (nat \<times> 'c rfsrv) list \<Rightarrow> 'c apply_error option \<Rightarrow> 'c apply_error option" where
  "disagreement i m [] err = err"
| "disagreement i m ((j, rs) # js) err =
     disagreement i m js (case logs rs (CommandIndex m) of
        Some old \<Rightarrow> if old \<noteq> Command m then Some (Disagree (CommandIndex m) i (Command m) j old) else err
      | None \<Rightarrow> err)"

definition checkLogs :: "nat \<Rightarrow> 'c ApplyMsg \<Rightarrow> 'c RaftTest \<Rightarrow> ('c apply_error option \<times> bool) \<times> 'c RaftTest" where
  "checkLogs i m ts =
     (let err_msg = disagreement i m (enumerate 0 (t_srvs ts)) None;
          me = t_srvs ts ! i;
          prevok = (logs me (CommandIndex m - 1) \<noteq> None);
          me' = me\<lparr>logs := (logs me)(CommandIndex m \<mapsto> Command m)\<rparr>
      in ((err_msg, prevok),
          ts\<lparr>t_srvs := (t_srvs ts)[i := me'],
             maxIndex := (if CommandIndex m > maxIndex ts then CommandIndex m else maxIndex ts)\<rparr>))"

text \<open>One message on the apply channel of server \<open>me\<close>.\<close>

definition applier :: "nat \<Rightarrow> 'c ApplyMsg \<Rightarrow> 'c RaftTest \<Rightarrow> 'c apply_error + 'c RaftTest" where
  "applier me m ts =
     (if CommandValid m = False then Inr ts
      else case checkLogs me m ts of ((err_msg, prevok), ts') \<Rightarrow>
        (let err_msg' = (if CommandIndex m > 1 \<and> prevok = False then Some (OutOfOrder me (CommandIndex m)) else err_msg)
         in case err_msg' of Some e \<Rightarrow> Inl e | None \<Rightarrow> Inr ts'))"

subsection \<open>Snapshots\<close>

abbreviation SnapShotInterval :: int where
  "SnapShotInterval \<equiv> 10"

type_synonym 'c snap_enc = "int \<Rightarrow> 'c any list \<Rightarrow> bytes"
type_synonym 'c snap_dec = "bytes \<Rightarrow> (int \<times> 'c any list) option"

text \<open>The error text it returns (\<open>None\<close> for the empty one) and the server; or the process ends.\<close>

definition ingestSnap ::
  "'c snap_dec \<Rightarrow> nat \<Rightarrow> bytes option \<Rightarrow> int \<Rightarrow> 'c rfsrv \<Rightarrow> 'c apply_error + 'c apply_error option \<times> 'c rfsrv" where
  "ingestSnap dec me snap index rs = (case snap of
      None \<Rightarrow> Inl NilSnapshot
    | Some b \<Rightarrow> (case dec b of
        None \<Rightarrow> Inl SnapshotDecode
      | Some (lastIncludedIndex, xlog) \<Rightarrow>
          if index \<noteq> -1 \<and> index \<noteq> lastIncludedIndex then Inr (Some (SnapshotIndex me), rs)
          else Inr (None, rs\<lparr>logs := (\<lambda>j. if 0 \<le> j \<and> j < int (length xlog) then Some (xlog ! nat j) else None),
                             lastApplied := lastIncludedIndex\<rparr>)))"

text \<open>What the server hands to \<open>raft.Snapshot\<close>.\<close>

definition make_snapshot :: "'c snap_enc \<Rightarrow> int \<Rightarrow> 'c rfsrv \<Rightarrow> bytes" where
  "make_snapshot enc idx rs = enc idx (map (\<lambda>j. read_log rs (int j)) [0..<nat (idx + 1)])"

text \<open>One message with snapshots: the snapshot that is handed to Raft, if any, and the state.\<close>

definition applierSnap ::
  "'c snap_enc \<Rightarrow> 'c snap_dec \<Rightarrow> nat \<Rightarrow> 'c ApplyMsg \<Rightarrow> 'c RaftTest \<Rightarrow> 'c apply_error + (int \<times> bytes) option \<times> 'c RaftTest" where
  "applierSnap enc dec me m ts =
     (let rs = t_srvs ts ! me in
      if SnapshotValid m then
        (case ingestSnap dec me (Snapshot m) (m_SnapshotIndex m) rs of
           Inl e \<Rightarrow> Inl e
         | Inr (Some e, _) \<Rightarrow> Inl e
         | Inr (None, rs') \<Rightarrow> Inr (None, ts\<lparr>t_srvs := (t_srvs ts)[me := rs']\<rparr>))
      else if CommandValid m then
        (let (err_msg, ts1) =
           (if CommandIndex m \<noteq> lastApplied rs + 1 then (Some (Unexpected me (lastApplied rs + 1) (CommandIndex m)), ts)
            else case checkLogs me m ts of ((err, prevok), ts') \<Rightarrow>
              (if CommandIndex m > 1 \<and> prevok = False then Some (OutOfOrder me (CommandIndex m)) else err, ts'));
             rs1 = (t_srvs ts1 ! me)\<lparr>lastApplied := CommandIndex m\<rparr>;
             ts2 = ts1\<lparr>t_srvs := (t_srvs ts1)[me := rs1]\<rparr>;
             sn = (if (CommandIndex m + 1) mod SnapShotInterval = 0
                   then Some (CommandIndex m, make_snapshot enc (CommandIndex m) rs1) else None)
         in case err_msg of Some e \<Rightarrow> Inl e | None \<Rightarrow> Inr (sn, ts2))
      else Inr (None, ts))"

text \<open>A server that is made, at the start or after a crash, from the persister's snapshot.\<close>

definition fresh_srv :: "'c rfsrv" where
  "fresh_srv = \<lparr>applyErr = None, lastApplied = 0, logs = Map.empty\<rparr>"

definition newRfsrv :: "'c snap_dec \<Rightarrow> nat \<Rightarrow> bool \<Rightarrow> bytes option \<Rightarrow> 'c apply_error + 'c rfsrv" where
  "newRfsrv dec me snapshots saved_snapshot =
     (if snapshots \<and> saved_snapshot \<noteq> None \<and> saved_snapshot \<noteq> Some [] then
        (case ingestSnap dec me saved_snapshot (-1) fresh_srv of
           Inl e \<Rightarrow> Inl e
         | Inr (Some e, _) \<Rightarrow> Inl e
         | Inr (None, rs) \<Rightarrow> Inr rs)
      else Inr fresh_srv)"

text \<open>\<open>Kill\<close> saves what it reads from its persister, if it has one.\<close>

definition Kill :: "nat option \<Rightarrow> pstore \<Rightarrow> pstore" where
  "Kill persister s = (case persister of
      None \<Rightarrow> s
    | Some ps \<Rightarrow> (case ReadRaftState ps s of (raftlog, s1) \<Rightarrow>
        (case ReadSnapshot ps s1 of (snap, s2) \<Rightarrow> Save ps raftlog snap s2)))"

definition mksrv :: "'c snap_dec \<Rightarrow> bool \<Rightarrow> nat \<Rightarrow> bytes option \<Rightarrow> 'c RaftTest \<Rightarrow> 'c apply_error + 'c RaftTest" where
  "mksrv dec snapshots srv saved_snapshot ts = (case newRfsrv dec srv snapshots saved_snapshot of
      Inl e \<Rightarrow> Inl e
    | Inr s \<Rightarrow> Inr (ts\<lparr>t_srvs := (t_srvs ts)[srv := s]\<rparr>))"

subsection \<open>Checks\<close>

datatype 'c check_error = ApplyErr "'c apply_error" | Unmatched int "'c any" "'c any" | MultipleLeaders int nat
  | NoLeader | TermsDisagree | UnexpectedLeader nat | UnexpectedAgreement nat | NilEntry

fun count_committed :: "int \<Rightarrow> 'c rfsrv list \<Rightarrow> nat \<Rightarrow> 'c any \<Rightarrow> 'c check_error + nat \<times> 'c any" where
  "count_committed index [] cnt cmd = Inr (cnt, cmd)"
| "count_committed index (rs # srvs) cnt cmd =
     (case applyErr rs of
        Some e \<Rightarrow> Inl (ApplyErr e)
      | None \<Rightarrow>
         (case logs rs index of
            None \<Rightarrow> count_committed index srvs cnt cmd
          | Some cmd1 \<Rightarrow>
              if cnt > 0 \<and> cmd \<noteq> cmd1 then Inl (Unmatched index cmd cmd1)
              else count_committed index srvs (cnt + 1) cmd1))"

definition nCommitted :: "int \<Rightarrow> 'c RaftTest \<Rightarrow> 'c check_error + nat \<times> 'c any" where
  "nCommitted index ts = count_committed index (t_srvs ts) 0 None"

definition checkNoAgreement :: "int \<Rightarrow> 'c RaftTest \<Rightarrow> 'c check_error + unit" where
  "checkNoAgreement index ts = (case nCommitted index ts of
      Inl e \<Rightarrow> Inl e
    | Inr (n, _) \<Rightarrow> if n > 0 then Inl (UnexpectedAgreement n) else Inr ())"

text \<open>What the tester sees of a server: whether it is connected, its term and whether it leads.\<close>

type_synonym view = "(bool \<times> int \<times> bool) list"

fun collect_leaders :: "(nat \<times> bool \<times> int \<times> bool) list \<Rightarrow> (int, nat list) gomap \<Rightarrow> (int, nat list) gomap" where
  "collect_leaders [] leaders = leaders"
| "collect_leaders ((i, connected, term, leader) # vs) leaders =
     collect_leaders vs
       (if connected \<and> leader then
          AList.update term ((case map_of leaders term of None \<Rightarrow> [] | Some ls \<Rightarrow> ls) @ [i]) leaders
        else leaders)"

text \<open>The loop over the map of leaders.\<close>

fun last_term :: "(int, nat list) gomap \<Rightarrow> int \<Rightarrow> 'c check_error + int" where
  "last_term [] t = Inr t"
| "last_term ((term, leaders) # ls) t =
     (if length leaders > 1 then Inl (MultipleLeaders term (length leaders))
      else last_term ls (if term > t then term else t))"

text \<open>The polls are what the tester sees in each of the ten rounds.\<close>

fun leader_rounds :: "view list \<Rightarrow> 'c check_error + nat" where
  "leader_rounds [] = Inl NoLeader"
| "leader_rounds (v # vs) =
     (let leaders = collect_leaders (enumerate 0 v) [] in
      case last_term leaders (-1) of
        Inl e \<Rightarrow> Inl e
      | Inr t \<Rightarrow>
          if length leaders \<noteq> 0 then
            (case map_of leaders t of Some (l # _) \<Rightarrow> Inr l | _ \<Rightarrow> Inl NilEntry)
          else leader_rounds vs)"

definition checkOneLeader :: "view list \<Rightarrow> 'c check_error + nat" where
  "checkOneLeader polls = leader_rounds (take 10 polls)"

fun terms_loop :: "view \<Rightarrow> int \<Rightarrow> 'c check_error + int" where
  "terms_loop [] term = Inr term"
| "terms_loop ((connected, xterm, _) # vs) term =
     (if connected then
        (if term = -1 then terms_loop vs xterm
         else if term \<noteq> xterm then Inl TermsDisagree
         else terms_loop vs term)
      else terms_loop vs term)"

definition checkTerms :: "view \<Rightarrow> 'c check_error + int" where
  "checkTerms v = terms_loop v (-1)"

fun no_leader_loop :: "(nat \<times> bool \<times> int \<times> bool) list \<Rightarrow> 'c check_error + unit" where
  "no_leader_loop [] = Inr ()"
| "no_leader_loop ((i, connected, _, leader) # vs) =
     (if connected \<and> leader then Inl (UnexpectedLeader i) else no_leader_loop vs)"

definition checkNoLeader :: "view \<Rightarrow> 'c check_error + unit" where
  "checkNoLeader v = no_leader_loop (enumerate 0 v)"

subsection \<open>Agreement\<close>

definition has_entry :: "'c RaftTest \<Rightarrow> nat \<Rightarrow> int \<Rightarrow> 'c any \<Rightarrow> bool" where
  "has_entry ts i k v \<longleftrightarrow> i < length (t_srvs ts) \<and> logs (t_srvs ts ! i) k = Some v"

definition logs_ok :: "'c RaftTest \<Rightarrow> bool" where
  "logs_ok ts \<longleftrightarrow>
     (\<forall>i j k v w. has_entry ts i k v \<and> has_entry ts j k w \<longrightarrow> v = w) \<and>
     (\<forall>i k v. has_entry ts i k v \<and> 1 < k \<longrightarrow> (\<exists>w. has_entry ts i (k - 1) w)) \<and>
     (\<forall>rs \<in> set (t_srvs ts). applyErr rs = None)"

text \<open>Without snapshots: messages arrive at any server in any order, and servers restart.\<close>

inductive raft_run :: "nat \<Rightarrow> 'c RaftTest \<Rightarrow> bool" for n where
  start: "raft_run n \<lparr>t_srvs = replicate n fresh_srv, maxIndex = 0\<rparr>"
| message: "raft_run n ts \<Longrightarrow> i < length (t_srvs ts) \<Longrightarrow> applier i m ts = Inr ts' \<Longrightarrow> raft_run n ts'"
| restart: "raft_run n ts \<Longrightarrow> i < length (t_srvs ts) \<Longrightarrow> mksrv dec False i sn ts = Inr ts' \<Longrightarrow> raft_run n ts'"

lemma disagreement_None:
  "disagreement i m js err = None \<longleftrightarrow>
     (\<forall>(j, rs) \<in> set js. \<forall>old. logs rs (CommandIndex m) = Some old \<longrightarrow> old = Command m) \<and>
     (js = [] \<longrightarrow> err = None) \<and> (err \<noteq> None \<longrightarrow> False)"
  if "err = None"
  using that
proof (induction js arbitrary: err)
  case (Cons p js)
  obtain j rs where p: "p = (j, rs)" by (cases p)
  have some: "disagreement i m js (Some e) \<noteq> None" for e
    by (induction js arbitrary: e) (auto split: option.split)
  show ?case using Cons some by (auto simp: p split: option.split)
qed simp

lemma ball_enumerate:
  "(\<forall>(j, x) \<in> set (enumerate 0 xs). P j x) \<longleftrightarrow> (\<forall>j < length xs. P j (xs ! j))"
  by (force simp: in_set_enumerate_eq)

lemma disagreement_iff:
  "disagreement i m (enumerate 0 (t_srvs ts)) None = None \<longleftrightarrow>
     (\<forall>j old. has_entry ts j (CommandIndex m) old \<longrightarrow> old = Command m)"
  by (subst disagreement_None) (auto simp: has_entry_def ball_enumerate)

text \<open>When a message stops the test.\<close>

lemma applier_stops:
  assumes "CommandValid m" and "i < length (t_srvs ts)"
  shows "(\<exists>e. applier i m ts = Inl e) \<longleftrightarrow>
    (\<exists>j old. has_entry ts j (CommandIndex m) old \<and> old \<noteq> Command m) \<or>
    1 < CommandIndex m \<and> (\<forall>v. \<not> has_entry ts i (CommandIndex m - 1) v)"
  using assms disagreement_iff [of i m ts]
  by (auto simp: applier_def checkLogs_def Let_def has_entry_def split: option.split)

lemma applier_state:
  assumes "applier i m ts = Inr ts'" and "CommandValid m"
  shows "t_srvs ts' = (t_srvs ts)[i := (t_srvs ts ! i)\<lparr>logs := (logs (t_srvs ts ! i))(CommandIndex m \<mapsto> Command m)\<rparr>]"
  using assms by (auto simp: applier_def checkLogs_def Let_def split: option.splits if_splits)

lemma message_ok:
  assumes "logs_ok ts" and "i < length (t_srvs ts)" and "applier i m ts = Inr ts'"
  shows "logs_ok ts'"
proof (cases "CommandValid m")
  case False
  with assms show ?thesis by (simp add: applier_def)
next
  case True
  have not_stop: "\<not> (\<exists>e. applier i m ts = Inl e)" using assms(3) by simp
  have same: "\<forall>j old. has_entry ts j (CommandIndex m) old \<longrightarrow> old = Command m"
    and prev: "1 < CommandIndex m \<longrightarrow> (\<exists>v. has_entry ts i (CommandIndex m - 1) v)"
    using not_stop unfolding applier_stops [OF True assms(2)] by blast+
  have entry: "has_entry ts' j k v \<longleftrightarrow>
      (if j = i \<and> k = CommandIndex m then v = Command m else has_entry ts j k v)" for j k v
    using assms(2) by (auto simp: has_entry_def applier_state [OF assms(3) True] nth_list_update)
  have "\<forall>rs \<in> set (t_srvs ts'). applyErr rs = None"
    using assms(1,2) by (simp add: logs_ok_def applier_state [OF assms(3) True] all_set_conv_all_nth nth_list_update)
  moreover have "v = w" if "has_entry ts' a k v" "has_entry ts' b k w" for a b k v w
    using that same assms(1) unfolding entry logs_ok_def by (metis (no_types))
  moreover have "\<exists>w. has_entry ts' a (k - 1) w" if "has_entry ts' a k v" "1 < k" for a k v
    using that prev assms(1) unfolding entry logs_ok_def by (metis (no_types))
  ultimately show ?thesis unfolding logs_ok_def by blast
qed

lemma restart_ok:
  assumes "logs_ok ts" and "mksrv dec False i sn ts = Inr ts'"
  shows "logs_ok ts'"
proof -
  have ts': "t_srvs ts' = (t_srvs ts)[i := fresh_srv]" using assms(2) by (auto simp: mksrv_def newRfsrv_def)
  have entry: "has_entry ts' j k v \<longleftrightarrow> j \<noteq> i \<and> has_entry ts j k v" for j k v
    by (cases "j = i") (auto simp: has_entry_def ts' fresh_srv_def)
  have "applyErr ((t_srvs ts)[i := fresh_srv] ! j) = None" if "j < length (t_srvs ts)" for j
    using that assms(1) by (cases "j = i") (simp_all add: logs_ok_def fresh_srv_def)
  then have "\<forall>rs \<in> set (t_srvs ts'). applyErr rs = None"
    by (simp add: ts' all_set_conv_all_nth)
  then show ?thesis using assms(1) unfolding logs_ok_def entry by (metis (no_types))
qed

lemma raft_run_ok: "raft_run n ts \<Longrightarrow> logs_ok ts"
proof (induction rule: raft_run.induct)
  case start
  have "\<not> has_entry \<lparr>t_srvs = replicate n fresh_srv, maxIndex = 0\<rparr> i k v" for i k and v :: "'a any"
    by (simp add: has_entry_def fresh_srv_def)
  then show ?case by (simp add: logs_ok_def) (simp add: fresh_srv_def)
qed (auto intro: message_ok restart_ok)

lemma count_committed_ok:
  assumes "\<forall>rs \<in> set srvs. applyErr rs = None \<and> (\<forall>w. logs rs k = Some w \<longrightarrow> w = v)" and "c > 0 \<longrightarrow> cmd = v"
  shows "\<exists>cmd'. count_committed k srvs c cmd = Inr (c + length (filter (\<lambda>rs. logs rs k \<noteq> None) srvs), cmd') \<and>
    (c + length (filter (\<lambda>rs. logs rs k \<noteq> None) srvs) > 0 \<longrightarrow> cmd' = v)"
  using assms
proof (induction srvs arbitrary: c cmd)
  case (Cons rs srvs)
  show ?case
  proof (cases "logs rs k")
    case None
    with Cons show ?thesis by simp
  next
    case (Some w)
    with Cons.prems have "w = v" by simp
    with Cons.IH [of "c + 1" v] Cons.prems Some show ?thesis by auto
  qed
qed simp


definition demo_msg :: "int \<Rightarrow> nat \<Rightarrow> nat ApplyMsg" where
  "demo_msg k c = \<lparr>CommandValid = True, Command = Some c, CommandIndex = k, SnapshotValid = False,
     Snapshot = None, m_SnapshotIndex = 0\<rparr>"

definition demo_test :: "nat RaftTest" where
  "demo_test = \<lparr>t_srvs = [fresh_srv\<lparr>logs := [1 \<mapsto> Some 7]\<rparr>, fresh_srv], maxIndex = 1\<rparr>"

lemma demo_test_run: "raft_run 2 demo_test"
proof -
  have A: "raft_run 2 (\<lparr>t_srvs = replicate 2 fresh_srv, maxIndex = 0\<rparr> :: nat RaftTest)" by (rule raft_run.start)
  have B: "applier 0 (demo_msg 1 7) \<lparr>t_srvs = replicate 2 fresh_srv, maxIndex = 0\<rparr> = Inr demo_test"
    by (simp add: demo_msg_def demo_test_def applier_def checkLogs_def Let_def fresh_srv_def numeral_2_eq_2)
  show ?thesis using raft_run.message [OF A _ B] by simp
qed


text \<open>C11. A message on an apply channel stops the test exactly when it must: some server (the
  receiver included) already has another command at its index, or the receiver has no entry just
  before it.\<close>

theorem applier_stops_iff:
  assumes "CommandValid m" and "i < length (t_srvs ts)"
  shows "(\<exists>e. applier i m ts = Inl e) \<longleftrightarrow>
    (\<exists>j < length (t_srvs ts). \<exists>old. logs (t_srvs ts ! j) (CommandIndex m) = Some old \<and> old \<noteq> Command m) \<or>
    1 < CommandIndex m \<and> logs (t_srvs ts ! i) (CommandIndex m - 1) = None"
  using applier_stops [OF assms] assms(2) by (auto simp: has_entry_def)

theorem applier_stops_iff_witness:
  "(\<exists>e. applier 1 (demo_msg 1 8) demo_test = Inl e) \<and> \<not> (\<exists>e. applier 1 (demo_msg 1 7) demo_test = Inl e)"
  using applier_stops_iff [of "demo_msg 1 8" 1 demo_test] applier_stops_iff [of "demo_msg 1 7" 1 demo_test]
  by (auto simp: demo_msg_def demo_test_def fresh_srv_def less_Suc_eq numeral_2_eq_2 intro: exI [of _ 0])

subsection \<open>Restarting from a snapshot\<close>

text \<open>The messages of one server, and the snapshots it hands to Raft on the way.\<close>

fun snap_msgs :: "'c snap_enc \<Rightarrow> 'c snap_dec \<Rightarrow> nat \<Rightarrow> 'c ApplyMsg list \<Rightarrow> 'c RaftTest \<Rightarrow>
    'c apply_error + (int \<times> bytes) option list \<times> 'c RaftTest" where
  "snap_msgs enc dec me [] ts = Inr ([], ts)"
| "snap_msgs enc dec me (m # ms) ts = (case applierSnap enc dec me m ts of
      Inl e \<Rightarrow> Inl e
    | Inr (sn, ts') \<Rightarrow> (case snap_msgs enc dec me ms ts' of
        Inl e \<Rightarrow> Inl e
      | Inr (sns, ts'') \<Rightarrow> Inr (sn # sns, ts'')))"

text \<open>Two servers that behave alike from now on: the same, or alike where it matters.\<close>

definition alike :: "'c rfsrv \<Rightarrow> 'c rfsrv \<Rightarrow> bool" where
  "alike a b \<longleftrightarrow> a = b \<or>
     0 \<le> lastApplied a \<and> lastApplied b = lastApplied a \<and> applyErr b = applyErr a \<and>
     (\<forall>k \<ge> 1. logs b k = logs a k) \<and> read_log b 0 = read_log a 0"

definition alike_but :: "nat \<Rightarrow> 'c RaftTest \<Rightarrow> 'c RaftTest \<Rightarrow> bool" where
  "alike_but me s t \<longleftrightarrow> me < length (t_srvs s) \<and>
     (\<exists>b. alike (t_srvs s ! me) b \<and> t = s\<lparr>t_srvs := (t_srvs s)[me := b]\<rparr>)"

lemma disagreement_cong:
  "map (\<lambda>(j, rs). (j, logs rs (CommandIndex m))) js = map (\<lambda>(j, rs). (j, logs rs (CommandIndex m))) js' \<Longrightarrow>
   disagreement i m js err = disagreement i m js' err"
proof (induction js arbitrary: js' err)
  case (Cons p js)
  then obtain p' js'' where js': "js' = p' # js''" by (cases js') auto
  obtain j rs j' rs' where p: "p = (j, rs)" "p' = (j', rs')" by (cases p, cases p') auto
  from Cons.prems have eq: "j' = j" "logs rs' (CommandIndex m) = logs rs (CommandIndex m)" by (auto simp: js' p)
  from Cons.prems have "map (\<lambda>(j, rs). (j, logs rs (CommandIndex m))) js = map (\<lambda>(j, rs). (j, logs rs (CommandIndex m))) js''"
    by (simp add: js')
  from Cons.IH [OF this] show ?case by (simp add: js' p eq)
qed simp

text \<open>The receiver after the command \<open>m\<close>, and what the next command in order does.\<close>

definition received :: "'c ApplyMsg \<Rightarrow> 'c rfsrv \<Rightarrow> 'c rfsrv" where
  "received m a = a\<lparr>logs := (logs a)(CommandIndex m \<mapsto> Command m), lastApplied := CommandIndex m\<rparr>"

lemma applierSnap_next:
  assumes "\<not> SnapshotValid m" and "CommandValid m" and "me < length (t_srvs ts)" and "t_srvs ts ! me = a"
    and "CommandIndex m = lastApplied a + 1"
  shows "applierSnap enc dec me m ts =
    (case (if CommandIndex m > 1 \<and> logs a (CommandIndex m - 1) = None then Some (OutOfOrder me (CommandIndex m))
           else disagreement me m (enumerate 0 (t_srvs ts)) None) of
       Some e \<Rightarrow> Inl e
     | None \<Rightarrow> Inr (if (CommandIndex m + 1) mod 10 = 0 then Some (CommandIndex m, make_snapshot enc (CommandIndex m) (received m a)) else None,
         ts\<lparr>t_srvs := (t_srvs ts)[me := received m a],
            maxIndex := (if CommandIndex m > maxIndex ts then CommandIndex m else maxIndex ts)\<rparr>))"
proof -
  have eq: "(CommandIndex m = lastApplied a + 1) = True" using assms(5) by simp
  show ?thesis
    by (simp add: applierSnap_def checkLogs_def Let_def received_def assms(1-4) eq split: option.split)
qed

lemma alike_applierSnap:
  assumes "alike_but me s t"
  shows "(\<exists>e. applierSnap enc dec me m s = Inl e \<and> applierSnap enc dec me m t = Inl e) \<or>
    (\<exists>sn s' t'. applierSnap enc dec me m s = Inr (sn, s') \<and> applierSnap enc dec me m t = Inr (sn, t') \<and> alike_but me s' t')"
proof -
  obtain b where me: "me < length (t_srvs s)" and al: "alike (t_srvs s ! me) b" and t: "t = s\<lparr>t_srvs := (t_srvs s)[me := b]\<rparr>"
    using assms by (auto simp: alike_but_def)
  define a where "a = t_srvs s ! me"
  have tme: "t_srvs t ! me = b" using me t by simp
  have la: "lastApplied b = lastApplied a" and ae: "applyErr b = applyErr a" using al by (auto simp: alike_def a_def)
  show ?thesis
  proof (cases "SnapshotValid m")
    case True
    show ?thesis
    proof (cases "ingestSnap dec me (Snapshot m) (m_SnapshotIndex m) a")
      case (Inl e)
      then have "ingestSnap dec me (Snapshot m) (m_SnapshotIndex m) b = Inl e"
        by (auto simp: ingestSnap_def split: option.splits prod.splits if_splits)
      with Inl True show ?thesis by (simp add: applierSnap_def tme a_def [symmetric])
    next
      case (Inr r)
      obtain err a' where r: "r = (err, a')" by (cases r)
      show ?thesis
      proof (cases err)
        case (Some e)
        then have "\<exists>b'. ingestSnap dec me (Snapshot m) (m_SnapshotIndex m) b = Inr (Some e, b')"
          using Inr r by (auto simp: ingestSnap_def split: option.splits prod.splits if_splits)
        with Inr Some r True show ?thesis by (auto simp: applierSnap_def tme a_def [symmetric])
      next
        case None
        then have "ingestSnap dec me (Snapshot m) (m_SnapshotIndex m) b = Inr (None, a')"
          using Inr r ae by (auto simp: ingestSnap_def split: option.splits prod.splits if_splits)
        moreover have "alike_but me (s\<lparr>t_srvs := (t_srvs s)[me := a']\<rparr>) (s\<lparr>t_srvs := (t_srvs s)[me := a']\<rparr>)"
          using me by (auto simp: alike_but_def alike_def intro: exI [of _ a'])
        ultimately show ?thesis using Inr r None True by (simp add: applierSnap_def tme a_def [symmetric]) (simp add: t)
      qed
    qed
  next
    case False
    show ?thesis
    proof (cases "CommandValid m \<and> CommandIndex m = lastApplied a + 1")
      case other: False
      then show ?thesis using assms False la
        by (auto simp: applierSnap_def tme a_def [symmetric])
    next
      case next_index: True
      let ?k = "CommandIndex m"
      have old: "logs b ?k = logs a ?k" and prev: "?k > 1 \<Longrightarrow> logs b (?k - 1) = logs a (?k - 1)"
        using al next_index by (auto simp: alike_def a_def [symmetric])
      have "map (\<lambda>(j, rs). (j, logs rs ?k)) (enumerate 0 (t_srvs t)) = map (\<lambda>(j, rs). (j, logs rs ?k)) (enumerate 0 (t_srvs s))"
        using me old by (intro nth_equalityI) (auto simp: t nth_enumerate_eq nth_list_update a_def)
      then have dis: "disagreement me m (enumerate 0 (t_srvs t)) None = disagreement me m (enumerate 0 (t_srvs s)) None"
        by (rule disagreement_cong)
      have al': "alike (received m a) (received m b)"
        using al next_index by (auto simp: alike_def received_def read_log_def a_def [symmetric])
      then have rd: "read_log (received m b) (int j) = read_log (received m a) (int j)" for j
        by (cases j) (auto simp: alike_def read_log_def)
      then have snap: "make_snapshot enc ?k (received m b) = make_snapshot enc ?k (received m a)"
        by (simp add: make_snapshot_def)
      let ?s' = "s\<lparr>t_srvs := (t_srvs s)[me := received m a], maxIndex := (if ?k > maxIndex s then ?k else maxIndex s)\<rparr>"
      let ?t' = "s\<lparr>t_srvs := (t_srvs s)[me := received m b], maxIndex := (if ?k > maxIndex s then ?k else maxIndex s)\<rparr>"
      let ?fate = "if ?k > 1 \<and> logs a (?k - 1) = None then Some (OutOfOrder me ?k) else disagreement me m (enumerate 0 (t_srvs s)) None"
      have fate: "(if ?k > 1 \<and> logs b (?k - 1) = None then Some (OutOfOrder me ?k)
          else disagreement me m (enumerate 0 (t_srvs t)) None) = ?fate"
        using prev dis by auto
      have t': "t\<lparr>t_srvs := (t_srvs t)[me := received m b], maxIndex := (if ?k > maxIndex t then ?k else maxIndex t)\<rparr> = ?t'"
        by (simp add: t)
      have S: "applierSnap enc dec me m s = (case ?fate of Some e \<Rightarrow> Inl e | None \<Rightarrow>
          Inr (if (?k + 1) mod 10 = 0 then Some (?k, make_snapshot enc ?k (received m a)) else None, ?s'))"
        by (rule applierSnap_next) (use False next_index me in \<open>simp_all add: a_def\<close>)
      have "applierSnap enc dec me m t = (case (if ?k > 1 \<and> logs b (?k - 1) = None then Some (OutOfOrder me ?k)
          else disagreement me m (enumerate 0 (t_srvs t)) None) of Some e \<Rightarrow> Inl e | None \<Rightarrow>
          Inr (if (?k + 1) mod 10 = 0 then Some (?k, make_snapshot enc ?k (received m b)) else None,
            t\<lparr>t_srvs := (t_srvs t)[me := received m b], maxIndex := (if ?k > maxIndex t then ?k else maxIndex t)\<rparr>))"
        by (rule applierSnap_next) (use False next_index me la t in \<open>simp_all add: a_def\<close>)
      then have T: "applierSnap enc dec me m t = (case ?fate of Some e \<Rightarrow> Inl e | None \<Rightarrow>
          Inr (if (?k + 1) mod 10 = 0 then Some (?k, make_snapshot enc ?k (received m a)) else None, ?t'))"
        unfolding fate t' snap .
      have "alike_but me ?s' ?t'" using me al' by (auto simp: alike_but_def intro: exI [of _ "received m b"])
      then show ?thesis unfolding S T by (cases ?fate) auto
    qed
  qed
qed

lemma alike_msgs:
  "alike_but me s t \<Longrightarrow> map_sum id fst (snap_msgs enc dec me ms s) = map_sum id fst (snap_msgs enc dec me ms t)"
proof (induction ms arbitrary: s t)
  case (Cons m ms)
  from alike_applierSnap [OF Cons.prems, of enc dec m] show ?case
  proof (elim disjE exE conjE)
    fix sn s' t' assume "applierSnap enc dec me m s = Inr (sn, s')" "applierSnap enc dec me m t = Inr (sn, t')" "alike_but me s' t'"
    with Cons.IH [of s' t'] show ?thesis
      by (cases "snap_msgs enc dec me ms s'"; cases "snap_msgs enc dec me ms t'") auto
  qed simp
qed simp

text \<open>A server of a run with snapshots: it starts empty and receives messages; a snapshot that
  arrives is one that some server made, at an index \<open>i\<close>, so it lists the entries up to \<open>i\<close>; other
  servers may do anything.\<close>

inductive snap_run :: "'c snap_enc \<Rightarrow> 'c snap_dec \<Rightarrow> nat \<Rightarrow> 'c RaftTest \<Rightarrow> bool" for enc dec me where
  start: "me < length (t_srvs ts) \<Longrightarrow> t_srvs ts ! me = fresh_srv \<Longrightarrow> snap_run enc dec me ts"
| message: "snap_run enc dec me ts \<Longrightarrow> applierSnap enc dec me m ts = Inr (sn, ts') \<Longrightarrow>
    (SnapshotValid m \<Longrightarrow> \<exists>i xs. Snapshot m = Some (enc i xs) \<and> 0 \<le> i \<and> length xs = nat (i + 1)) \<Longrightarrow>
    snap_run enc dec me ts'"
| others: "snap_run enc dec me ts \<Longrightarrow> length (t_srvs ts') = length (t_srvs ts) \<Longrightarrow>
    t_srvs ts' ! me = t_srvs ts ! me \<Longrightarrow> snap_run enc dec me ts'"

definition snap_ok :: "'c rfsrv \<Rightarrow> bool" where
  "snap_ok rs \<longleftrightarrow> applyErr rs = None \<and> 0 \<le> lastApplied rs \<and>
     (\<forall>k \<ge> 1. logs rs k \<noteq> None \<longleftrightarrow> k \<le> lastApplied rs)"

lemma applierSnap_command:
  assumes "applierSnap enc dec me m ts = Inr (sn, ts')" and "CommandValid m" and "\<not> SnapshotValid m"
    and "me < length (t_srvs ts)"
  shows "CommandIndex m = lastApplied (t_srvs ts ! me) + 1" and "length (t_srvs ts') = length (t_srvs ts)"
    and "t_srvs ts' ! me = received m (t_srvs ts ! me)"
    and "sn = (if (CommandIndex m + 1) mod 10 = 0
      then Some (CommandIndex m, make_snapshot enc (CommandIndex m) (received m (t_srvs ts ! me))) else None)"
proof -
  show idx: "CommandIndex m = lastApplied (t_srvs ts ! me) + 1"
    using assms by (auto simp: applierSnap_def Let_def split: if_splits)
  note eq = applierSnap_next [OF assms(3,2,4) refl idx, of enc dec]
  show "length (t_srvs ts') = length (t_srvs ts)" "t_srvs ts' ! me = received m (t_srvs ts ! me)"
    "sn = (if (CommandIndex m + 1) mod 10 = 0
      then Some (CommandIndex m, make_snapshot enc (CommandIndex m) (received m (t_srvs ts ! me))) else None)"
    using assms(1,4) unfolding eq by (auto split: option.splits if_splits)
qed

lemma received_ok:
  assumes "snap_ok a" and "CommandIndex m = lastApplied a + 1"
  shows "snap_ok (received m a)"
  using assms by (auto simp: snap_ok_def received_def)

lemma ingest_ok:
  assumes "dec b = Some (i, xs)" and "0 \<le> i" and "length xs = nat (i + 1)" and "applyErr rs = None"
    and "ingestSnap dec me (Some b) idx rs = Inr (None, rs')"
  shows "snap_ok rs' \<and> lastApplied rs' = i \<and>
    logs rs' = (\<lambda>j. if 0 \<le> j \<and> j \<le> i then Some (xs ! nat j) else None)"
  using assms by (auto simp: ingestSnap_def snap_ok_def split: if_splits)

lemma snap_run_ok:
  assumes "snap_run enc dec me ts" and "\<forall>i xs. dec (enc i xs) = Some (i, xs)"
  shows "me < length (t_srvs ts) \<and> snap_ok (t_srvs ts ! me)"
  using assms(1)
proof (induction rule: snap_run.induct)
  case (start ts)
  then show ?case by (simp add: snap_ok_def fresh_srv_def)
next
  case (message ts m sn ts')
  show ?case
  proof (cases "SnapshotValid m")
    case True
    with message.hyps(3) obtain i xs where sn: "Snapshot m = Some (enc i xs)" "0 \<le> i" "length xs = nat (i + 1)" by blast
    with message.hyps(2) True obtain rs' where
      rs': "ingestSnap dec me (Some (enc i xs)) (m_SnapshotIndex m) (t_srvs ts ! me) = Inr (None, rs')"
        "ts' = ts\<lparr>t_srvs := (t_srvs ts)[me := rs']\<rparr>"
      by (auto simp: applierSnap_def split: sum.splits prod.splits option.splits)
    have "applyErr (t_srvs ts ! me) = None" using message.IH by (simp add: snap_ok_def)
    with ingest_ok [OF _ sn(2,3) _ rs'(1)] assms(2) show ?thesis using message.IH rs'(2) by simp
  next
    case no: False
    show ?thesis
    proof (cases "CommandValid m")
      case True
      note cmd = applierSnap_command [OF message.hyps(2) True no]
      with received_ok [OF _ cmd(1)] show ?thesis using message.IH by simp
    next
      case False
      with no message show ?thesis by (auto simp: applierSnap_def)
    qed
  qed
qed simp

text \<open>C10. Crash and recovery: when a server has handed a snapshot to Raft and is then restarted
  from that snapshot, it resumes at the snapshot's index with the same log, and nobody can tell:
  for every further sequence of messages, the restarted server stops the test with the same error
  or hands the same snapshots to Raft as the server that was never restarted. (The encoder
  round-trips and produces some bytes.)\<close>

theorem snapshot_restart_transparent:
  assumes "\<forall>i xs. dec (enc i xs) = Some (i, xs) \<and> enc i xs \<noteq> []"
    and "snap_run enc dec me ts"
    and "applierSnap enc dec me m ts = Inr (Some (idx, b), ts1)" and "CommandValid m" and "\<not> SnapshotValid m"
  shows "\<exists>ts2. mksrv dec True me (Some b) ts1 = Inr ts2 \<and> lastApplied (t_srvs ts2 ! me) = idx \<and>
    (\<forall>k \<ge> 1. logs (t_srvs ts2 ! me) k = logs (t_srvs ts1 ! me) k) \<and>
    map_sum id fst (snap_msgs enc dec me ms ts1) = map_sum id fst (snap_msgs enc dec me ms ts2)"
proof -
  have me: "me < length (t_srvs ts)" and ok: "snap_ok (t_srvs ts ! me)"
    using snap_run_ok [OF assms(2)] assms(1) by simp_all
  note cmd = applierSnap_command [OF assms(3-5) me]
  define a where "a = t_srvs ts1 ! me"
  have a: "a = received m (t_srvs ts ! me)" using cmd(3) by (simp add: a_def)
  have idx: "idx = CommandIndex m" "b = make_snapshot enc idx a"
    using cmd(4) by (simp_all add: a split: if_splits)
  have oka: "snap_ok a" using received_ok [OF ok cmd(1)] by (simp add: a)
  have la: "lastApplied a = idx" and pos: "0 \<le> idx" using oka by (simp_all add: a received_def idx(1) snap_ok_def)
  define xs where "xs = map (\<lambda>j. read_log a (int j)) [0..<nat (idx + 1)]"
  have b: "b = enc idx xs" by (simp add: idx(2) make_snapshot_def xs_def)
  define rs where "rs = fresh_srv\<lparr>logs := (\<lambda>j. if 0 \<le> j \<and> j < int (length xs) then Some (xs ! nat j) else None), lastApplied := idx\<rparr>"
  have "newRfsrv dec me True (Some b) = Inr rs"
    using assms(1) by (simp add: newRfsrv_def b ingestSnap_def rs_def)
  then have mk: "mksrv dec True me (Some b) ts1 = Inr (ts1\<lparr>t_srvs := (t_srvs ts1)[me := rs]\<rparr>)"
    by (simp add: mksrv_def)
  have len: "int (length xs) = idx + 1" using pos by (simp add: xs_def)
  have entry: "logs rs k = (if 0 \<le> k \<and> k \<le> idx then Some (read_log a k) else None)" for k
    using len by (auto simp: rs_def xs_def)
  have same: "logs rs k = logs a k" if "1 \<le> k" for k
    using oka that la by (auto simp: entry snap_ok_def read_log_def split: option.split)
  have "alike a rs"
    using oka la pos same by (auto simp: alike_def snap_ok_def entry read_log_def) (simp_all add: rs_def fresh_srv_def)
  then have "alike_but me ts1 (ts1\<lparr>t_srvs := (t_srvs ts1)[me := rs]\<rparr>)"
    using me cmd(2) by (auto simp: alike_but_def a_def)
  from alike_msgs [OF this, of enc dec ms] mk show ?thesis
    using me cmd(2) same by (intro exI [of _ "ts1\<lparr>t_srvs := (t_srvs ts1)[me := rs]\<rparr>"]) (simp add: rs_def a_def)
qed

text \<open>An encoding of snapshots, in unary.\<close>

definition demo_enc :: "int \<Rightarrow> unit any list \<Rightarrow> bytes" where
  "demo_enc i xs = (if i < 0 then 2 else 1) # replicate (nat \<bar>i\<bar>) 1 @ 0 # map (\<lambda>x. if x = None then 0 else 1) xs"

definition demo_dec :: "bytes \<Rightarrow> (int \<times> unit any list) option" where
  "demo_dec b = (case b of [] \<Rightarrow> None | s # r \<Rightarrow>
     (let n = length (takeWhile (\<lambda>x. x = 1) r)
      in Some ((if s = 2 then - int n else int n), map (\<lambda>x. if x = 0 then None else Some ()) (drop (n + 1) r))))"

lemma demo_dec_enc: "demo_dec (demo_enc i xs) = Some (i, xs) \<and> demo_enc i xs \<noteq> []"
proof -
  have "takeWhile (\<lambda>x. x = 1) (replicate n 1 @ 0 # r) = replicate n (1 :: 8 word)" for n r
    by (induction n) simp_all
  moreover have "map (\<lambda>x. if (if x = None then 0 else 1) = (0 :: 8 word) then None else Some ()) xs = xs"
    by (rule map_idI) auto
  ultimately show ?thesis by (simp add: demo_enc_def demo_dec_def comp_def)
qed

definition demo_snap :: "unit ApplyMsg" where
  "demo_snap = \<lparr>CommandValid = False, Command = None, CommandIndex = 0, SnapshotValid = True,
     Snapshot = Some (demo_enc 8 (replicate 9 (Some ()))), m_SnapshotIndex = 8\<rparr>"

definition demo_cmd :: "int \<Rightarrow> unit ApplyMsg" where
  "demo_cmd k = \<lparr>CommandValid = True, Command = Some (), CommandIndex = k, SnapshotValid = False,
     Snapshot = None, m_SnapshotIndex = 0\<rparr>"

theorem snapshot_restart_transparent_witness:
  "\<exists>ts b ts1 ts2. applierSnap demo_enc demo_dec 0 (demo_cmd 9) ts = Inr (Some (9, b), ts1) \<and>
     mksrv demo_dec True 0 (Some b) ts1 = Inr ts2 \<and> lastApplied (t_srvs ts2 ! 0) = 9"
proof -
  define ts0 :: "unit RaftTest" where "ts0 = \<lparr>t_srvs = [fresh_srv], maxIndex = 0\<rparr>"
  define rs where "rs = fresh_srv\<lparr>logs := (\<lambda>j. if 0 \<le> j \<and> j < 9 then Some (replicate 9 (Some ()) ! nat j) else None), lastApplied := 8\<rparr>"
  define ts where "ts = ts0\<lparr>t_srvs := [rs]\<rparr>"
  have "snap_run demo_enc demo_dec 0 ts0" by (rule snap_run.start) (simp_all add: ts0_def)
  moreover have "applierSnap demo_enc demo_dec 0 demo_snap ts0 = Inr (None, ts)"
    by (simp add: applierSnap_def ts0_def demo_snap_def ingestSnap_def demo_dec_enc ts_def rs_def)
  ultimately have run: "snap_run demo_enc demo_dec 0 ts"
    by (rule snap_run.message) (auto simp: demo_snap_def intro!: exI [of _ 8] exI [of _ "replicate 9 (Some ())"])
  have old: "disagreement 0 (demo_cmd 9) (enumerate 0 (t_srvs ts)) None = None"
    by (simp add: ts_def rs_def demo_cmd_def)
  have "\<exists>b ts1. applierSnap demo_enc demo_dec 0 (demo_cmd 9) ts = Inr (Some (9, b), ts1)"
    by (subst applierSnap_next [where a = rs]) (simp_all add: old, simp_all add: demo_cmd_def ts_def rs_def)
  then obtain b ts1 where st: "applierSnap demo_enc demo_dec 0 (demo_cmd 9) ts = Inr (Some (9, b), ts1)" by blast
  have law: "\<forall>i xs. demo_dec (demo_enc i xs) = Some (i, xs) \<and> demo_enc i xs \<noteq> []" using demo_dec_enc by blast
  have "CommandValid (demo_cmd 9)" "\<not> SnapshotValid (demo_cmd 9)" by (simp_all add: demo_cmd_def)
  from snapshot_restart_transparent [OF law run st this, of "[]"] st show ?thesis by blast
qed

subsection \<open>Finding the leader\<close>

definition leads :: "view \<Rightarrow> nat \<Rightarrow> int \<Rightarrow> bool" where
  "leads v i t \<longleftrightarrow> i < length v \<and> v ! i = (True, t, True)"

text \<open>Server \<open>l\<close> leads in the highest term in which a connected server leads, and no term has two
  leaders.\<close>

definition leader_of :: "view \<Rightarrow> nat \<Rightarrow> bool" where
  "leader_of v l \<longleftrightarrow> (\<exists>t. leads v l t \<and> (\<forall>i t'. leads v i t' \<longrightarrow> t' \<le> t)) \<and>
     (\<forall>i j t. leads v i t \<and> leads v j t \<longrightarrow> i = j)"

definition leader_list :: "(nat \<times> bool \<times> int \<times> bool) list \<Rightarrow> int \<Rightarrow> nat list" where
  "leader_list vs t = map fst (filter (\<lambda>(i, c, t', l). c \<and> l \<and> t' = t) vs)"

lemma collect_leaders_map:
  assumes "wf_map m"
  shows "wf_map (collect_leaders vs m) \<and>
    map_of (collect_leaders vs m) t =
      (if leader_list vs t = [] then map_of m t
       else Some ((case map_of m t of None \<Rightarrow> [] | Some ls \<Rightarrow> ls) @ leader_list vs t))"
  using assms
proof (induction vs arbitrary: m)
  case (Cons p vs)
  obtain i c t' l where p: "p = (i, c, t', l)" by (cases p)
  show ?case
  proof (cases "c \<and> l")
    case True
    let ?m = "AList.update t' ((case map_of m t' of None \<Rightarrow> [] | Some ls \<Rightarrow> ls) @ [i]) m"
    have "wf_map ?m" using Cons.prems by (simp add: distinct_update)
    from Cons.IH [OF this] True show ?thesis
      by (auto simp: p leader_list_def update_conv' split: option.split)
  next
    case False
    with Cons show ?thesis by (auto simp: p leader_list_def)
  qed
qed (simp add: leader_list_def)

lemma leader_list_view: "leader_list (enumerate 0 v) t = filter (\<lambda>i. leads v i t) [0..<length v]"
proof -
  have "enumerate 0 v = map (\<lambda>i. (i, v ! i)) [0..<length v]"
    by (rule nth_equalityI) (simp_all add: nth_enumerate_eq)
  then have "leader_list (enumerate 0 v) t = filter (\<lambda>i. case v ! i of (c, t', l) \<Rightarrow> c \<and> l \<and> t' = t) [0..<length v]"
    by (simp add: leader_list_def filter_map comp_def)
  also have "\<dots> = filter (\<lambda>i. leads v i t) [0..<length v]"
    by (rule filter_cong) (auto simp: leads_def split: prod.splits)
  finally show ?thesis .
qed

lemma last_term_result:
  assumes "t0 \<in> {-1..}"
  shows "(\<exists>e. last_term ls t0 = Inl e) \<longleftrightarrow> (\<exists>(t, is) \<in> set ls. length is > 1)"
    and "last_term ls t0 = Inr t \<Longrightarrow> t = Max (insert t0 (fst ` set ls))"
  using assms
proof (induction ls arbitrary: t0)
  case (Cons p ls)
  obtain t1 "is" where p: "p = (t1, is)" by (cases p)
  {
    case 1
    then show ?case using Cons.IH(1) [of "if t1 > t0 then t1 else t0"] by (auto simp: p)
  next
    case 2
    then have "t = Max (insert (if t1 > t0 then t1 else t0) (fst ` set ls))"
      using Cons.IH(2) [of "if t1 > t0 then t1 else t0"] by (auto simp: p split: if_splits)
    also have "\<dots> = Max (insert t0 (fst ` set (p # ls)))"
      by (cases "fst ` set ls = {}") (auto simp: p Max_insert insert_commute)
    finally show ?case .
  }
qed auto

lemma leader_round:
  assumes "\<forall>(c, t, b) \<in> set v. 0 \<le> t" and "ls = collect_leaders (enumerate 0 v) []"
  shows "ls = [] \<longleftrightarrow> (\<forall>i t. \<not> leads v i t)"
    and "(\<exists>e. last_term ls (-1) = Inl e) \<longleftrightarrow> (\<exists>i j t. leads v i t \<and> leads v j t \<and> i \<noteq> j)"
    and "last_term ls (-1) = Inr t \<Longrightarrow> ls \<noteq> [] \<Longrightarrow> \<exists>l. map_of ls t = Some [l] \<and> leader_of v l"
proof -
  have wf: "wf_map ls" and entry: "map_of ls t = (let is = filter (\<lambda>i. leads v i t) [0..<length v] in if is = [] then None else Some is)" for t
    using collect_leaders_map [of "[]" "enumerate 0 v" t] by (simp_all add: assms(2) leader_list_view Let_def)
  have dom: "t \<in> fst ` set ls \<longleftrightarrow> (\<exists>i. leads v i t)" for t
  proof -
    have "t \<in> fst ` set ls \<longleftrightarrow> map_of ls t \<noteq> None" by (metis map_of_eq_None_iff)
    also have "\<dots> \<longleftrightarrow> (\<exists>i. leads v i t)" by (auto simp: entry Let_def filter_empty_conv leads_def)
    finally show ?thesis .
  qed
  have nonneg: "leads v i t \<Longrightarrow> 0 \<le> t" for i t
    using assms(1) by (fastforce simp: leads_def in_set_conv_nth)
  show "ls = [] \<longleftrightarrow> (\<forall>i t. \<not> leads v i t)" using dom by (metis empty_iff empty_set image_empty last_in_set image_eqI)
  have two: "length (filter (\<lambda>i. leads v i t) [0..<length v]) > 1 \<longleftrightarrow> (\<exists>i j. leads v i t \<and> leads v j t \<and> i \<noteq> j)" for t
  proof -
    have "length (filter (\<lambda>i. leads v i t) [0..<length v]) = card {i. leads v i t}"
    proof -
      have "set (filter (\<lambda>i. leads v i t) [0..<length v]) = {i. leads v i t}" by (auto simp: leads_def)
      moreover have "distinct (filter (\<lambda>i. leads v i t) [0..<length v])" by simp
      ultimately show ?thesis by (metis distinct_card)
    qed
    moreover have "finite {i. leads v i t}" by (rule finite_subset [of _ "{..<length v}"]) (auto simp: leads_def)
    moreover have "1 < card {i. leads v i t} \<longleftrightarrow> \<not> card {i. leads v i t} \<le> Suc 0" by (simp add: not_le)
    ultimately show ?thesis by (simp only: card_le_Suc0_iff_eq) blast
  qed
  have inls: "(t, is) \<in> set ls \<longleftrightarrow> is \<noteq> [] \<and> is = filter (\<lambda>i. leads v i t) [0..<length v]" for t "is"
    using entry [of t] map_of_is_SomeI [OF wf, of t "is"] map_of_SomeD [of ls t "is"] by (auto simp: Let_def split: if_splits)
  show err: "(\<exists>e. last_term ls (-1) = Inl e) \<longleftrightarrow> (\<exists>i j t. leads v i t \<and> leads v j t \<and> i \<noteq> j)"
  proof -
    have "(\<exists>e. last_term ls (-1) = Inl e) \<longleftrightarrow> (\<exists>t. length (filter (\<lambda>i. leads v i t) [0..<length v]) > 1)"
      using last_term_result(1) [of "-1" ls] inls by fastforce
    then show ?thesis using two by blast
  qed
  assume r: "last_term ls (-1) = Inr t" and ne: "ls \<noteq> []"
  have t: "t = Max (insert (-1) (fst ` set ls))" using last_term_result(2) [OF _ r] by simp
  have neg: "-1 \<notin> fst ` set ls" using nonneg dom [of "-1"] by fastforce
  have "t = Max (fst ` set ls)"
  proof -
    obtain x where x: "x \<in> fst ` set ls" using ne by (cases ls) auto
    then have "0 \<le> x" using nonneg dom by blast
    moreover have "x \<le> Max (fst ` set ls)" using x by (intro Max_ge) auto
    ultimately have "-1 \<le> Max (fst ` set ls)" by simp
    moreover have "Max (insert (-1) (fst ` set ls)) = max (-1) (Max (fst ` set ls))"
      using x by (intro Max_insert) auto
    ultimately show ?thesis unfolding t by simp
  qed
  moreover have "fst ` set ls \<noteq> {}" using ne by simp
  ultimately have in_t: "t \<in> fst ` set ls" and max: "\<forall>t' \<in> fst ` set ls. t' \<le> t" by simp_all
  then obtain l where l: "leads v l t" using dom by blast
  have uniq: "\<forall>i j t. leads v i t \<and> leads v j t \<longrightarrow> i = j" using err r by (metis Inl_Inr_False)
  have "filter (\<lambda>i. leads v i t) [0..<length v] = [l]"
  proof -
    have "\<not> length (filter (\<lambda>i. leads v i t) [0..<length v]) > 1" using two uniq by blast
    moreover have "l \<in> set (filter (\<lambda>i. leads v i t) [0..<length v])" using l by (simp add: leads_def)
    ultimately show ?thesis by (cases "filter (\<lambda>i. leads v i t) [0..<length v]") auto
  qed
  then have "map_of ls t = Some [l]" by (simp add: entry)
  moreover have "t' \<le> t" if "leads v i t'" for i t'
    using that max dom [of t'] by blast
  with l uniq have "leader_of v l" unfolding leader_of_def by blast
  ultimately show "\<exists>l. map_of ls t = Some [l] \<and> leader_of v l" by blast
qed

lemma leader_of_unique: "leader_of v l \<Longrightarrow> leader_of v l' \<Longrightarrow> l = l'"
  unfolding leader_of_def by (metis order_antisym)

lemma leader_rounds_ok:
  assumes "\<forall>v \<in> set vs. \<forall>(c, t, b) \<in> set v. 0 \<le> t"
  shows "(leader_rounds vs :: 'c check_error + nat) = Inr l \<longleftrightarrow>
    (\<exists>k < length vs. leader_of (vs ! k) l \<and> (\<forall>j < k. \<forall>i t. \<not> leads (vs ! j) i t))"
  using assms
proof (induction vs)
  case (Cons v vs)
  define ls where "ls = collect_leaders (enumerate 0 v) []"
  have terms: "\<forall>(c, t, b) \<in> set v. 0 \<le> t" using Cons.prems by simp
  note round = leader_round [OF terms ls_def]
  have shift: "(\<exists>k < length (v # vs). leader_of ((v # vs) ! k) l \<and> (\<forall>j < k. \<forall>i t. \<not> leads ((v # vs) ! j) i t)) \<longleftrightarrow>
      leader_of v l \<or> (\<forall>i t. \<not> leads v i t) \<and> (\<exists>k < length vs. leader_of (vs ! k) l \<and> (\<forall>j < k. \<forall>i t. \<not> leads (vs ! j) i t))"
    by (simp add: Ex_less_Suc2 All_less_Suc2) blast
  show ?case
  proof (cases "last_term ls (-1) :: 'c check_error + int")
    case (Inl e)
    then obtain i j t where "leads v i t" "leads v j t" "i \<noteq> j" using round(2) by blast
    then have "\<not> leader_of v l" "\<exists>i t. leads v i t" unfolding leader_of_def by blast+
    moreover have "(leader_rounds (v # vs) :: 'c check_error + nat) = Inl e" using Inl by (simp add: ls_def [symmetric])
    ultimately show ?thesis unfolding shift by (simp del: leader_rounds.simps)
  next
    case (Inr t)
    show ?thesis
    proof (cases "ls = []")
      case True
      then have "\<forall>i t. \<not> leads v i t" using round(1) by simp
      moreover have "(leader_rounds (v # vs) :: 'c check_error + nat) = leader_rounds vs" using Inr True by (simp add: ls_def [symmetric])
      moreover have "\<not> leader_of v l" using calculation(1) by (simp add: leader_of_def)
      ultimately show ?thesis using Cons.IH Cons.prems unfolding shift by (simp del: leader_rounds.simps)
    next
      case False
      then obtain l' where l': "map_of ls t = Some [l']" "leader_of v l'" using round(3) [OF Inr] by blast
      have "(leader_rounds (v # vs) :: 'c check_error + nat) = Inr l'" using Inr False l'(1) by (simp add: ls_def [symmetric])
      moreover have "\<not> (\<forall>i t. \<not> leads v i t)" using False round(1) by simp
      ultimately show ?thesis using l'(2) leader_of_unique [OF l'(2), of l] unfolding shift
        by (auto simp del: leader_rounds.simps)
    qed
  qed
qed simp

text \<open>C27. \<open>checkOneLeader\<close> returns server \<open>l\<close> exactly if, in the first of at most ten rounds in which
  a connected server leads at all, no term has two leaders and \<open>l\<close> leads in the highest term.\<close>

theorem checkOneLeader_exact:
  assumes "\<forall>v \<in> set polls. \<forall>(c, t, b) \<in> set v. 0 \<le> t"
  shows "checkOneLeader polls = Inr l \<longleftrightarrow>
    (\<exists>k < length polls. k < 10 \<and> leader_of (polls ! k) l \<and> (\<forall>j < k. \<forall>i t. \<not> leads (polls ! j) i t))"
proof -
  have ten: "\<forall>v \<in> set (take 10 polls). \<forall>(c, t, b) \<in> set v. 0 \<le> t" using assms by (meson in_set_takeD)
  show ?thesis unfolding checkOneLeader_def leader_rounds_ok [OF ten] by (rule ex_cong1) auto
qed

theorem checkOneLeader_exact_witness:
  "checkOneLeader [[(True, 1, False), (True, 1, False)], [(True, 2, True), (True, 3, True), (False, 3, True)]] = Inr 1"
proof -
  let ?p = "[[(True, 1, False), (True, 1, False)], [(True, 2, True), (True, 3, True), (False, 3, True)]] :: view list"
  have leads1: "leads (?p ! 1) i t \<longleftrightarrow> i = 0 \<and> t = 2 \<or> i = 1 \<and> t = 3" for i t
    by (auto simp: leads_def nth_Cons' split: if_splits)
  have leads0: "\<not> leads (?p ! 0) i t" for i t by (auto simp: leads_def nth_Cons' split: if_splits)
  have "leader_of (?p ! 1) 1" using leads1 by (auto simp: leader_of_def)
  then have "\<exists>k < length ?p. k < 10 \<and> leader_of (?p ! k) 1 \<and> (\<forall>j < k. \<forall>i t. \<not> leads (?p ! j) i t)"
    using leads0 by (intro exI [of _ 1]) simp
  moreover have "\<forall>v \<in> set ?p. \<forall>(c, t, b) \<in> set v. 0 \<le> t" by simp
  ultimately show ?thesis using checkOneLeader_exact [of ?p 1] by simp
qed

end
