(* ===== verification/Rsm_Tester.thy ===== *)
theory Rsm_Tester
  imports Server_Groups Kv_Model
begin

section \<open>The replicated counter of the RSM tests (kvraft1/rsm)\<close>

text \<open>
  The tests of the replicated state machine run a counter on three servers: \<open>rsmSrv\<close> of
  \<^verbatim>\<open>kvraft1/rsm/server.go\<close> is the state machine, and \<^verbatim>\<open>kvraft1/rsm/test.go\<close> submits operations
  to the servers until one of them accepts. Raft and \<open>Submit\<close> are to be written by students: the
  Raft peer is a type parameter, what \<open>Submit\<close> answers is an argument. The replicated log is a
  list; replicas execute it in order, each at its own pace, and may restart from snapshots. The
  counter is a Go \<^verbatim>\<open>int\<close>, of 64 bits. The encoding of \<^verbatim>\<open>labgob\<close> is a pair of functions.
\<close>

subsection \<open>The state machine\<close>

text \<open>The types of requests that are registered; \<open>Other\<close> is any other type.\<close>

datatype 'a req = Inc | Null | Dec | Other 'a
datatype rep = IncRep goint | NullRep
datatype rsm_error = WrongRequest | NoCounter nat | NilRSM

record 'rf RSM =
  r_me :: nat
  r_rf :: "'rf option"
  r_maxraftstate :: int

record 'rf rsmSrv =
  s_me :: nat
  s_rsm :: "'rf RSM option"
  counter :: goint

definition MakeRSM :: "bool \<Rightarrow> (ename list \<Rightarrow> nat \<Rightarrow> nat option \<Rightarrow> 'rf) \<Rightarrow> ename list \<Rightarrow> nat \<Rightarrow> nat option \<Rightarrow> int \<Rightarrow> 'rf RSM" where
  "MakeRSM useRaftStateMachine raft_Make peers me persister maxraftstate =
     (let rsm = \<lparr>r_me = me, r_rf = None, r_maxraftstate = maxraftstate\<rparr>
      in if \<not> useRaftStateMachine then rsm\<lparr>r_rf := Some (raft_Make peers me persister)\<rparr> else rsm)"

definition makeRsmSrv :: "bool \<Rightarrow> (ename list \<Rightarrow> nat \<Rightarrow> nat option \<Rightarrow> 'rf) \<Rightarrow> int \<Rightarrow> nat \<Rightarrow> ename list \<Rightarrow> nat option \<Rightarrow> 'rf rsmSrv" where
  "makeRsmSrv useRaftStateMachine raft_Make maxraftstate srv peers persister =
     \<lparr>s_me = srv, s_rsm = Some (MakeRSM useRaftStateMachine raft_Make peers srv persister maxraftstate), counter = 0\<rparr>"

definition DoOp :: "'a req \<Rightarrow> 'rf rsmSrv \<Rightarrow> rsm_error + rep \<times> 'rf rsmSrv" where
  "DoOp req rs = (case req of
      Inc \<Rightarrow> (let rs' = rs\<lparr>counter := counter rs + 1\<rparr> in Inr (IncRep (counter rs'), rs'))
    | Null \<Rightarrow> Inr (NullRep, rs)
    | _ \<Rightarrow> Inl WrongRequest)"

definition rsm_Snapshot :: "(goint \<Rightarrow> bytes) \<Rightarrow> 'rf rsmSrv \<Rightarrow> bytes" where
  "rsm_Snapshot enc rs = enc (counter rs)"

definition Restore :: "(bytes \<Rightarrow> goint option) \<Rightarrow> bytes \<Rightarrow> 'rf rsmSrv \<Rightarrow> rsm_error + 'rf rsmSrv" where
  "Restore dec data rs = (case dec data of
      None \<Rightarrow> Inl (NoCounter (s_me rs))
    | Some n \<Rightarrow> Inr (rs\<lparr>counter := n\<rparr>))"

definition rsm_Kill :: "'rf rsmSrv \<Rightarrow> 'rf rsmSrv" where
  "rsm_Kill rs = rs\<lparr>s_rsm := None\<rparr>"

definition rsm_Raft :: "'rf rsmSrv \<Rightarrow> rsm_error + 'rf option" where
  "rsm_Raft rs = (case s_rsm rs of None \<Rightarrow> Inl NilRSM | Some r \<Rightarrow> Inr (r_rf r))"

subsection \<open>Submitting an operation\<close>

text \<open>A nil partition means all servers.\<close>

definition inPartition :: "int \<Rightarrow> int list option \<Rightarrow> bool" where
  "inPartition s p = (case p of None \<Rightarrow> True | Some is \<Rightarrow> List.member is s)"

text \<open>What a round of the loop meets: the group, the servers, and the answer each would give.\<close>

record ('svc, 'rf, 'r) round =
  grp :: "'svc ServerGrp"
  machines :: "'rf rsmSrv list"
  Submit :: "int \<Rightarrow> Err \<times> 'r"

text \<open>The inner loop: \<open>k\<close> servers are left to try, the next one is \<open>index\<close>.\<close>

fun try_servers :: "('svc, 'rf, 'r) round \<Rightarrow> int list option \<Rightarrow> nat \<Rightarrow> int \<Rightarrow> grp_error + ('r \<times> int) option" where
  "try_servers rd p 0 index = Inr None"
| "try_servers rd p (Suc k) index =
     andthen (IsConnected (grp rd) index) (\<lambda>c.
       if c then
         andthen (at (machines rd) index) (\<lambda>s.
           if s_rsm s \<noteq> None \<and> inPartition index p then
             (case Submit rd index of (err, r) \<Rightarrow>
               if err = OK then Inr (Some (r, index))
               else try_servers rd p k ((index + 1) mod int (length (machines rd))))
           else try_servers rd p k ((index + 1) mod int (length (machines rd))))
       else try_servers rd p k ((index + 1) mod int (length (machines rd))))"

text \<open>The rounds that fit into the ten seconds. The result is the reply, nil if there is none, and
  the leader that the test remembers.\<close>

fun onePartition :: "int list option \<Rightarrow> ('svc, 'rf, 'r) round list \<Rightarrow> int \<Rightarrow> grp_error + 'r option \<times> int" where
  "onePartition p [] leader = Inr (None, leader)"
| "onePartition p (rd # rds) leader =
     andthen (try_servers rd p (length (machines rd)) leader) (\<lambda>res.
       case res of Some (r, index) \<Rightarrow> Inr (Some r, index) | None \<Rightarrow> onePartition p rds leader)"

text \<open>One operation on any server. A reply of another type than the one asked for panics.\<close>

datatype cast_error = GroupError grp_error | WrongReply

definition oneInc :: "('svc, 'rf, rep) round list \<Rightarrow> int \<Rightarrow> cast_error + goint option \<times> int" where
  "oneInc rds leader = (case onePartition None rds leader of
      Inl e \<Rightarrow> Inl (GroupError e)
    | Inr (None, l) \<Rightarrow> Inr (None, l)
    | Inr (Some (IncRep n), l) \<Rightarrow> Inr (Some n, l)
    | Inr (Some NullRep, l) \<Rightarrow> Inl WrongReply)"

definition oneNull :: "('svc, 'rf, rep) round list \<Rightarrow> int \<Rightarrow> cast_error + unit option \<times> int" where
  "oneNull rds leader = (case onePartition None rds leader of
      Inl e \<Rightarrow> Inl (GroupError e)
    | Inr (None, l) \<Rightarrow> Inr (None, l)
    | Inr (Some NullRep, l) \<Rightarrow> Inr (Some (), l)
    | Inr (Some (IncRep n), l) \<Rightarrow> Inl WrongReply)"

text \<open>Making the server at an index of the test's table; it is registered by its Raft peer alone.\<close>

definition rsm_mksrv ::
  "bool \<Rightarrow> (ename list \<Rightarrow> nat \<Rightarrow> nat option \<Rightarrow> 'rf) \<Rightarrow> int \<Rightarrow> ename list \<Rightarrow> nat \<Rightarrow> nat option \<Rightarrow>
   'rf rsmSrv option list \<Rightarrow> (rsm_error + 'rf option list) \<times> 'rf rsmSrv option list" where
  "rsm_mksrv useRaftStateMachine raft_Make maxraftstate es srv persister tsrvs =
     (let s = makeRsmSrv useRaftStateMachine raft_Make maxraftstate srv es persister
      in (map_sum (\<lambda>e. e) (\<lambda>rf. [rf]) (rsm_Raft s), tsrvs[srv := Some s]))"

subsection \<open>Checks\<close>

definition countValue :: "goint \<Rightarrow> 'rf rsmSrv list \<Rightarrow> nat" where
  "countValue v rss = length (filter (\<lambda>s. counter s = v) rss)"

text \<open>The polls are the servers as each iteration sees them. A failure says how many servers had the
  value at last.\<close>

fun counter_rounds :: "goint \<Rightarrow> nat \<Rightarrow> 'rf rsmSrv list list \<Rightarrow> nat \<Rightarrow> nat + unit" where
  "counter_rounds v nsrv [] n = Inl n"
| "counter_rounds v nsrv (rss # polls) n =
     (let n' = countValue v rss in if n' \<ge> nsrv then Inr () else counter_rounds v nsrv polls n')"

definition checkCounter :: "goint \<Rightarrow> nat \<Rightarrow> 'rf rsmSrv list list \<Rightarrow> nat + unit" where
  "checkCounter v nsrv polls = counter_rounds v nsrv (take 30 polls) 0"

definition disconnectLeader :: "int \<Rightarrow> 'svc gn \<Rightarrow> grp_error + 'svc gn \<times> int" where
  "disconnectLeader leader g = andthen (DisconnectAll leader g) (\<lambda>g'. Inr (g', leader))"

definition rsm_connect :: "int \<Rightarrow> 'svc gn \<Rightarrow> grp_error + 'svc gn" where
  "rsm_connect i g = ConnectOne i g"

text \<open>\<open>isRaft\<close> is \<open>None\<close> for a service that is not a Raft peer, otherwise whether it leads.\<close>

fun Leader :: "('s \<Rightarrow> bool option) \<Rightarrow> (nat \<times> 's list) list \<Rightarrow> bool \<times> nat" where
  "Leader isRaft [] = (False, 0)"
| "Leader isRaft ((i, ss) # iss) =
     (if list_ex (\<lambda>s. isRaft s = Some True) ss then (True, i) else Leader isRaft iss)"

subsection \<open>Replicas\<close>

text \<open>The number of increments among the first \<open>n\<close> operations of the log.\<close>

definition incs :: "'a req list \<Rightarrow> nat \<Rightarrow> nat" where
  "incs L n = length (filter (\<lambda>r. r = Inc) (take n L))"

text \<open>Replicas of a log \<open>L\<close>: each has executed a prefix. A replica executes the next operation, hands
  over a snapshot, or is started again with \<open>fresh\<close> state, from nothing or from a snapshot that any
  replica made; a running replica that lags behind may also be given a snapshot.\<close>

inductive rsm_run ::
  "'a req list \<Rightarrow> (goint \<Rightarrow> bytes) \<Rightarrow> (bytes \<Rightarrow> goint option) \<Rightarrow> (nat \<Rightarrow> 'rf rsmSrv \<times> nat) \<Rightarrow> (nat \<times> bytes) list \<Rightarrow> bool"
  for L enc dec where
  start: "rsm_run L enc dec (\<lambda>i. (makeRsmSrv other mk mrs i (es i) (ps i), 0)) []"
| execute: "rsm_run L enc dec R S \<Longrightarrow> R i = (s, n) \<Longrightarrow> n < length L \<Longrightarrow> DoOp (L ! n) s = Inr (r, s') \<Longrightarrow>
    rsm_run L enc dec (R(i := (s', Suc n))) S"
| take_snapshot: "rsm_run L enc dec R S \<Longrightarrow> R i = (s, n) \<Longrightarrow> rsm_run L enc dec R ((n, rsm_Snapshot enc s) # S)"
| install: "rsm_run L enc dec R S \<Longrightarrow> R i = (s, m) \<Longrightarrow> (n, d) \<in> set S \<Longrightarrow> Restore dec d s = Inr s' \<Longrightarrow>
    rsm_run L enc dec (R(i := (s', n))) S"
| restart: "rsm_run L enc dec R S \<Longrightarrow>
    rsm_run L enc dec (R(i := (makeRsmSrv other mk mrs i e p, 0))) S"

lemma incs_Suc: "n < length L \<Longrightarrow> incs L (Suc n) = incs L n + (if L ! n = Inc then 1 else 0)"
  by (simp add: incs_def take_Suc_conv_app_nth)

lemma rsm_run_ok:
  assumes "rsm_run L enc dec R S" and "\<forall>x. dec (enc x) = Some x"
  shows "(\<forall>i s n. R i = (s, n) \<longrightarrow> n \<le> length L \<and> counter s = of_nat (incs L n)) \<and>
    (\<forall>(n, d) \<in> set S. n \<le> length L \<and> d = enc (of_nat (incs L n)))"
  using assms(1)
proof (induction rule: rsm_run.induct)
  case (execute R S i s n r s')
  then have s: "counter s = of_nat (incs L n)" by blast
  have "counter s' = of_nat (incs L (Suc n))"
    using execute.hyps(3,4) s by (auto simp: DoOp_def incs_Suc split: req.splits)
  with execute show ?case by (auto simp: Suc_le_eq)
next
  case (install R S i s m n d s')
  then have "n \<le> length L" "d = enc (of_nat (incs L n))" by auto
  with install.hyps(4) assms(2) have "n \<le> length L" "counter s' = of_nat (incs L n)" by (auto simp: Restore_def)
  with install.IH show ?case by auto
qed (auto simp: makeRsmSrv_def incs_def rsm_Snapshot_def)

text \<open>C12. Replicas agree, crashes and snapshots included: whichever replica executes the \<open>n\<close>-th
  operation of the log, and however often it was restarted or brought up to date before, the reply
  is the one of the specification: an increment is answered with the number of increments up to
  and including it (modulo \<open>2^64\<close>), so replicas that have executed the same prefix hold the same
  counter.\<close>

theorem replicas_agree:
  assumes "\<forall>x. dec (enc x) = Some x" and "rsm_run L enc dec R S" and "R i = (s, n)"
  shows "n \<le> length L \<and> counter s = of_nat (incs L n) \<and>
    (n < length L \<longrightarrow> map_sum id fst (DoOp (L ! n) s) =
       (case L ! n of Inc \<Rightarrow> Inr (IncRep (of_nat (incs L (Suc n)))) | Null \<Rightarrow> Inr NullRep | _ \<Rightarrow> Inl WrongRequest))"
proof -
  have s: "n \<le> length L" "counter s = of_nat (incs L n)" using rsm_run_ok [OF assms(2,1)] assms(3) by blast+
  then show ?thesis by (auto simp: DoOp_def incs_Suc split: req.split)
qed

subsection \<open>Finding the leader\<close>

text \<open>Server \<open>l\<close> accepts the operation in a round: it is connected, runs, is in the partition, and its
  \<open>Submit\<close> answers OK.\<close>

definition accepts_at :: "('svc, 'rf, 'r) round \<Rightarrow> int list option \<Rightarrow> int \<Rightarrow> bool" where
  "accepts_at rd p l \<longleftrightarrow> connected (grp rd) ! nat l \<and> s_rsm (machines rd ! nat l) \<noteq> None \<and> inPartition l p \<and>
     fst (Submit rd l) = OK"

definition wf_round :: "nat \<Rightarrow> ('svc, 'rf, 'r) round \<Rightarrow> bool" where
  "wf_round n rd \<longleftrightarrow> length (machines rd) = n \<and> length (connected (grp rd)) = n"

lemma try_servers_exact:
  assumes "wf_round n rd" and "0 \<le> index" and "index < int n"
  shows "\<exists>res. try_servers rd p k index = Inr res \<and>
    (case res of
       None \<Rightarrow> \<forall>d < k. \<not> accepts_at rd p ((index + int d) mod int n)
     | Some (r, l) \<Rightarrow> \<exists>d < k. l = (index + int d) mod int n \<and> accepts_at rd p l \<and> r = snd (Submit rd l) \<and>
         (\<forall>d' < d. \<not> accepts_at rd p ((index + int d') mod int n)))"
  using assms(2,3)
proof (induction k arbitrary: index)
  case (Suc k)
  let ?next = "(index + 1) mod int n"
  have here: "index mod int n = index" using Suc.prems by simp
  have shift: "(?next + int d) mod int n = (index + int (Suc d)) mod int n" for d
    unfolding mod_add_left_eq by (simp add: algebra_simps)
  have next_ok: "0 \<le> ?next" "?next < int n" using Suc.prems by simp_all
  have step: "try_servers rd p (Suc k) index =
      (if accepts_at rd p index then Inr (Some (snd (Submit rd index), index)) else try_servers rd p k ?next)"
    using assms(1) Suc.prems
    by (auto simp: wf_round_def IsConnected_def at_def in_range_def andthen_def accepts_at_def split: prod.split)
  show ?case
  proof (cases "accepts_at rd p index")
    case True
    with step here show ?thesis by (auto intro!: exI [of _ 0])
  next
    case False
    from Suc.IH [OF next_ok] obtain res where res: "try_servers rd p k ?next = Inr res"
      "case res of None \<Rightarrow> \<forall>d < k. \<not> accepts_at rd p ((?next + int d) mod int n)
        | Some (r, l) \<Rightarrow> \<exists>d < k. l = (?next + int d) mod int n \<and> accepts_at rd p l \<and> r = snd (Submit rd l) \<and>
            (\<forall>d' < d. \<not> accepts_at rd p ((?next + int d') mod int n))" by blast
    show ?thesis
    proof (cases res)
      case None
      have "\<not> accepts_at rd p ((index + int d) mod int n)" if "d < Suc k" for d
        using that None res(2) False here by (cases d) (simp_all add: shift)
      with step False res(1) None show ?thesis by simp
    next
      case (Some rl)
      obtain r l where rl: "rl = (r, l)" by force
      with Some res(2) obtain d where d: "d < k" "l = (index + int (Suc d)) mod int n" "accepts_at rd p l"
        "r = snd (Submit rd l)" "\<forall>d' < d. \<not> accepts_at rd p ((index + int (Suc d')) mod int n)"
        unfolding shift by auto
      have "\<not> accepts_at rd p ((index + int d') mod int n)" if "d' < Suc d" for d'
        using that d(5) False here by (cases d') simp_all
      with step False res(1) Some rl d(1-4) show ?thesis by (intro exI [of _ res]) (auto intro!: exI [of _ "Suc d"])
    qed
  qed
qed simp

text \<open>Going round from any server reaches every server.\<close>

lemma round_robin:
  assumes "0 \<le> l" and "l < int n" and "0 \<le> index" and "index < int n"
  shows "\<exists>d < n. l = (index + int d) mod int n"
proof -
  let ?d = "nat ((l - index) mod int n)"
  have d: "int ?d = (l - index) mod int n" using assms by simp
  have "(index + int ?d) mod int n = l" unfolding d mod_add_right_eq using assms(1,2) by simp
  moreover have "?d < n" using assms by (simp add: nat_less_iff)
  ultimately show ?thesis by metis
qed

definition silent :: "nat \<Rightarrow> int list option \<Rightarrow> ('svc, 'rf, 'r) round \<Rightarrow> bool" where
  "silent n p rd \<longleftrightarrow> (\<forall>l. 0 \<le> l \<and> l < int n \<longrightarrow> \<not> accepts_at rd p l)"

text \<open>The first server, going round from \<open>leader\<close>, that accepts.\<close>

definition first_from :: "nat \<Rightarrow> int list option \<Rightarrow> ('svc, 'rf, 'r) round \<Rightarrow> int \<Rightarrow> int \<Rightarrow> bool" where
  "first_from n p rd leader l \<longleftrightarrow> (\<exists>d < n. l = (leader + int d) mod int n \<and> accepts_at rd p l \<and>
     (\<forall>d' < d. \<not> accepts_at rd p ((leader + int d') mod int n)))"

text \<open>C38. Submitting to an unknown leader: \<open>onePartition\<close> gives up, with no reply and the remembered
  leader unchanged, exactly if in no round a server of the partition that is connected and running
  accepts the operation. Otherwise it returns the reply of the first such server in the first such
  round, going round from the remembered leader, and remembers that server.\<close>

theorem onePartition_exact:
  assumes "\<forall>rd \<in> set rds. wf_round n rd" and "0 \<le> leader" and "leader < int n"
  shows "\<exists>res l. onePartition p rds leader = Inr (res, l) \<and>
    (case res of
       None \<Rightarrow> l = leader \<and> (\<forall>rd \<in> set rds. silent n p rd)
     | Some r \<Rightarrow> \<exists>k < length rds. (\<forall>j < k. silent n p (rds ! j)) \<and>
         first_from n p (rds ! k) leader l \<and> r = snd (Submit (rds ! k) l))"
  using assms(1)
proof (induction rds)
  case (Cons rd rds)
  then have wf: "wf_round n rd" "length (machines rd) = n" by (simp_all add: wf_round_def)
  obtain res where res: "try_servers rd p n leader = Inr res"
    "case res of None \<Rightarrow> \<forall>d < n. \<not> accepts_at rd p ((leader + int d) mod int n)
      | Some (r, l) \<Rightarrow> \<exists>d < n. l = (leader + int d) mod int n \<and> accepts_at rd p l \<and> r = snd (Submit rd l) \<and>
          (\<forall>d' < d. \<not> accepts_at rd p ((leader + int d') mod int n))"
    using try_servers_exact [OF wf(1) assms(2,3)] by blast
  show ?case
  proof (cases res)
    case None
    have quiet: "silent n p rd" using None res(2) round_robin [OF _ _ assms(2,3)] unfolding silent_def by fastforce
    obtain res' l where r: "onePartition p rds leader = Inr (res', l)"
      "case res' of None \<Rightarrow> l = leader \<and> (\<forall>rd \<in> set rds. silent n p rd)
        | Some r \<Rightarrow> \<exists>k < length rds. (\<forall>j < k. silent n p (rds ! j)) \<and>
            first_from n p (rds ! k) leader l \<and> r = snd (Submit (rds ! k) l)"
      using Cons by auto
    have "onePartition p (rd # rds) leader = Inr (res', l)" using wf(2) res(1) None r(1) by (simp add: andthen_def)
    moreover have "\<exists>k < length (rd # rds). (\<forall>j < k. silent n p ((rd # rds) ! j)) \<and>
        first_from n p ((rd # rds) ! k) leader l \<and> x = snd (Submit ((rd # rds) ! k) l)" if x: "res' = Some x" for x
    proof -
      from x r(2) obtain k where "k < length rds" "\<forall>j < k. silent n p (rds ! j)"
        "first_from n p (rds ! k) leader l" "x = snd (Submit (rds ! k) l)" by auto
      then show ?thesis using quiet by (intro exI [of _ "Suc k"]) (auto simp: nth_Cons split: nat.split)
    qed
    ultimately show ?thesis using r(2) quiet by (intro exI [of _ res'] exI [of _ l]) (auto split: option.splits)
  next
    case (Some rl)
    obtain r l where rl: "rl = (r, l)" by force
    with Some res(2) have "first_from n p rd leader l" "r = snd (Submit rd l)" by (auto simp: first_from_def)
    then show ?thesis using wf(2) res(1) Some rl
      by (intro exI [of _ "Some r"] exI [of _ l]) (auto simp: andthen_def intro!: exI [of _ 0])
  qed
qed simp

text \<open>Three servers: server 1 answers that it does not lead, server 2 is cut off in the first round.\<close>

definition demo_srv :: "unit rsmSrv" where
  "demo_srv = makeRsmSrv False (\<lambda>_ _ _. ()) (-1) 0 [] None"

definition demo_round :: "bool \<Rightarrow> (unit, unit, string) round" where
  "demo_round c = \<lparr>grp = \<lparr>srvs = [], servernames = [], gid = 0, connected = [True, True, c]\<rparr>,
     machines = [rsm_Kill demo_srv, demo_srv, demo_srv],
     Submit = (\<lambda>i. if i = 2 then (OK, ''two'') else (ErrWrongLeader, ''''))\<rparr>"

theorem onePartition_exact_witness:
  "onePartition None [demo_round False, demo_round True] 1 = Inr (Some ''two'', 2)"
proof -
  have wf: "\<forall>rd \<in> set [demo_round False, demo_round True]. wf_round 3 rd" by (simp add: wf_round_def demo_round_def)
  obtain res l where r: "onePartition None [demo_round False, demo_round True] 1 = Inr (res, l)"
    "case res of
       None \<Rightarrow> l = 1 \<and> (\<forall>rd \<in> set [demo_round False, demo_round True]. silent 3 None rd)
     | Some r \<Rightarrow> \<exists>k < length [demo_round False, demo_round True]. (\<forall>j < k. silent 3 None ([demo_round False, demo_round True] ! j)) \<and>
         first_from 3 None ([demo_round False, demo_round True] ! k) 1 l \<and> r = snd (Submit ([demo_round False, demo_round True] ! k) l)"
    using onePartition_exact [OF wf, of 1 None] by auto
  have two: "accepts_at (demo_round True) None 2"
    by (simp add: accepts_at_def demo_round_def demo_srv_def makeRsmSrv_def inPartition_def numeral_2_eq_2)
  have only: "accepts_at (demo_round c) None i \<Longrightarrow> i = 2" for c i
    by (auto simp: accepts_at_def demo_round_def OK_def ErrWrongLeader_def split: if_splits)
  have "\<not> silent 3 None (demo_round True)" using two by (auto simp: silent_def intro!: exI [of _ 2])
  then have "res \<noteq> None" using r(2) by (cases res) auto
  then obtain x where x: "res = Some x" by blast
  with r(2) obtain k where k: "first_from 3 None ([demo_round False, demo_round True] ! k) 1 l" "k < 2"
    "x = snd (Submit ([demo_round False, demo_round True] ! k) l)" by auto
  have "l = 2" using k(1,2) only by (auto simp: first_from_def less_Suc_eq numeral_2_eq_2)
  moreover have "x = ''two''" using k(2,3) \<open>l = 2\<close> by (auto simp: demo_round_def less_Suc_eq numeral_2_eq_2)
  ultimately show ?thesis using r(1) x by simp
qed

text \<open>A replica that is started from another one's snapshot after one increment answers the second.\<close>

definition unary :: "goint \<Rightarrow> bytes" where
  "unary x = replicate (unat x) 0"

definition un_unary :: "bytes \<Rightarrow> goint option" where
  "un_unary b = Some (of_nat (length b))"

theorem replicas_agree_witness:
  "\<exists>R S s. rsm_run [Inc, Inc :: unit req] unary un_unary (R :: nat \<Rightarrow> unit rsmSrv \<times> nat) S \<and> R 1 = (s, 1) \<and>
     map_sum id fst (DoOp (Inc :: unit req) s) = Inr (IncRep 2)"
proof -
  let ?L = "[Inc, Inc :: unit req]"
  define f where "f = (\<lambda>i. makeRsmSrv False (\<lambda>_ _ _. ()) (-1) i [] None)"
  define R0 where "R0 = (\<lambda>i. (f i, 0 :: nat))"
  define s1 where "s1 = (f 0)\<lparr>counter := 1\<rparr>"
  define R1 where "R1 = R0(0 := (s1, Suc 0))"
  define s2 where "s2 = (f 1)\<lparr>counter := 1\<rparr>"
  have dec: "\<forall>x. un_unary (unary x) = Some x" by (simp add: unary_def un_unary_def)
  have "rsm_run ?L unary un_unary R0 []" unfolding R0_def f_def by (rule rsm_run.start)
  then have "rsm_run ?L unary un_unary R1 []" unfolding R1_def
    by (rule rsm_run.execute [where s = "f 0" and r = "IncRep 1"])
      (simp_all add: R0_def DoOp_def s1_def f_def makeRsmSrv_def)
  then have "rsm_run ?L unary un_unary R1 [(Suc 0, rsm_Snapshot unary s1)]"
    by (rule rsm_run.take_snapshot [where i = 0]) (simp add: R1_def)
  then have "rsm_run ?L unary un_unary (R1(1 := (s2, Suc 0))) [(Suc 0, rsm_Snapshot unary s1)]"
    by (rule rsm_run.install [where s = "f 1" and m = 0 and d = "rsm_Snapshot unary s1"])
      (simp_all add: R1_def R0_def Restore_def rsm_Snapshot_def dec s1_def s2_def)
  from replicas_agree [OF dec this, of 1 s2 "Suc 0"] this show ?thesis
    by (intro exI [of _ "R1(1 := (s2, Suc 0))"] exI [of _ "[(Suc 0, rsm_Snapshot unary s1)]"] exI [of _ s2])
      (simp add: incs_def)
qed

end
