(* ===== verification/Map_Reduce.thy ===== *)
theory Map_Reduce
  imports Prelude "HOL-Library.Char_ord" "HOL-Library.List_Lexorder"
begin

section \<open>Sequential MapReduce and its applications (main/mrsequential.go, mr, mrapps)\<close>

text \<open>
  The sequential driver reads the input files, runs the application's Map on each, sorts the
  pairs by key, and runs Reduce on each run of equal keys. The plugin's two functions are
  arguments, as are the file system (\<open>read\<close>, where \<open>None\<close> is a file that cannot be read) and
  \<open>sort.Sort\<close>, of which only the documented contract is used: it permutes the slice and orders the
  keys; it need not be stable. Go compares strings byte by byte, which is the order of
  \<^typ>\<open>string\<close> here. \<open>unicode.IsLetter\<close> is an argument.
\<close>

record KeyValue =
  Key :: string
  Value :: string

abbreviation KV :: "string \<Rightarrow> string \<Rightarrow> KeyValue" where
  "KV k v \<equiv> \<lparr>Key = k, Value = v\<rparr>"

text \<open>The choice of a reduce task: the hash with its sign bit cleared.\<close>

definition ihash :: "string \<Rightarrow> int" where
  "ihash key = uint (fnv32a key AND 0x7fffffff)"

text \<open>The methods of \<open>ByKey\<close>, through which \<open>sort.Sort\<close> works; an index out of range panics.\<close>

definition ByKey_Len :: "KeyValue list \<Rightarrow> nat" where
  "ByKey_Len a = length a"

definition ByKey_Swap :: "nat \<Rightarrow> nat \<Rightarrow> KeyValue list \<Rightarrow> KeyValue list option" where
  "ByKey_Swap i j a = (if i < length a \<and> j < length a then Some (a[i := a ! j, j := a ! i]) else None)"

definition ByKey_Less :: "nat \<Rightarrow> nat \<Rightarrow> KeyValue list \<Rightarrow> bool option" where
  "ByKey_Less i j a = (if i < length a \<and> j < length a then Some (Key (a ! i) < Key (a ! j)) else None)"

text \<open>What the sort relies on: swaps permute, and a slice is sorted by \<open>Less\<close> exactly if its keys are in
  order.\<close>

lemma ByKey_Swap_mset:
  assumes "ByKey_Swap i j a = Some a'"
  shows "mset a' = mset a"
  using assms mset_swap [of j a i] by (auto simp: ByKey_Swap_def split: if_splits)

lemma ByKey_sorted: "(\<forall>i. Suc i < ByKey_Len a \<longrightarrow> ByKey_Less (Suc i) i a = Some False) \<longleftrightarrow> sorted (map Key a)"
  by (auto simp: ByKey_Len_def ByKey_Less_def sorted_iff_nth_Suc not_less)

subsection \<open>The driver\<close>

datatype mr_error = Usage | CannotRead string

text \<open>The first loop of \<open>main\<close>.\<close>

fun map_files :: "(string \<Rightarrow> string option) \<Rightarrow> (string \<Rightarrow> string \<Rightarrow> KeyValue list) \<Rightarrow> string list \<Rightarrow>
    KeyValue list \<Rightarrow> mr_error + KeyValue list" where
  "map_files read mapf [] intermediate = Inr intermediate"
| "map_files read mapf (filename # fs) intermediate = (case read filename of
      None \<Rightarrow> Inl (CannotRead filename)
    | Some content \<Rightarrow> map_files read mapf fs (intermediate @ mapf filename content))"

text \<open>The inner loop: the end of the run of equal keys that starts at \<open>i\<close>.\<close>

function run_end :: "KeyValue list \<Rightarrow> nat \<Rightarrow> nat \<Rightarrow> nat" where
  "run_end xs i j = (if j < length xs \<and> Key (xs ! j) = Key (xs ! i) then run_end xs i (j + 1) else j)"
  by pat_completeness auto
termination by (relation "measure (\<lambda>(xs, i, j). length xs - j)") auto

declare run_end.simps [simp del]

lemma run_end_ge: "j \<le> run_end xs i j"
  by (induction xs i j rule: run_end.induct) (subst run_end.simps, auto)

function reduce_loop :: "(string \<Rightarrow> string list \<Rightarrow> string) \<Rightarrow> KeyValue list \<Rightarrow> nat \<Rightarrow> string" where
  "reduce_loop reducef xs i =
     (if i < length xs then
        (let j = run_end xs i (i + 1);
             values = map (\<lambda>k. Value (xs ! k)) [i..<j];
             output = reducef (Key (xs ! i)) values
         in Key (xs ! i) @ '' '' @ output @ [CHR 0x0A] @ reduce_loop reducef xs j)
      else [])"
  by pat_completeness auto
termination
proof (relation "measure (\<lambda>(r, xs, i). length xs - i)")
  fix reducef :: "string \<Rightarrow> string list \<Rightarrow> string" and xs i and j :: nat and "values" "output"
  assume "i < length xs" "j = run_end xs i (i + 1)"
  with run_end_ge [of "i + 1" xs i] show "((reducef, xs, j), reducef, xs, i) \<in> measure (\<lambda>(r, xs, i). length xs - i)"
    by auto
qed simp

declare reduce_loop.simps [simp del]

text \<open>What \<open>main\<close> writes to \<open>mr-out-0\<close>. \<open>srt\<close> is \<open>sort.Sort(ByKey(...))\<close>; the plugin is loaded from
  the first argument.\<close>

definition main ::
  "(string \<Rightarrow> string option) \<Rightarrow> (KeyValue list \<Rightarrow> KeyValue list) \<Rightarrow> (string \<Rightarrow> string \<Rightarrow> KeyValue list) \<Rightarrow>
   (string \<Rightarrow> string list \<Rightarrow> string) \<Rightarrow> string list \<Rightarrow> mr_error + string" where
  "main read srt mapf reducef args =
     (if length args < 3 then Inl Usage
      else case map_files read mapf (drop 2 args) [] of
        Inl e \<Rightarrow> Inl e
      | Inr intermediate \<Rightarrow> Inr (reduce_loop reducef (srt intermediate) 0))"

subsection \<open>strings.FieldsFunc, strings.Join, sort.Strings\<close>

lemma DecodeRune_progress: "s \<noteq> [] \<Longrightarrow> (r, w) = DecodeRune s \<Longrightarrow> length s - w < length s"
  using DecodeRune_width [of s] by (cases s) (auto simp: prod_eq_iff)

function runes :: "string \<Rightarrow> (nat \<times> string) list" where
  "runes s = (if s = [] then [] else (case DecodeRune s of (r, w) \<Rightarrow> (r, take w s) # runes (drop w s)))"
  by pat_completeness auto
termination by (relation "measure length") (auto simp: DecodeRune_progress)

declare runes.simps [simp del]

text \<open>The fields that are cut out by the separators \<open>f\<close>; \<open>cur\<close> is the field being read.\<close>

fun fields :: "(nat \<Rightarrow> bool) \<Rightarrow> (nat \<times> string) list \<Rightarrow> string option \<Rightarrow> string list" where
  "fields f [] cur = (case cur of None \<Rightarrow> [] | Some w \<Rightarrow> [w])"
| "fields f ((r, b) # rs) cur =
     (if f r then (case cur of None \<Rightarrow> fields f rs None | Some w \<Rightarrow> w # fields f rs None)
      else fields f rs (Some ((case cur of None \<Rightarrow> [] | Some w \<Rightarrow> w) @ b)))"

definition FieldsFunc :: "string \<Rightarrow> (nat \<Rightarrow> bool) \<Rightarrow> string list" where
  "FieldsFunc s f = fields f (runes s) None"

fun JoinStrings :: "string list \<Rightarrow> string \<Rightarrow> string" where
  "JoinStrings [] sep = []"
| "JoinStrings [x] sep = x"
| "JoinStrings (x # y # xs) sep = x @ sep @ JoinStrings (y # xs) sep"

text \<open>Equal strings cannot be told apart, so \<open>sort.Strings\<close> is \<open>sort\<close>.\<close>

abbreviation Strings :: "string list \<Rightarrow> string list" where
  "Strings \<equiv> sort"

subsection \<open>Applications\<close>

text \<open>wc.go\<close>

definition wc_Map :: "(nat \<Rightarrow> bool) \<Rightarrow> string \<Rightarrow> string \<Rightarrow> KeyValue list" where
  "wc_Map IsLetter filename content =
     (let words = FieldsFunc content (\<lambda>r. \<not> IsLetter r) in map (\<lambda>w. KV w ''1'') words)"

definition wc_Reduce :: "string \<Rightarrow> string list \<Rightarrow> string" where
  "wc_Reduce key values = Itoa (int (length values))"

text \<open>indexer.go; \<open>visit\<close> is the order in which the loop over the map of words visits the words.\<close>

definition indexer_Map :: "(nat \<Rightarrow> bool) \<Rightarrow> (string list \<Rightarrow> string list) \<Rightarrow> string \<Rightarrow> string \<Rightarrow> KeyValue list" where
  "indexer_Map IsLetter visit document value =
     (let words = FieldsFunc value (\<lambda>r. \<not> IsLetter r) in map (\<lambda>w. KV w document) (visit (remdups words)))"

definition indexer_Reduce :: "string \<Rightarrow> string list \<Rightarrow> string" where
  "indexer_Reduce key values = Itoa (int (length values)) @ '' '' @ JoinStrings (Strings values) '',''"

text \<open>crash.go: with the random number \<open>rr\<close> below 1000 a task exits, is delayed, or goes on.\<close>

datatype fate = Exits | Delayed | GoesOn

definition maybeCrash :: "nat \<Rightarrow> fate" where
  "maybeCrash rr = (if rr < 330 then Exits else if rr < 660 then Delayed else GoesOn)"

text \<open>nocrash.go: the same, but the crash is switched off.\<close>

definition nocrash_maybeCrash :: "nat \<Rightarrow> fate" where
  "nocrash_maybeCrash rr = (if False \<and> rr < 500 then Exits else GoesOn)"

lemma nocrash_goes_on: "nocrash_maybeCrash rr = GoesOn"
  by (simp add: nocrash_maybeCrash_def)

definition nocrash_Map :: "string \<Rightarrow> string \<Rightarrow> KeyValue list" where
  "nocrash_Map filename content =
     [KV ''a'' filename, KV ''b'' (Itoa (int (length filename))), KV ''c'' (Itoa (int (length content))), KV ''d'' ''xyzzy'']"

definition nocrash_Reduce :: "string \<Rightarrow> string list \<Rightarrow> string" where
  "nocrash_Reduce key values = JoinStrings (Strings values) '' ''"

text \<open>\<open>None\<close>: the process has exited.\<close>

definition crash_Map :: "nat \<Rightarrow> string \<Rightarrow> string \<Rightarrow> KeyValue list option" where
  "crash_Map rr filename content =
     (if maybeCrash rr = Exits then None
      else Some [KV ''a'' filename, KV ''b'' (Itoa (int (length filename))),
                 KV ''c'' (Itoa (int (length content))), KV ''d'' ''xyzzy''])"

definition crash_Reduce :: "nat \<Rightarrow> string \<Rightarrow> string list \<Rightarrow> string option" where
  "crash_Reduce rr key values =
     (if maybeCrash rr = Exits then None else Some (JoinStrings (Strings values) '' ''))"

definition HasPrefix :: "string \<Rightarrow> string \<Rightarrow> bool" where
  "HasPrefix s prefix = (length prefix \<le> length s \<and> take (length prefix) s = prefix)"

fun Contains :: "string \<Rightarrow> string \<Rightarrow> bool" where
  "Contains [] sub = HasPrefix [] sub"
| "Contains (c # cs) sub = (HasPrefix (c # cs) sub \<or> Contains cs sub)"

text \<open>early_exit.go; Reduce also says for how many seconds it sleeps.\<close>

definition early_exit_Map :: "string \<Rightarrow> string \<Rightarrow> KeyValue list" where
  "early_exit_Map filename content = [KV filename ''1'']"

definition early_exit_Reduce :: "string \<Rightarrow> string list \<Rightarrow> nat \<times> string" where
  "early_exit_Reduce key values =
     (if Contains key ''sherlock'' \<or> Contains key ''tom'' then 3 else 0, Itoa (int (length values)))"

text \<open>The timing applications. \<open>scan\<close> is \<^verbatim>\<open>fmt.Sscanf\<close> with the pattern of the phase (the process
  number, if exactly one item was read), \<open>alive\<close> whether signal 0 reaches the process; \<open>names\<close> is
  the directory, the process's own file included. A file operation that fails panics
  (\<open>None\<close>).\<close>

definition worker_file :: "string \<Rightarrow> int \<Rightarrow> string" where
  "worker_file phase pid = ''mr-worker-'' @ phase @ ''-'' @ Itoa pid"

definition nparallel :: "(string \<Rightarrow> int option) \<Rightarrow> (int \<Rightarrow> bool) \<Rightarrow> bool \<Rightarrow> string list option \<Rightarrow> bool \<Rightarrow> nat option" where
  "nparallel scan alive written names removed =
     (if \<not> written then None
      else case names of
        None \<Rightarrow> None
      | Some ns \<Rightarrow>
          (let ret = foldl (\<lambda>ret name. case scan name of None \<Rightarrow> ret | Some xpid \<Rightarrow> if alive xpid then ret + 1 else ret) 0 ns
           in if removed then Some ret else None))"

text \<open>\<^verbatim>\<open>mtiming.go\<close> has its own copy of the function.\<close>

definition mtiming_nparallel :: "(string \<Rightarrow> int option) \<Rightarrow> (int \<Rightarrow> bool) \<Rightarrow> bool \<Rightarrow> string list option \<Rightarrow> bool \<Rightarrow> nat option" where
  "mtiming_nparallel scan alive written names removed =
     (if \<not> written then None
      else case names of
        None \<Rightarrow> None
      | Some ns \<Rightarrow>
          (let ret = foldl (\<lambda>ret name. case scan name of None \<Rightarrow> ret | Some xpid \<Rightarrow> if alive xpid then ret + 1 else ret) 0 ns
           in if removed then Some ret else None))"

definition rtiming_Map :: "string \<Rightarrow> string \<Rightarrow> KeyValue list" where
  "rtiming_Map filename content =
     [KV ''a'' ''1'', KV ''b'' ''1'', KV ''c'' ''1'', KV ''d'' ''1'', KV ''e'' ''1'',
      KV ''f'' ''1'', KV ''g'' ''1'', KV ''h'' ''1'', KV ''i'' ''1'', KV ''j'' ''1'']"

definition rtiming_Reduce :: "nat option \<Rightarrow> string \<Rightarrow> string list \<Rightarrow> string option" where
  "rtiming_Reduce n key values = map_option (\<lambda>n. Itoa (int n)) n"

text \<open>\<open>ts\<close> is the printed time.\<close>

definition mtiming_Map :: "int \<Rightarrow> string \<Rightarrow> nat option \<Rightarrow> string \<Rightarrow> string \<Rightarrow> KeyValue list option" where
  "mtiming_Map pid ts n filename content =
     map_option (\<lambda>n. [KV (''times-'' @ Itoa pid) ts, KV (''parallel-'' @ Itoa pid) (Itoa (int n))]) n"

definition mtiming_Reduce :: "string \<Rightarrow> string list \<Rightarrow> string" where
  "mtiming_Reduce key values = JoinStrings (Strings values) '' ''"

text \<open>jobcount.go: Map leaves a file in the directory, named after the process and its counter;
  Reduce counts these files.\<close>

definition jobcount_Map :: "int \<Rightarrow> string \<Rightarrow> string \<Rightarrow> int \<times> string list \<Rightarrow> KeyValue list \<times> int \<times> string list" where
  "jobcount_Map me filename content st = (case st of (n, dir) \<Rightarrow>
     (let f = ''mr-worker-jobcount-'' @ Itoa me @ ''-'' @ Itoa n
      in ([KV ''a'' ''x''], n + 1, if f \<in> set dir then dir else dir @ [f])))"

definition jobcount_Reduce :: "string list \<Rightarrow> string \<Rightarrow> string list \<Rightarrow> string" where
  "jobcount_Reduce files key values =
     Itoa (int (foldl (\<lambda>invocations f. if HasPrefix f ''mr-worker-jobcount'' then invocations + 1 else invocations) (0 :: nat) files))"

subsection \<open>The coordinator's example handler and socket name\<close>

definition Example :: "goint \<Rightarrow> goint" where
  "Example x = x + 1"

definition coordinatorSock :: "int \<Rightarrow> string" where
  "coordinatorSock uid = ''/var/tmp/5840-mr-'' @ Itoa uid"

subsection \<open>Grouping\<close>

lemma run_end_takeWhile:
  "run_end xs i j = j + length (takeWhile (\<lambda>kv. Key kv = Key (xs ! i)) (drop j xs))"
proof (induction xs i j rule: run_end.induct)
  case (1 xs i j)
  show ?case
  proof (cases "j < length xs")
    case True
    then have "drop j xs = xs ! j # drop (j + 1) xs" by (simp add: Cons_nth_drop_Suc)
    with 1 True show ?thesis by (subst run_end.simps) simp
  next
    case False
    then show ?thesis by (subst run_end.simps) simp
  qed
qed

text \<open>The line of a key, and the lines of all keys in order.\<close>

definition mr_line :: "(string \<Rightarrow> string list \<Rightarrow> string) \<Rightarrow> KeyValue list \<Rightarrow> string \<Rightarrow> string" where
  "mr_line reducef xs k = k @ '' '' @ reducef k (map Value (filter (\<lambda>kv. Key kv = k) xs)) @ [CHR 0x0A]"

definition mr_lines :: "(string \<Rightarrow> string list \<Rightarrow> string) \<Rightarrow> KeyValue list \<Rightarrow> string" where
  "mr_lines reducef xs = concat (map (mr_line reducef xs) (sorted_list_of_set (Key ` set xs)))"

text \<open>A sorted list is a run of its first key and a rest with larger keys.\<close>

lemma sorted_run:
  assumes "sorted (map Key (x # xs))"
  defines "r \<equiv> takeWhile (\<lambda>kv. Key kv = Key x) xs" and "d \<equiv> dropWhile (\<lambda>kv. Key kv = Key x) xs"
  shows "x # xs = (x # r) @ d" and "\<forall>kv \<in> set r. Key kv = Key x" and "\<forall>kv \<in> set d. Key x < Key kv"
    and "sorted (map Key d)"
proof -
  show "x # xs = (x # r) @ d" by (simp add: r_def d_def)
  show "\<forall>kv \<in> set r. Key kv = Key x" by (auto simp: r_def dest: set_takeWhileD)
  have "map Key xs = map Key r @ map Key d" by (simp add: r_def d_def flip: map_append)
  then show sd: "sorted (map Key d)" using assms(1) by (simp add: sorted_append)
  show "\<forall>kv \<in> set d. Key x < Key kv"
  proof (cases d)
    case (Cons y ys)
    then have "Key y \<noteq> Key x" using hd_dropWhile [of "\<lambda>kv. Key kv = Key x" xs] by (simp add: d_def)
    moreover have "y \<in> set xs" using Cons by (metis d_def list.set_intros(1) set_dropWhileD)
    ultimately have "Key x < Key y" using assms(1) by fastforce
    with sd Cons show ?thesis by auto
  qed simp
qed

lemma mr_lines_run:
  assumes "sorted (map Key (x # xs))"
  defines "r \<equiv> takeWhile (\<lambda>kv. Key kv = Key x) xs" and "d \<equiv> dropWhile (\<lambda>kv. Key kv = Key x) xs"
  shows "mr_lines f (x # xs) = Key x @ '' '' @ f (Key x) (map Value (x # r)) @ [CHR 0x0A] @ mr_lines f d"
proof -
  note run = sorted_run [OF assms(1), folded r_def d_def]
  have keys: "Key ` set (x # xs) = insert (Key x) (Key ` set d)" unfolding run(1) using run(2) by auto
  have "Key x \<notin> Key ` set d" "\<forall>k \<in> Key ` set d. Key x \<le> k" using run(3) by fastforce+
  then have sl: "sorted_list_of_set (Key ` set (x # xs)) = Key x # sorted_list_of_set (Key ` set d)"
    unfolding keys by (subst sorted_list_of_set_insert) (auto simp: insort_is_Cons)
  have "filter (\<lambda>kv. Key kv = Key x) (x # xs) = x # r"
    unfolding run(1) using run(2,3) by (auto simp: filter_id_conv filter_empty_conv)
  then have l1: "mr_line f (x # xs) (Key x) = Key x @ '' '' @ f (Key x) (map Value (x # r)) @ [CHR 0x0A]"
    by (simp add: mr_line_def)
  have "mr_line f (x # xs) k = mr_line f d k" if "k \<in> Key ` set d" for k
  proof -
    have "Key x \<noteq> k" using that run(3) by auto
    then have "filter (\<lambda>kv. Key kv = k) (x # xs) = filter (\<lambda>kv. Key kv = k) d"
      unfolding run(1) using run(2) by (auto simp: filter_empty_conv)
    then show ?thesis by (simp add: mr_line_def)
  qed
  then have l2: "map (mr_line f (x # xs)) (sorted_list_of_set (Key ` set d)) = map (mr_line f d) (sorted_list_of_set (Key ` set d))"
    by (intro map_cong) auto
  have "mr_lines f (x # xs) = mr_line f (x # xs) (Key x) @ concat (map (mr_line f (x # xs)) (sorted_list_of_set (Key ` set d)))"
    unfolding mr_lines_def sl by simp
  then show ?thesis unfolding l1 l2 by (simp add: mr_lines_def)
qed

lemma reduce_loop_lines:
  "sorted (map Key xs) \<Longrightarrow> reduce_loop f xs i = mr_lines f (drop i xs)"
proof (induction f xs i rule: reduce_loop.induct)
  case (1 f xs i)
  show ?case
  proof (cases "i < length xs")
    case True
    define ys where "ys = drop (i + 1) xs"
    define r where "r = takeWhile (\<lambda>kv. Key kv = Key (xs ! i)) ys"
    have dr: "drop i xs = xs ! i # ys" using True by (simp add: ys_def Cons_nth_drop_Suc)
    have j: "run_end xs i (i + 1) = i + 1 + length r" by (simp add: run_end_takeWhile r_def ys_def)
    have "map (\<lambda>k. Value (xs ! k)) [i..<i + 1 + length r] = map Value (take (1 + length r) (drop i xs))"
    proof -
      have "length r \<le> length ys" by (simp add: r_def length_takeWhile_le)
      then have "i + 1 + length r \<le> length xs" using True by (simp add: ys_def)
      then show ?thesis by (intro nth_equalityI) (simp_all del: upt_Suc)
    qed
    also have "take (1 + length r) (drop i xs) = xs ! i # r"
    proof -
      have "take (length r) ys = r" unfolding r_def by (rule takeWhile_eq_take [symmetric])
      then show ?thesis by (simp add: dr)
    qed
    finally have vals: "map (\<lambda>k. Value (xs ! k)) [i..<i + 1 + length r] = map Value (xs ! i # r)" .
    have "drop (i + 1 + length r) xs = drop (length r) ys" by (simp add: ys_def add.commute)
    also have "\<dots> = dropWhile (\<lambda>kv. Key kv = Key (xs ! i)) ys" by (simp add: r_def dropWhile_eq_drop)
    finally have rest: "drop (i + 1 + length r) xs = dropWhile (\<lambda>kv. Key kv = Key (xs ! i)) ys" .
    have "sorted (map Key (xs ! i # ys))" using 1(2) unfolding dr [symmetric] by (simp add: sorted_wrt_drop flip: drop_map)
    from mr_lines_run [OF this] have L: "mr_lines f (drop i xs) =
        Key (xs ! i) @ '' '' @ f (Key (xs ! i)) (map Value (xs ! i # r)) @ [CHR 0x0A] @ mr_lines f (drop (i + 1 + length r) xs)"
      unfolding dr rest unfolding r_def .
    have "reduce_loop f xs (i + 1 + length r) = mr_lines f (drop (i + 1 + length r) xs)"
      using 1(1) [OF True j [symmetric] refl refl 1(2)] by (simp add: j)
    then show ?thesis
      by (subst reduce_loop.simps) (simp only: True if_True Let_def j vals L)
  next
    case False
    then show ?thesis by (subst reduce_loop.simps) (simp add: mr_lines_def)
  qed
qed

subsection \<open>The driver as a whole\<close>

text \<open>The contract of \<open>sort.Sort(ByKey(...))\<close>.\<close>

definition sorts_by_key :: "(KeyValue list \<Rightarrow> KeyValue list) \<Rightarrow> bool" where
  "sorts_by_key srt \<longleftrightarrow> (\<forall>xs. mset (srt xs) = mset xs \<and> sorted (map Key (srt xs)))"

lemma map_files_ok:
  "map read fs = map Some cs \<Longrightarrow>
   map_files read mapf fs kvs = Inr (kvs @ concat (map (\<lambda>(f, c). mapf f c) (zip fs cs)))"
proof (induction fs arbitrary: cs kvs)
  case (Cons f fs)
  then show ?case by (cases cs) auto
qed simp

text \<open>The driver for inputs that can be read.\<close>

lemma main_lines:
  assumes "sorts_by_key srt" and "length args \<ge> 3" and "map read (drop 2 args) = map Some cs"
    and "kvs = concat (map (\<lambda>(f, c). mapf f c) (zip (drop 2 args) cs))"
  shows "main read srt mapf reducef args =
    Inr (concat (map (mr_line reducef (srt kvs)) (sorted_list_of_set (Key ` set kvs))))"
proof -
  have "mset (srt kvs) = mset kvs" and sorted: "sorted (map Key (srt kvs))"
    using assms(1) by (simp_all add: sorts_by_key_def)
  then have "set (srt kvs) = set kvs" by (metis set_mset_mset)
  then show ?thesis
    using assms(2) reduce_loop_lines [OF sorted, of reducef 0] map_files_ok [OF assms(3), of mapf "[]"] assms(4)
    by (simp add: main_def mr_lines_def)
qed

lemma mset_values:
  assumes "sorts_by_key srt"
  shows "mset (map Value (filter (\<lambda>kv. Key kv = k) (srt xs))) = mset (map Value (filter (\<lambda>kv. Key kv = k) xs))"
proof -
  have "mset (srt xs) = mset xs" using assms by (simp add: sorts_by_key_def)
  then show ?thesis by (simp add: mset_filter)
qed

text \<open>Reading the files fails at the first one that cannot be read; otherwise all of them can.\<close>

lemma map_files_fails:
  assumes "map_files read mapf fs kvs = Inl e"
  shows "\<exists>as f bs. e = CannotRead f \<and> fs = as @ f # bs \<and> read f = None \<and> (\<forall>g \<in> set as. read g \<noteq> None)"
  using assms
proof (induction fs arbitrary: kvs)
  case (Cons f fs)
  show ?case
  proof (cases "read f")
    case None
    with Cons.prems show ?thesis by (intro exI [of _ "[]"] exI [of _ f] exI [of _ fs]) simp
  next
    case (Some c)
    with Cons.prems Cons.IH obtain as g bs where
      "e = CannotRead g \<and> fs = as @ g # bs \<and> read g = None \<and> (\<forall>h \<in> set as. read h \<noteq> None)" by fastforce
    with Some show ?thesis by (intro exI [of _ "f # as"] exI [of _ g] exI [of _ bs]) simp
  qed
qed simp

lemma map_files_readable:
  assumes "map_files read mapf fs kvs = Inr r"
  shows "\<exists>cs. map read fs = map Some cs"
  using assms
proof (induction fs arbitrary: kvs)
  case (Cons f fs)
  then obtain c where c: "read f = Some c" "map_files read mapf fs (kvs @ mapf f c) = Inr r"
    by (auto split: option.splits)
  from Cons.IH [OF c(2)] c(1) obtain cs where "read f = Some c" "map read fs = map Some cs" by blast
  then show ?case by (intro exI [of _ "c # cs"]) simp
qed simp

text \<open>C25. The driver writes one line for each distinct key that Map emitted, in increasing order of
  the keys; Reduce gets exactly the values emitted with the key, each as often as it was emitted,
  in some order. Too few arguments, or a file that cannot be read, stop the program instead, and
  the first unreadable file is the one reported.\<close>

theorem mrsequential_exact:
  assumes "sorts_by_key srt"
  shows "(case main read srt mapf reducef args of
      Inr out \<Rightarrow> \<exists>cs vals. 3 \<le> length args \<and> map read (drop 2 args) = map Some cs \<and>
        (let kvs = concat (map (\<lambda>(f, c). mapf f c) (zip (drop 2 args) cs)) in
           (\<forall>k. mset (vals k) = {# Value kv. kv \<in># filter_mset (\<lambda>kv. Key kv = k) (mset kvs) #}) \<and>
           out = concat (map (\<lambda>k. k @ '' '' @ reducef k (vals k) @ [CHR 0x0A]) (sorted_list_of_set (Key ` set kvs))))
    | Inl Usage \<Rightarrow> length args < 3
    | Inl (CannotRead f) \<Rightarrow> \<exists>as bs. drop 2 args = as @ f # bs \<and> read f = None \<and> (\<forall>g \<in> set as. read g \<noteq> None))"
proof (cases "length args < 3")
  case False
  show ?thesis
  proof (cases "\<exists>cs. map read (drop 2 args) = map Some cs")
    case True
    then obtain cs where cs: "map read (drop 2 args) = map Some cs" by blast
    define kvs where "kvs = concat (map (\<lambda>(f, c). mapf f c) (zip (drop 2 args) cs))"
    have "3 \<le> length args" using False by simp
    from main_lines [OF assms this cs kvs_def, of reducef]
    have m: "main read srt mapf reducef args = Inr (concat (map (mr_line reducef (srt kvs)) (sorted_list_of_set (Key ` set kvs))))" .
    have "\<forall>k. mset (map Value (filter (\<lambda>kv. Key kv = k) (srt kvs))) = {# Value kv. kv \<in># filter_mset (\<lambda>kv. Key kv = k) (mset kvs) #}"
      using mset_values [OF assms] by (simp add: mset_filter)
    then show ?thesis unfolding m sum.case Let_def using \<open>3 \<le> length args\<close> cs
      by (intro exI [of _ cs] exI [of _ "\<lambda>k. map Value (filter (\<lambda>kv. Key kv = k) (srt kvs))"])
        (simp add: kvs_def [symmetric] mr_line_def [abs_def])
  next
    case no: False
    then obtain e where e: "map_files read mapf (drop 2 args) [] = Inl e"
      using map_files_readable [of read mapf "drop 2 args" "[]"] by (cases "map_files read mapf (drop 2 args) []") auto
    from map_files_fails [OF e] obtain as f bs where bad: "e = CannotRead f" "drop 2 args = as @ f # bs"
      "read f = None" "\<forall>g \<in> set as. read g \<noteq> None" by blast
    have "main read srt mapf reducef args = Inl (CannotRead f)" using e False bad(1) by (simp add: main_def)
    then show ?thesis using bad by auto
  qed
qed (simp add: main_def)

definition key_sort :: "KeyValue list \<Rightarrow> KeyValue list" where
  "key_sort = sort_key Key"

lemma key_sort_sorts: "sorts_by_key key_sort"
  by (simp add: sorts_by_key_def key_sort_def)

theorem mrsequential_exact_witness:
  "\<exists>f. main (\<lambda>f. if f = ''a'' then Some ''x'' else None) key_sort nocrash_Map nocrash_Reduce [''p'', ''q'', ''a'', ''b''] = Inl (CannotRead f) \<and>
     f = ''b''"
proof -
  have m: "main (\<lambda>f. if f = ''a'' then Some ''x'' else None) key_sort nocrash_Map nocrash_Reduce [''p'', ''q'', ''a'', ''b''] =
      Inl (CannotRead ''b'')" by (simp add: main_def)
  from mrsequential_exact [OF key_sort_sorts, of "[''p'', ''q'', ''a'', ''b'']"
    "\<lambda>f. if f = ''a'' then Some ''x'' else None" nocrash_Map nocrash_Reduce] show ?thesis unfolding m by auto
qed

subsection \<open>The word counter and the indexer\<close>

lemma wc_pairs:
  "length fs = length cs \<Longrightarrow> concat (map (\<lambda>(f, c). wc_Map IsLetter f c) (zip fs cs)) =
     map (\<lambda>w. KV w ''1'') (concat (map (\<lambda>c. FieldsFunc c (\<lambda>r. \<not> IsLetter r)) cs))"
  by (induction fs cs rule: list_induct2) (simp_all add: wc_Map_def)

text \<open>C26. Word count, end to end: \<open>mrsequential\<close> with \<open>wc.go\<close> writes one line for each distinct word
  of the input files, in increasing order, with the number of its occurrences in all the files,
  whichever order the unstable sort leaves equal keys in.\<close>

theorem word_count_correct:
  assumes "sorts_by_key srt" and "length args \<ge> 3" and "map read (drop 2 args) = map Some cs"
    and "ws = concat (map (\<lambda>c. FieldsFunc c (\<lambda>r. \<not> IsLetter r)) cs)"
  shows "main read srt (wc_Map IsLetter) wc_Reduce args =
    Inr (concat (map (\<lambda>w. w @ '' '' @ Itoa (int (count_list ws w)) @ [CHR 0x0A]) (sorted_list_of_set (set ws))))"
proof -
  define kvs where "kvs = concat (map (\<lambda>(f, c). wc_Map IsLetter f c) (zip (drop 2 args) cs))"
  have "length (drop 2 args) = length cs" using assms(3) by (metis length_map)
  then have kvs: "kvs = map (\<lambda>w. KV w ''1'') ws" unfolding kvs_def assms(4) by (rule wc_pairs)
  have "Key ` set kvs = set ws" by (force simp: kvs)
  moreover have "length (filter (\<lambda>kv. Key kv = w) (srt kvs)) = count_list ws w" for w
  proof -
    have eq: "(\<lambda>x. x = w) = (=) w" by auto
    have "length (filter (\<lambda>kv. Key kv = w) (srt kvs)) = length (filter (\<lambda>kv. Key kv = w) kvs)"
      using mset_values [OF assms(1), of w kvs] by (metis size_mset length_map)
    also have "\<dots> = length (filter (\<lambda>x. x = w) ws)" by (simp add: kvs filter_map comp_def)
    also have "\<dots> = count_list ws w" unfolding eq by (simp add: count_list_eq_length_filter)
    finally show ?thesis .
  qed
  ultimately show ?thesis
    using main_lines [OF assms(1-3) kvs_def, of wc_Reduce]
    by (simp add: mr_line_def [abs_def] wc_Reduce_def)
qed

definition demo_letter :: "nat \<Rightarrow> bool" where
  "demo_letter r = (97 \<le> r \<and> r \<le> 122)"

lemma demo_fields: "FieldsFunc ''b a b'' (\<lambda>r. \<not> demo_letter r) = [''b'', ''a'', ''b'']"
  by (simp add: FieldsFunc_def runes.simps demo_letter_def byte_of_def)

lemma demo_order: "sorted_list_of_set (set [''b'', ''a'', ''b'']) = [''a'', ''b'']"
  unfolding sorted_list_of_set_sort_remdups by simp

lemma Itoa_small: "Itoa 1 = ''1''" "Itoa 2 = ''2''"
  by (simp_all add: Itoa_def digits.simps digit_chars digit_chars(2) [simplified])

theorem word_count_correct_witness:
  "main (\<lambda>f. Some ''b a b'') key_sort (wc_Map demo_letter) wc_Reduce [''p'', ''wc.so'', ''f''] =
    Inr (''a 1'' @ [CHR 0x0A] @ ''b 2'' @ [CHR 0x0A])"
  using word_count_correct [of key_sort "[''p'', ''wc.so'', ''f'']" "\<lambda>f. Some ''b a b''" "[''b a b'']"
      "[''b'', ''a'', ''b'']" demo_letter]
  unfolding demo_order by (simp add: key_sort_sorts demo_fields Itoa_small)

lemma list_of_mset: "mset xs = mset (if b then [w] else []) \<Longrightarrow> xs = (if b then [w] else [])"
  by (cases xs; cases "tl xs") (auto split: if_splits)

lemma indexer_pairs:
  "length fs = length cs \<Longrightarrow> \<forall>ws. mset (visit ws) = mset ws \<Longrightarrow>
   mset (map Value (filter (\<lambda>kv. Key kv = w) (concat (map (\<lambda>(f, c). indexer_Map IsLetter visit f c) (zip fs cs))))) =
     mset (map fst (filter (\<lambda>(f, c). w \<in> set (FieldsFunc c (\<lambda>r. \<not> IsLetter r))) (zip fs cs)))"
proof (induction fs cs rule: list_induct2)
  case (Cons f fs c cs)
  let ?ws = "FieldsFunc c (\<lambda>r. \<not> IsLetter r)"
  have "mset (filter (\<lambda>v. v = w) (visit (remdups ?ws))) = mset (filter (\<lambda>v. v = w) (remdups ?ws))"
    using Cons.prems by (simp add: mset_filter)
  also have "filter (\<lambda>v. v = w) (remdups ?ws) = (if w \<in> set ?ws then [w] else [])"
  proof -
    have "distinct xs \<Longrightarrow> filter (\<lambda>v. v = w) xs = (if w \<in> set xs then [w] else [])" for xs :: "string list"
      by (induction xs) (auto simp: filter_empty_conv)
    then show ?thesis by (metis distinct_remdups set_remdups)
  qed
  finally have "filter (\<lambda>v. v = w) (visit (remdups ?ws)) = (if w \<in> set ?ws then [w] else [])"
    by (rule list_of_mset)
  then have "map Value (filter (\<lambda>kv. Key kv = w) (indexer_Map IsLetter visit f c)) = (if w \<in> set ?ws then [f] else [])"
    by (simp add: indexer_Map_def filter_map comp_def)
  with Cons show ?case by simp
qed simp

lemma indexer_keys:
  "length fs = length cs \<Longrightarrow> \<forall>ws. mset (visit ws) = mset ws \<Longrightarrow>
   Key ` set (concat (map (\<lambda>(f, c). indexer_Map IsLetter visit f c) (zip fs cs))) =
     (\<Union>c \<in> set cs. set (FieldsFunc c (\<lambda>r. \<not> IsLetter r)))"
proof (induction fs cs rule: list_induct2)
  case (Cons f fs c cs)
  have "set (visit (remdups (FieldsFunc c (\<lambda>r. \<not> IsLetter r)))) = set (FieldsFunc c (\<lambda>r. \<not> IsLetter r))"
    using Cons.prems by (metis set_mset_mset set_remdups)
  then have "Key ` set (indexer_Map IsLetter visit f c) = set (FieldsFunc c (\<lambda>r. \<not> IsLetter r))"
    by (force simp: indexer_Map_def)
  with Cons show ?case by (simp add: image_Un)
qed simp

text \<open>The index, end to end: \<open>mrsequential\<close> with \<open>indexer.go\<close> writes, for each distinct word in
  increasing order, in how many of the files it occurs and the sorted list of their names,
  whatever order Map visits its words in and the sort leaves equal keys in.\<close>

theorem index_correct:
  assumes "sorts_by_key srt" and "length args \<ge> 3" and "map read (drop 2 args) = map Some cs"
    and "\<forall>ws. mset (visit ws) = mset ws"
  shows "main read srt (indexer_Map IsLetter visit) indexer_Reduce args =
    Inr (concat (map (\<lambda>w.
          let docs = map fst (filter (\<lambda>(f, c). w \<in> set (FieldsFunc c (\<lambda>r. \<not> IsLetter r))) (zip (drop 2 args) cs))
          in w @ '' '' @ Itoa (int (length docs)) @ '' '' @ JoinStrings (sort docs) '','' @ [CHR 0x0A])
        (sorted_list_of_set (\<Union>c \<in> set cs. set (FieldsFunc c (\<lambda>r. \<not> IsLetter r))))))"
proof -
  define kvs where "kvs = concat (map (\<lambda>(f, c). indexer_Map IsLetter visit f c) (zip (drop 2 args) cs))"
  have len: "length (drop 2 args) = length cs" using assms(3) by (metis length_map)
  define docs where "docs w = map fst (filter (\<lambda>(f, c). w \<in> set (FieldsFunc c (\<lambda>r. \<not> IsLetter r))) (zip (drop 2 args) cs))" for w
  have ms: "mset (map Value (filter (\<lambda>kv. Key kv = w) (srt kvs))) = mset (docs w)" for w
    using mset_values [OF assms(1), of w kvs] indexer_pairs [OF len assms(4)] by (simp add: kvs_def docs_def)
  have line: "mr_line indexer_Reduce (srt kvs) =
      (\<lambda>w. w @ '' '' @ Itoa (int (length (docs w))) @ '' '' @ JoinStrings (sort (docs w)) '','' @ [CHR 0x0A])"
  proof
    fix w
    have "sort (map Value (filter (\<lambda>kv. Key kv = w) (srt kvs))) = sort (docs w)"
      using ms [of w] by (intro properties_for_sort) simp_all
    moreover have "length (map Value (filter (\<lambda>kv. Key kv = w) (srt kvs))) = length (docs w)"
      using ms [of w] by (metis size_mset)
    ultimately show "mr_line indexer_Reduce (srt kvs) w =
        w @ '' '' @ Itoa (int (length (docs w))) @ '' '' @ JoinStrings (sort (docs w)) '','' @ [CHR 0x0A]"
      by (simp add: mr_line_def indexer_Reduce_def)
  qed
  show ?thesis
    using main_lines [OF assms(1-3) kvs_def, of indexer_Reduce] indexer_keys [OF len assms(4), of IsLetter]
    unfolding kvs_def [symmetric] docs_def [symmetric] Let_def line by simp
qed

lemma demo_order2: "sorted_list_of_set (\<Union>c \<in> set [''b a b'', ''b a b'']. set (FieldsFunc c (\<lambda>r. \<not> demo_letter r))) = [''a'', ''b'']"
  using demo_order by (simp add: demo_fields)

theorem index_correct_witness:
  "main (\<lambda>f. Some ''b a b'') key_sort (indexer_Map demo_letter rev) indexer_Reduce [''p'', ''i.so'', ''y'', ''x''] =
    Inr (''a 2 x,y'' @ [CHR 0x0A] @ ''b 2 x,y'' @ [CHR 0x0A])"
  using index_correct [of key_sort "[''p'', ''i.so'', ''y'', ''x'']" "\<lambda>f. Some ''b a b''" "[''b a b'', ''b a b'']" rev demo_letter]
  unfolding demo_order2 by (simp add: key_sort_sorts demo_fields Itoa_small)

text \<open>The applications that sort their values are deterministic: \<open>nocrash.go\<close>'s Reduce gives the
  same output for the same values in any order; \<open>crash.go\<close>, whenever a task does not exit, gives
  exactly what \<open>nocrash.go\<close> gives, and it exits exactly for the random numbers below 330.\<close>

theorem crash_matches_nocrash:
  "(mset vs = mset vs' \<longrightarrow> nocrash_Reduce k vs = nocrash_Reduce k vs' \<and> mtiming_Reduce k vs = mtiming_Reduce k vs') \<and>
   crash_Reduce rr k vs = (if rr < 330 then None else Some (nocrash_Reduce k vs)) \<and>
   crash_Map rr f c = (if rr < 330 then None else Some (nocrash_Map f c))"
proof -
  have "mset vs = mset vs' \<Longrightarrow> sort vs = sort vs'" by (intro properties_for_sort) simp_all
  then show ?thesis
    by (auto simp: nocrash_Reduce_def mtiming_Reduce_def crash_Reduce_def crash_Map_def nocrash_Map_def maybeCrash_def)
qed

theorem crash_matches_nocrash_witness:
  "nocrash_Reduce ''k'' [''b'', ''a''] = nocrash_Reduce ''k'' [''a'', ''b''] \<and> crash_Reduce 400 ''k'' [''b'', ''a''] = Some ''a b''"
  using crash_matches_nocrash [of "[''b'', ''a'']" "[''a'', ''b'']" "''k''" 400 "[]" "[]"]
  by (simp add: nocrash_Reduce_def)

text \<open>The hash that picks a reduce task is never negative, so \<open>ihash(key) % nReduce\<close> is a valid
  task number; it is the hash modulo \<open>2 ^ 31\<close>.\<close>

theorem ihash_range:
  "0 \<le> ihash k \<and> ihash k < 2 ^ 31 \<and> ihash k = uint (fnv32a k) mod 2 ^ 31 \<and>
   (0 < n \<longrightarrow> 0 \<le> ihash k mod n \<and> ihash k mod n < n)"
proof -
  have "(0x7fffffff :: 32 word) = mask 31" by (simp add: mask_eq_exp_minus_1)
  then have "ihash k = uint (take_bit 31 (fnv32a k))" by (simp add: ihash_def take_bit_eq_mask)
  also have "\<dots> = take_bit 31 (uint (fnv32a k))" by (rule unsigned_take_bit_eq)
  finally have "ihash k = uint (fnv32a k) mod 2 ^ 31" by (simp only: take_bit_eq_mod)
  then show ?thesis by simp
qed

theorem ihash_range_witness: "0 \<le> ihash ''a'' mod 10 \<and> ihash ''a'' mod 10 < 10"
  using ihash_range [of "''a''" 10] by simp

subsection \<open>Counting the jobs\<close>

text \<open>Tasks run by worker processes with the numbers \<open>ws\<close>, each of which has its own counter.\<close>

definition run_job :: "int \<Rightarrow> (int \<Rightarrow> int) \<times> string list \<Rightarrow> (int \<Rightarrow> int) \<times> string list" where
  "run_job me st = (case jobcount_Map me [] [] (fst st me, snd st) of (_, n, dir) \<Rightarrow> ((fst st)(me := n), dir))"

definition job_file :: "int \<Rightarrow> int \<Rightarrow> string" where
  "job_file me n = ''mr-worker-jobcount-'' @ Itoa me @ ''-'' @ Itoa n"

lemma job_file_inject: "job_file me n = job_file me' n' \<longleftrightarrow> me = me' \<and> n = n'"
  using Itoa_split [of me "Itoa n" me' "Itoa n'"] by (auto simp: job_file_def)

lemma job_file_prefix: "HasPrefix (job_file me n) ''mr-worker-jobcount''"
  by (simp add: HasPrefix_def job_file_def)

lemma run_jobs_inv:
  assumes "\<forall>f \<in> set dir. \<not> HasPrefix f ''mr-worker-jobcount''"
  shows "\<exists>new cs. fold run_job ws (\<lambda>_. 0, dir) = (cs, dir @ new) \<and> length new = length ws \<and>
    (\<forall>f \<in> set new. HasPrefix f ''mr-worker-jobcount'') \<and>
    (\<forall>me n. job_file me n \<in> set new \<longrightarrow> n < cs me)"
proof (induction ws rule: rev_induct)
  case Nil
  then show ?case by simp
next
  case (snoc me ws)
  then obtain new cs where IH: "fold run_job ws (\<lambda>_. 0, dir) = (cs, dir @ new)" "length new = length ws"
    "\<forall>f \<in> set new. HasPrefix f ''mr-worker-jobcount''" "\<forall>me n. job_file me n \<in> set new \<longrightarrow> n < cs me" by blast
  have "job_file me (cs me) \<notin> set (dir @ new)" using assms IH(4) job_file_prefix by fastforce
  then have step: "run_job me (cs, dir @ new) = (cs(me := cs me + 1), dir @ new @ [job_file me (cs me)])"
    by (simp add: run_job_def jobcount_Map_def Let_def job_file_def)
  have "n < (cs(me := cs me + 1)) me'" if "job_file me' n \<in> set (new @ [job_file me (cs me)])" for me' n
    using that IH(4) by (auto simp: job_file_inject less_imp_le intro: order.strict_trans)
  then show ?case using IH step job_file_prefix
    by (intro exI [of _ "new @ [job_file me (cs me)]"] exI [of _ "cs(me := cs me + 1)"]) auto
qed

text \<open>The job counter: in a directory without such files, after any sequence of map tasks by any
  worker processes, Reduce reports exactly the number of tasks that were run.\<close>

theorem jobcount_exact:
  assumes "\<forall>f \<in> set dir. \<not> HasPrefix f ''mr-worker-jobcount''"
  shows "jobcount_Reduce (snd (fold run_job ws (\<lambda>_. 0, dir))) k vs = Itoa (int (length ws))"
proof -
  have count: "foldl (\<lambda>n f. if HasPrefix f ''mr-worker-jobcount'' then n + 1 else n) m xs =
      m + length (filter (\<lambda>f. HasPrefix f ''mr-worker-jobcount'') xs)" for m :: nat and xs
    by (induction xs arbitrary: m) simp_all
  from run_jobs_inv [OF assms, of ws] obtain new cs where
    "fold run_job ws (\<lambda>_. 0, dir) = (cs, dir @ new)" "length new = length ws"
    "\<forall>f \<in> set new. HasPrefix f ''mr-worker-jobcount''" by blast
  moreover from this(3) have "filter (\<lambda>f. HasPrefix f ''mr-worker-jobcount'') new = new" by (simp add: filter_id_conv)
  moreover have "filter (\<lambda>f. HasPrefix f ''mr-worker-jobcount'') dir = []" using assms by (simp add: filter_empty_conv)
  ultimately show ?thesis by (simp add: jobcount_Reduce_def count)
qed

theorem jobcount_exact_witness:
  "jobcount_Reduce (snd (fold run_job [7, 8, 7] (\<lambda>_. 0, [''pg.txt'']))) ''a'' [''x''] = Itoa 3"
  using jobcount_exact [of "[''pg.txt'']" "[7, 8, 7]" "''a''" "[''x'']"] by (simp add: HasPrefix_def)

end
