(* ===== verification/Skeletons.thy ===== *)
theory Skeletons
  imports Porcupine_Check Raft_Tester Rsm_Tester Map_Reduce
begin

section \<open>The unmodified labs\<close>

text \<open>
  The services under test are handed out as skeletons that students fill in. This theory models
  what the skeletons of this commit do, which is little, and shows how the tests react to them:
  the Raft peer (\<^verbatim>\<open>raft1/raft.go\<close>), the clerks and servers of the key/value labs (\<^verbatim>\<open>kvsrv1\<close>,
  \<^verbatim>\<open>kvraft1\<close>, \<^verbatim>\<open>shardkv1\<close>), the lock, and the MapReduce coordinator and worker. Operations with an
  empty body change nothing and are not listed. The calls of \<^verbatim>\<open>labgob.Register\<close> when a server
  starts are \<open>Register\<close> of theory \<open>Gob\<close>.
\<close>

subsection \<open>The Raft peer\<close>

record Raft =
  rf_peers :: "ename list"
  rf_persister :: nat
  rf_me :: nat
  dead :: "32 word"

definition GetState :: "Raft \<Rightarrow> int \<times> bool" where
  "GetState rf = (let term = 0; isleader = False in (term, isleader))"

text \<open>With or without data, there is nothing to restore.\<close>

definition readPersist :: "bytes option \<Rightarrow> Raft \<Rightarrow> Raft" where
  "readPersist data rf = (if data = None \<or> data = Some [] then rf else rf)"

definition PersistBytes :: "Raft \<Rightarrow> pstore \<Rightarrow> nat" where
  "PersistBytes rf s = RaftStateSize (rf_persister rf) s"

definition raft_Start :: "'c \<Rightarrow> Raft \<Rightarrow> int \<times> int \<times> bool" where
  "raft_Start command rf = (let index = -1; term = -1; isLeader = True in (index, term, isLeader))"

definition raft_Kill :: "Raft \<Rightarrow> Raft" where
  "raft_Kill rf = rf\<lparr>dead := 1\<rparr>"

definition raft_killed :: "Raft \<Rightarrow> bool" where
  "raft_killed rf \<longleftrightarrow> dead rf = 1"

text \<open>What the loop sees each time it reads \<open>killed\<close>, with a random draw; the pauses it makes, in
  milliseconds.\<close>

fun ticker :: "(bool \<times> nat) list \<Rightarrow> nat list" where
  "ticker [] = []"
| "ticker ((k, r) # krs) = (if k = False then (50 + r mod 300) # ticker krs else [])"

definition raft_Make :: "ename list \<Rightarrow> nat \<Rightarrow> nat \<Rightarrow> pstore \<Rightarrow> Raft \<times> pstore" where
  "raft_Make peers me persister s =
     (let rf = \<lparr>rf_peers = peers, rf_persister = persister, rf_me = me, dead = 0\<rparr> in
      case ReadRaftState persister s of (data, s') \<Rightarrow>
        (readPersist (case data of NilSlice \<Rightarrow> None | _ \<Rightarrow> Some (contents (heap s') data)) rf, s'))"

subsection \<open>Clerks\<close>

definition kvsrv_Get :: "string \<Rightarrow> string \<times> Tversion \<times> Err" where
  "kvsrv_Get key = ([], 0, ErrNoKey)"

definition kvsrv_Put :: "string \<Rightarrow> string \<Rightarrow> Tversion \<Rightarrow> Err" where
  "kvsrv_Put key value version = ErrNoKey"

definition kvraft_Get :: "string \<Rightarrow> string \<times> Tversion \<times> Err" where
  "kvraft_Get key = ([], 0, [])"

definition kvraft_Put :: "string \<Rightarrow> string \<Rightarrow> Tversion \<Rightarrow> Err" where
  "kvraft_Put key value version = []"

definition shardkv_Get :: "string \<Rightarrow> string \<times> Tversion \<times> Err" where
  "shardkv_Get key = ([], 0, [])"

definition shardkv_Put :: "string \<Rightarrow> string \<Rightarrow> Tversion \<Rightarrow> Err" where
  "shardkv_Put key value version = []"

definition shardgrp_Get :: "string \<Rightarrow> string \<times> Tversion \<times> Err" where
  "shardgrp_Get key = ([], 0, [])"

definition shardgrp_Put :: "string \<Rightarrow> string \<Rightarrow> Tversion \<Rightarrow> Err" where
  "shardgrp_Put key value version = []"

definition FreezeShard :: "int \<Rightarrow> int \<Rightarrow> bytes option \<times> Err" where
  "FreezeShard s num = (None, [])"

definition InstallShard :: "int \<Rightarrow> bytes option \<Rightarrow> int \<Rightarrow> Err" where
  "InstallShard s state num = []"

definition DeleteShard :: "int \<Rightarrow> int \<Rightarrow> Err" where
  "DeleteShard s num = []"

text \<open>They do not look at the world they run in; \<open>clk\<close> is its clock.\<close>

definition stub_clerk ::
  "(string \<Rightarrow> string \<times> Tversion \<times> Err) \<Rightarrow> (string \<Rightarrow> string \<Rightarrow> Tversion \<Rightarrow> Err) \<Rightarrow> ('c \<Rightarrow> int) \<Rightarrow> 'c IKVClerk" where
  "stub_clerk g p clk = \<lparr>ck_Get = (\<lambda>k w. (g k, w)), ck_Put = (\<lambda>k v n w. (p k v n, w)), ck_now = clk\<rparr>"

subsection \<open>Servers\<close>

record KVServer =
  kv_me :: nat
  kv_dead :: "32 word"
  kv_rsm :: "Raft RSM option"
  kv_gid :: Tgid

definition KVServer_Kill :: "KVServer \<Rightarrow> KVServer" where
  "KVServer_Kill kv = kv\<lparr>kv_dead := 1\<rparr>"

definition KVServer_killed :: "KVServer \<Rightarrow> bool" where
  "KVServer_killed kv \<longleftrightarrow> kv_dead kv = 1"

datatype service = KV KVServer | Peer "Raft option"

text \<open>The services of a server of the replicated labs: the key/value server and its Raft peer. The
  server of \<^verbatim>\<open>kvraft1\<close> has no group number; here it is 0.\<close>

definition StartKVServer :: "bool \<Rightarrow> ename list \<Rightarrow> Tgid \<Rightarrow> nat \<Rightarrow> nat \<Rightarrow> int \<Rightarrow> pstore \<Rightarrow> service list" where
  "StartKVServer useRaftStateMachine peers grpid me persister maxraftstate s =
     (let rsm = MakeRSM useRaftStateMachine (\<lambda>es i p. fst (raft_Make es i (the p) s)) peers me (Some persister) maxraftstate
      in [KV \<lparr>kv_me = me, kv_dead = 0, kv_rsm = Some rsm, kv_gid = 0\<rparr>, Peer (r_rf rsm)])"

definition StartServerShardGrp :: "bool \<Rightarrow> ename list \<Rightarrow> Tgid \<Rightarrow> nat \<Rightarrow> nat \<Rightarrow> int \<Rightarrow> pstore \<Rightarrow> service list" where
  "StartServerShardGrp useRaftStateMachine peers grpid me persister maxraftstate s =
     (let rsm = MakeRSM useRaftStateMachine (\<lambda>es i p. fst (raft_Make es i (the p) s)) peers me (Some persister) maxraftstate
      in [KV \<lparr>kv_me = me, kv_dead = 0, kv_rsm = Some rsm, kv_gid = grpid\<rparr>, Peer (r_rf rsm)])"

definition kvsrv_StartKVServer :: "service list" where
  "kvsrv_StartKVServer = [KV \<lparr>kv_me = 0, kv_dead = 0, kv_rsm = None, kv_gid = 0\<rparr>]"

text \<open>\<open>Submit\<close> always says that this server does not lead.\<close>

definition rsm_Submit :: "'a req \<Rightarrow> Err \<times> rep option" where
  "rsm_Submit req = (ErrWrongLeader, None)"

subsection \<open>MapReduce\<close>

definition Done :: bool where
  "Done = False"

text \<open>\<open>mrcoordinator\<close> polls until \<open>Done\<close>, starting one second after another.\<close>

partial_function (option) await_done :: "nat \<Rightarrow> nat option" where
  "await_done seconds = (if Done = False then await_done (seconds + 1) else Some seconds)"

text \<open>\<open>callf\<close> is the RPC to the coordinator: \<open>None\<close> when it fails. The result is the printed line.\<close>

definition CallExample :: "(goint \<Rightarrow> goint option) \<Rightarrow> string" where
  "CallExample callf =
     (let X = 99 in case callf X of Some y \<Rightarrow> ''reply.Y '' @ Itoa (sint y) | None \<Rightarrow> ''call failed!'')"

subsection \<open>How the tests react\<close>

lemma stub_Put:
  "Put (stub_clerk g p clk) key value ver me s = (err, s') \<Longrightarrow> err = p key value ver"
  by (auto simp: Put_def stub_clerk_def Let_def split: prod.splits)

lemma await_done_stuck: "await_done n = None"
proof -
  have False if "await_done n = Some r" for r
    using that by (rule await_done.raw_induct [where P = "\<lambda>_ _. False", rotated]) (auto simp: Done_def)
  then show ?thesis by (cases "await_done n") auto
qed

text \<open>An unmodified peer never leads, so the first check of every Raft test fails.\<close>

lemma unmodified_raft_no_leader:
  "checkOneLeader (map (map (\<lambda>(c, rf). (c, GetState rf))) polls) = Inl NoLeader"
proof -
  have none: "collect_leaders (map (\<lambda>(i, c, rf). (i, c, GetState rf)) vs) m = m" for vs m
    by (induction vs) (auto simp: GetState_def)
  have "enumerate k (map f xs) = map (\<lambda>(i, x). (i, f x)) (enumerate k xs)" for k and f :: "bool \<times> Raft \<Rightarrow> bool \<times> int \<times> bool" and xs
    by (induction xs arbitrary: k) simp_all
  then have "leader_rounds (map (map (\<lambda>(c, rf). (c, GetState rf))) ps) = Inl NoLeader" for ps
    using none by (induction ps) (simp_all add: case_prod_unfold)
  then show ?thesis by (simp add: checkOneLeader_def take_map)
qed

text \<open>A put that is answered with an error the model does not know is never accepted.\<close>

lemma accepts_put_errors:
  assumes "accepts st xs = Some st'" and "(i, out) \<in> set xs" and "is_put i"
  shows "Err out = OK \<or> Err out = ErrMaybe \<or> Err out = ErrVersion"
  using assms(1,2)
proof (induction xs arbitrary: st)
  case (Cons op xs)
  obtain i1 o1 where op: "op = (i1, o1)" by force
  with Cons.prems(1) obtain st1 where st1: "KvStep st i1 o1 = (True, Inr st1)" "accepts st1 xs = Some st'"
    by (auto simp: accepts_Cons simp del: accepts.simps)
  show ?case
  proof (cases "(i, out) = (i1, o1)")
    case True
    with st1(1) assms(3) show ?thesis by (auto simp: KvStep_accepts)
  next
    case False
    with Cons.prems(2) op have "(i, out) \<in> set xs" by auto
    from Cons.IH [OF st1(2) this] show ?thesis .
  qed
qed simp

lemma put_error_not_linearizable:
  assumes "v \<in> set H" and "is_put (Input v)" and "Err (Output v) \<notin> {OK, ErrMaybe, ErrVersion}"
  shows "\<not> linearizable H"
proof
  assume "linearizable H"
  moreover have "filter (\<lambda>u. key_of u = key_of v) H \<in> set (KvPartition H)"
    using assms(1) by (auto simp: KvPartition_parts)
  ultimately obtain L where L: "mset L = mset (filter (\<lambda>u. key_of u = key_of v) H)" "good_order L"
    unfolding linearizable_def by blast
  have "set L = set (filter (\<lambda>u. key_of u = key_of v) H)" using L(1) by (rule mset_eq_setD)
  then have "v \<in> set L" using assms(1) by simp
  then have "op_io v \<in> set (map op_io L)" by simp
  with L(2) assms(2,3) accepts_put_errors show False unfolding good_order_def by blast
qed

text \<open>The linearizability check notices a clerk that was not written: once the unmodified clerk of
  the first lab has been asked to put anything and the call was logged, \<open>CheckPorcupine\<close> fails the
  test, whatever else is in the log, with any checker that rejects the histories that are not
  linearizable.\<close>

theorem unmodified_put_detected:
  assumes "\<forall>H n. \<not> linearizable H \<longrightarrow> check H n = Illegal"
    and "oplog s = Some l" and "Put (stub_clerk kvsrv_Get kvsrv_Put clk) key value ver cli s = (err, s1)"
    and "\<forall>l1. oplog s1 = Some l1 \<longrightarrow> set l1 \<subseteq> set H" and "oplog ts = Some H"
  shows "\<exists>fx a'. CheckPorcupine check vis_enable fpath opened order t t' ts a = Some (True, fx, a')"
proof -
  from Put_log [OF assms(3)] obtain v where v: "oplog s1 = map_option (\<lambda>l. l @ [v]) (oplog s)" "is_put (Input v)"
    "Err (Output v) = err" by blast
  have "err = ErrNoKey" using stub_Put [OF assms(3)] by (simp add: kvsrv_Put_def)
  moreover have "v \<in> set H" using v(1) assms(2,4) by simp
  ultimately have "check H n = Illegal" for n using put_error_not_linearizable [of v H] v(2,3) assms(1) by simp
  then show ?thesis
    by (cases "show_failed vis_enable fpath opened order t t' a")
      (simp add: CheckPorcupine_def CheckPorcupineT_def checkPorcupine_def assms(5) OpLog_Read_def Let_def)
qed

theorem unmodified_put_detected_witness:
  "\<exists>fx a'. CheckPorcupine all_orders_checker ''never'' '''' False [] 0 0
     (snd (Put (stub_clerk kvsrv_Get kvsrv_Put clock) ''k'' ''v'' 0 0 (demo_world []))) demo_begun = Some (True, fx, a')"
proof -
  obtain err s1 where p: "Put (stub_clerk kvsrv_Get kvsrv_Put clock) ''k'' ''v'' 0 0 (demo_world []) = (err, s1)" by force
  then obtain H where H: "oplog s1 = Some H" using Put_log [OF p] by (auto simp: demo_world_def)
  show ?thesis unfolding p snd_conv
    by (rule unmodified_put_detected [where l = "[]" and H = H, OF _ _ p _ H])
      (simp_all add: all_orders_exact demo_world_def H)
qed

text \<open>Against an unmodified clerk \<open>PutAtLeastOnce\<close> never returns when it is to create a key, because it
  retries at version 0; at any other version it stops the test.\<close>

lemma put_loop_stuck:
  assumes "\<And>k v n. p k v n \<notin> {OK, ErrMaybe, ErrVersion}"
  shows "put_loop (stub_clerk g p clk) key value 0 me s = None"
proof -
  have False if some: "put_loop (stub_clerk g p clk) key value 0 me s = Some r" for r
  proof -
    have "\<not> (stub_clerk g p clk = stub_clerk g p clk \<and> (0 :: Tversion) = 0)"
    proof (rule put_loop.raw_induct [where P = "\<lambda>ck key val ver me s r. \<not> (ck = stub_clerk g p clk \<and> ver = 0)", OF _ some])
      fix rec ck key val ver me s r
      assume IH: "\<And>ck key val ver me s r. rec ck key val ver me s = Some r \<Longrightarrow> \<not> (ck = stub_clerk g p clk \<and> ver = 0)"
        and body: "(case Put ck key val ver me s of (err, s') \<Rightarrow>
          if err = OK then Some (Inr (ver + 1, s'))
          else if err = ErrMaybe \<or> err = ErrVersion then rec ck key val (ver + 1) me s'
          else if ver \<noteq> 0 then Some (Inl (PutFailed key ver err))
          else rec ck key val ver me s') = Some r"
      show "\<not> (ck = stub_clerk g p clk \<and> ver = 0)"
      proof
        assume c: "ck = stub_clerk g p clk \<and> ver = 0"
        obtain err s' where e: "Put ck key val ver me s = (err, s')" by force
        with c stub_Put have "err = p key val ver" by blast
        with assms [of key val ver] c e body have "rec ck key val ver me s' = Some r" by simp
        from IH [OF this] c show False by simp
      qed
    qed
    then show False by simp
  qed
  then show ?thesis by (cases "put_loop (stub_clerk g p clk) key value 0 me s") auto
qed

lemma unmodified_put_loops:
  "PutAtLeastOnce (stub_clerk kvsrv_Get kvsrv_Put clk) key value 0 me s = None"
  "PutAtLeastOnce (stub_clerk kvraft_Get kvraft_Put clk) key value 0 me s = None"
  "PutAtLeastOnce (stub_clerk shardkv_Get shardkv_Put clk) key value 0 me s = None"
  by (simp_all add: PutAtLeastOnce_def put_loop_stuck kvsrv_Put_def kvraft_Put_def shardkv_Put_def
      OK_def ErrMaybe_def ErrVersion_def ErrNoKey_def)

lemma unmodified_put_fails:
  assumes "ver \<noteq> 0"
  shows "PutAtLeastOnce (stub_clerk kvsrv_Get kvsrv_Put clk) key value ver me s = Some (Inl (PutFailed key ver ErrNoKey))"
proof -
  obtain err s' where e: "Put (stub_clerk kvsrv_Get kvsrv_Put clk) key value ver me s = (err, s')" by force
  with stub_Put have "err = ErrNoKey" by (fastforce simp: kvsrv_Put_def)
  with e assms have "put_loop (stub_clerk kvsrv_Get kvsrv_Put clk) key value ver me s = Some (Inl (PutFailed key ver ErrNoKey))"
    by (subst put_loop.simps) simp
  then show ?thesis by (simp add: PutAtLeastOnce_def)
qed

text \<open>A replicated server that is not written never accepts an operation: submitting gives up.\<close>

lemma unmodified_rsm_gives_up:
  assumes "\<forall>rd \<in> set rds. wf_round n rd \<and> Submit rd = (\<lambda>i. rsm_Submit req)" and "0 \<le> leader" and "leader < int n"
  shows "onePartition p rds leader = Inr (None, leader)"
  using assms(1)
proof (induction rds)
  case (Cons rd rds)
  then have wf: "wf_round n rd" "\<And>i. \<not> accepts_at rd p i"
    by (auto simp: accepts_at_def rsm_Submit_def OK_def ErrWrongLeader_def)
  obtain res where res: "try_servers rd p n leader = Inr res"
    "case res of None \<Rightarrow> \<forall>d < n. \<not> accepts_at rd p ((leader + int d) mod int n)
      | Some (r, l) \<Rightarrow> \<exists>d < n. l = (leader + int d) mod int n \<and> accepts_at rd p l \<and> r = snd (Submit rd l) \<and>
          (\<forall>d' < d. \<not> accepts_at rd p ((leader + int d') mod int n))"
    using try_servers_exact [OF wf(1) assms(2,3)] by blast
  with wf(2) have "try_servers rd p n leader = Inr None" by (cases res) auto
  with wf(1) Cons show ?case by (simp add: andthen_def wf_round_def)
qed simp

text \<open>The coordinator that is not written never ends, and the example RPC answers as its comment says.\<close>

lemma unmodified_mapreduce:
  "await_done 0 = None" "CallExample (\<lambda>x. Some (Example x)) = ''reply.Y 100''"
  by (simp_all add: await_done_stuck CallExample_def Example_def Itoa_def digits.simps digit_chars digit_chars(2) [unfolded One_nat_def])

end
