(* ===== verification/Raft_Agree.thy ===== *)
theory Raft_Agree
  imports Skeletons
begin

section \<open>Agreement on one command (raft1/test.go)\<close>

text \<open>
  \<open>one\<close> hands a command to the servers in turn until one accepts it as leader, polls the servers'
  logs until enough of them have committed it, and starts over after two seconds, for ten seconds
  in all; \<open>wait\<close> polls an index with pauses that double. Both work on a world that moves on by
  itself while they sleep: the Raft peers, the clock (in nanoseconds), the network and the servers'
  logs. What they use of it is a record of functions. The loops that look at the clock are partial
  functions, so that running for ever is \<open>None\<close>; that they end follows from the laws of
  \<^verbatim>\<open>time.Sleep\<close> and of the clock, the assumptions of the locale \<open>raft_clock\<close>. Annotations are
  not modelled here.
\<close>

record ('w, 'c) raft_env =
  rt :: "'w \<Rightarrow> 'c RaftTest"
  clock :: "'w \<Rightarrow> int"
  finished :: "'w \<Rightarrow> bool"
  peer :: "nat \<Rightarrow> 'w \<Rightarrow> bool"
  Start :: "nat \<Rightarrow> 'c any \<Rightarrow> 'w \<Rightarrow> (int \<times> int \<times> bool) \<times> 'w"
  peer_term :: "nat \<Rightarrow> 'w \<Rightarrow> int option"
  Sleep :: "int \<Rightarrow> 'w \<Rightarrow> 'w"

text \<open>\<open>peer i\<close> holds when server \<open>i\<close> is connected and has a Raft peer; \<open>peer_term\<close> is the term that
  the peer of a server reports, if the server has one (calling a nil peer panics).\<close>

datatype 'c one_error = CheckFailed "'c check_error" | NoAgreementReached | TimedOut | TooFew nat | NilRaft

abbreviation ms :: int where
  "ms \<equiv> 1000000"

abbreviation sec :: int where
  "sec \<equiv> 1000000000"

definition n_srvs :: "('w, 'c) raft_env \<Rightarrow> 'w \<Rightarrow> nat" where
  "n_srvs env w = length (t_srvs (rt env w))"

text \<open>One turn over all the servers, starting after the one tried last.\<close>

fun try_start :: "('w, 'c) raft_env \<Rightarrow> 'c any \<Rightarrow> nat \<Rightarrow> nat \<Rightarrow> nat \<Rightarrow> 'w \<Rightarrow> int \<times> nat \<times> 'w" where
  "try_start env cmd n 0 starts w = (-1, starts, w)"
| "try_start env cmd n (Suc k) starts w =
     (let starts' = (starts + 1) mod n in
      if peer env starts' w then
        (case Start env starts' cmd w of ((index1, _, lead), w') \<Rightarrow>
           if lead then (index1, starts', w') else try_start env cmd n k starts' w')
      else try_start env cmd n k starts' w)"

text \<open>The loop that waits for agreement: it says whether the command was committed.\<close>

partial_function (option) agree_loop ::
  "('w, 'c) raft_env \<Rightarrow> 'c any \<Rightarrow> int \<Rightarrow> int \<Rightarrow> int \<Rightarrow> 'w \<Rightarrow> ('c one_error + bool \<times> 'w) option" where
  "agree_loop env cmd expectedServers t1 index w =
     (if clock env w - t1 < 2 * sec then
        (case nCommitted index (rt env w) of
           Inl e \<Rightarrow> Some (Inl (CheckFailed e))
         | Inr (nd, cmd1) \<Rightarrow>
             if nd > 0 \<and> int nd \<ge> expectedServers \<and> cmd1 = cmd then Some (Inr (True, w))
             else agree_loop env cmd expectedServers t1 index (Sleep env (20 * ms) w))
      else Some (Inr (False, w)))"

declare agree_loop.simps [code]

partial_function (option) one_loop ::
  "('w, 'c) raft_env \<Rightarrow> 'c any \<Rightarrow> int \<Rightarrow> bool \<Rightarrow> int \<Rightarrow> nat \<Rightarrow> 'w \<Rightarrow> ('c one_error + int \<times> 'w) option" where
  "one_loop env cmd expectedServers retry t0 starts w =
     (if clock env w - t0 < 10 * sec \<and> finished env w = False then
        (case try_start env cmd (n_srvs env w) (n_srvs env w) starts w of (index, starts', w1) \<Rightarrow>
           if index \<noteq> -1 then
             (case agree_loop env cmd expectedServers (clock env w1) index w1 of
                None \<Rightarrow> None
              | Some (Inl e) \<Rightarrow> Some (Inl e)
              | Some (Inr (agreed, w2)) \<Rightarrow>
                  if agreed then Some (Inr (index, w2))
                  else if retry = False then Some (Inl NoAgreementReached)
                  else one_loop env cmd expectedServers retry t0 starts' w2)
           else one_loop env cmd expectedServers retry t0 starts' (Sleep env (50 * ms) w1))
      else if finished env w = False then Some (Inl TimedOut)
      else Some (Inr (-1, w)))"

declare one_loop.simps [code]

definition one :: "('w, 'c) raft_env \<Rightarrow> 'c any \<Rightarrow> int \<Rightarrow> bool \<Rightarrow> 'w \<Rightarrow> ('c one_error + int \<times> 'w) option" where
  "one env cmd expectedServers retry w = one_loop env cmd expectedServers retry (clock env w) 0 w"

text \<open>\<open>wait\<close>: its rounds; \<open>Inl\<close> is a panic or a failed check, the flag says that some peer has moved
  on to a later term.\<close>

fun moved_on :: "('w, 'c) raft_env \<Rightarrow> int \<Rightarrow> nat list \<Rightarrow> 'w \<Rightarrow> 'c one_error + bool" where
  "moved_on env startTerm [] w = Inr False"
| "moved_on env startTerm (i # is) w = (case peer_term env i w of
      None \<Rightarrow> Inl NilRaft
    | Some t \<Rightarrow> if t > startTerm then Inr True else moved_on env startTerm is w)"

fun wait_loop :: "('w, 'c) raft_env \<Rightarrow> int \<Rightarrow> int \<Rightarrow> int \<Rightarrow> int \<Rightarrow> nat \<Rightarrow> 'w \<Rightarrow> 'c one_error + bool \<times> 'w" where
  "wait_loop env index n startTerm to 0 w = Inr (False, w)"
| "wait_loop env index n startTerm to (Suc k) w = (case nCommitted index (rt env w) of
      Inl e \<Rightarrow> Inl (CheckFailed e)
    | Inr (nd, _) \<Rightarrow>
        if int nd \<ge> n then Inr (False, w)
        else (let w' = Sleep env to w; to' = (if to < sec then to * 2 else to) in
          if startTerm > -1 then
            (case moved_on env startTerm [0..<n_srvs env w'] w' of
               Inl e \<Rightarrow> Inl e
             | Inr True \<Rightarrow> Inr (True, w')
             | Inr False \<Rightarrow> wait_loop env index n startTerm to' k w')
          else wait_loop env index n startTerm to' k w'))"

text \<open>The result is \<open>None\<close> where the code returns -1.\<close>

definition wait :: "('w, 'c) raft_env \<Rightarrow> int \<Rightarrow> int \<Rightarrow> int \<Rightarrow> 'w \<Rightarrow> 'c one_error + 'c any option \<times> 'w" where
  "wait env index n startTerm w = (case wait_loop env index n startTerm (10 * ms) 30 w of
      Inl e \<Rightarrow> Inl e
    | Inr (True, w') \<Rightarrow> Inr (None, w')
    | Inr (False, w') \<Rightarrow> (case nCommitted index (rt env w') of
          Inl e \<Rightarrow> Inl (CheckFailed e)
        | Inr (nd, cmd) \<Rightarrow> if int nd < n then Inl (TooFew nd) else Inr (Some cmd, w')))"

subsection \<open>What was committed\<close>

definition committers :: "'c RaftTest \<Rightarrow> int \<Rightarrow> 'c any \<Rightarrow> nat set" where
  "committers ts index cmd = {i. has_entry ts i index cmd}"

lemma count_committed_exact:
  assumes "count_committed k ss c cmd = Inr (n, cmd')"
  shows "n = c + length (filter (\<lambda>rs. logs rs k \<noteq> None) ss) \<and>
    (0 < c \<longrightarrow> cmd' = cmd) \<and> (\<forall>rs \<in> set ss. \<forall>v. logs rs k = Some v \<longrightarrow> v = cmd')"
  using assms
proof (induction ss arbitrary: c cmd)
  case (Cons rs ss)
  show ?case
  proof (cases "logs rs k")
    case None
    with Cons show ?thesis by (auto split: option.splits)
  next
    case (Some v)
    with Cons.prems have "count_committed k ss (c + 1) v = Inr (n, cmd')" "0 < c \<longrightarrow> cmd = v"
      by (auto split: option.splits if_splits)
    with Cons.IH [of "c + 1" v] Some show ?thesis by auto
  qed
qed simp

lemma length_filter_card: "length (filter P xs) = card {i. i < length xs \<and> P (xs ! i)}"
  by (rule length_filter_conv_card)

lemma nCommitted_exact:
  assumes "nCommitted k ts = Inr (n, cmd)"
  shows "n = card (committers ts k cmd)"
proof -
  have a: "count_committed k (t_srvs ts) 0 None = Inr (n, cmd)" using assms by (simp add: nCommitted_def)
  from count_committed_exact [OF this] have n: "n = length (filter (\<lambda>rs. logs rs k \<noteq> None) (t_srvs ts))"
    and v: "\<forall>rs \<in> set (t_srvs ts). \<forall>v. logs rs k = Some v \<longrightarrow> v = cmd" by auto
  have "{i. i < length (t_srvs ts) \<and> logs (t_srvs ts ! i) k \<noteq> None} = committers ts k cmd"
    using v by (auto simp: committers_def has_entry_def)
  with n show ?thesis by (simp add: length_filter_card)
qed

subsection \<open>Soundness of one\<close>

text \<open>A server has accepted the command at this index.\<close>

definition accepted :: "('w, 'c) raft_env \<Rightarrow> 'c any \<Rightarrow> int \<Rightarrow> bool" where
  "accepted env cmd index \<longleftrightarrow> (\<exists>i w t w'. Start env i cmd w = ((index, t, True), w'))"

lemma try_start_accepted:
  "try_start env cmd n k starts w = (index, starts', w') \<Longrightarrow> index \<noteq> -1 \<Longrightarrow> accepted env cmd index"
proof (induction k arbitrary: starts w)
  case (Suc k)
  show ?case
  proof (cases "peer env ((starts + 1) mod n) w")
    case True
    obtain i t lead w1 where s: "Start env ((starts + 1) mod n) cmd w = ((i, t, lead), w1)" by (metis surj_pair)
    with True Suc show ?thesis by (cases lead) (auto simp: accepted_def Let_def)
  next
    case False
    with Suc show ?thesis by (simp add: Let_def)
  qed
qed simp

definition agree_ok :: "('w, 'c) raft_env \<Rightarrow> 'c any \<Rightarrow> int \<Rightarrow> int \<Rightarrow> 'c one_error + bool \<times> 'w \<Rightarrow> bool" where
  "agree_ok env cmd expectedServers index r \<longleftrightarrow> (\<forall>w'. r = Inr (True, w') \<longrightarrow>
     0 < card (committers (rt env w') index cmd) \<and> expectedServers \<le> int (card (committers (rt env w') index cmd)))"

lemma agree_loop_sound: "agree_loop env cmd expectedServers t1 index w = Some r \<Longrightarrow> agree_ok env cmd expectedServers index r"
proof (rule agree_loop.raw_induct [where P = "\<lambda>env cmd n t1 i w r. agree_ok env cmd n i r"], goal_cases)
  case (1 rec env cmd n t1 i w r)
  then show ?case
    by (auto simp: agree_ok_def split: if_splits sum.splits dest: nCommitted_exact)
qed

definition one_ok :: "('w, 'c) raft_env \<Rightarrow> 'c any \<Rightarrow> int \<Rightarrow> 'c one_error + int \<times> 'w \<Rightarrow> bool" where
  "one_ok env cmd expectedServers r \<longleftrightarrow> (\<forall>index w'. r = Inr (index, w') \<longrightarrow>
     index = -1 \<and> finished env w' \<or>
     index \<noteq> -1 \<and> accepted env cmd index \<and> agree_ok env cmd expectedServers index (Inr (True, w')))"

lemma one_loop_sound: "one_loop env cmd expectedServers retry t0 starts w = Some r \<Longrightarrow> one_ok env cmd expectedServers r"
proof (rule one_loop.raw_induct [where P = "\<lambda>env cmd n rt t0 s w r. one_ok env cmd n r"], goal_cases)
  case (1 rec env cmd n retry t0 starts w r)
  note IH = 1(2) and body = 1(3)
  obtain index starts' w1 where t: "try_start env cmd (n_srvs env w) (n_srvs env w) starts w = (index, starts', w1)"
    by (metis prod_cases3)
  show ?case
  proof (cases "clock env w - t0 < 10 * sec \<and> \<not> finished env w \<and> index \<noteq> -1")
    case True
    with body t obtain a where a: "agree_loop env cmd n (clock env w1) index w1 = Some a"
      by (auto split: option.splits)
    from True try_start_accepted [OF t] have acc: "accepted env cmd index" by blast
    show ?thesis
    proof (cases a)
      case (Inl e)
      with True body t a show ?thesis by (auto simp: one_ok_def)
    next
      case (Inr aw)
      then obtain agreed w2 where r: "a = Inr (agreed, w2)" by (cases aw) auto
      consider "agreed" | "\<not> agreed" "\<not> retry" | "\<not> agreed" "retry" by blast
      then show ?thesis
      proof cases
        case 1
        with True body t a r have "r = Inr (index, w2)" by simp
        with True a 1 acc agree_loop_sound [OF a] \<open>a = Inr (agreed, w2)\<close> show ?thesis by (simp add: one_ok_def)
      next
        case 2
        with True body t a r show ?thesis by (auto simp: one_ok_def)
      next
        case 3
        with True body t a r have "rec env cmd n retry t0 starts' w2 = Some r" by simp
        then show ?thesis by (rule IH)
      qed
    qed
  next
    case False
    show ?thesis
    proof (cases "clock env w - t0 < 10 * sec \<and> \<not> finished env w")
      case True
      with False body t have "rec env cmd n retry t0 starts' (Sleep env (50 * ms) w1) = Some r" by simp
      then show ?thesis by (rule IH)
    next
      case False
      with body show ?thesis by (auto simp: one_ok_def split: if_splits)
    qed
  qed
qed
subsection \<open>The loops end\<close>

text \<open>What the loops need of the world: a sleep takes at least as long as it is asked to, and a call
  of \<open>Start\<close> does not turn the clock back.\<close>

locale raft_clock =
  fixes env :: "('w, 'c) raft_env"
  assumes sleep_passes: "0 \<le> d \<Longrightarrow> clock env w + d \<le> clock env (Sleep env d w)"
    and start_forward: "Start env i cmd w = (r, w') \<Longrightarrow> clock env w \<le> clock env w'"
begin

lemma try_start_forward: "try_start env cmd n k starts w = (index, starts', w') \<Longrightarrow> clock env w \<le> clock env w'"
proof (induction k arbitrary: starts w)
  case (Suc k)
  obtain i t lead w1 where s: "Start env ((starts + 1) mod n) cmd w = ((i, t, lead), w1)" by (metis surj_pair)
  with start_forward have "clock env w \<le> clock env w1" by blast
  with Suc s show ?case by (fastforce simp: Let_def split: if_splits)
qed simp

lemma agree_loop_ends:
  "\<exists>r. agree_loop env cmd n t1 index w = Some r \<and>
    (\<forall>b w'. r = Inr (b, w') \<longrightarrow> clock env w \<le> clock env w' \<and> (\<not> b \<longrightarrow> t1 + 2 * sec \<le> clock env w'))"
proof (induction "nat (t1 + 2 * sec - clock env w)" arbitrary: w rule: less_induct)
  case less
  show ?case
  proof (cases "clock env w - t1 < 2 * sec")
    case True
    let ?w = "Sleep env (20 * ms) w"
    have w: "clock env w + 20 * ms \<le> clock env ?w" by (rule sleep_passes) simp
    with True have "nat (t1 + 2 * sec - clock env ?w) < nat (t1 + 2 * sec - clock env w)" by simp
    from less [OF this] w True show ?thesis
      by (subst agree_loop.simps) (fastforce split: sum.splits prod.splits)
  qed (subst agree_loop.simps, simp)
qed

lemma one_loop_ends: "\<exists>r. one_loop env cmd n retry t0 starts w = Some r"
proof (induction "nat (t0 + 10 * sec - clock env w)" arbitrary: starts w rule: less_induct)
  case less
  show ?case
  proof (cases "clock env w - t0 < 10 * sec \<and> finished env w = False")
    case True
    obtain index starts' w1 where t: "try_start env cmd (n_srvs env w) (n_srvs env w) starts w = (index, starts', w1)"
      by (metis prod_cases3)
    from try_start_forward [OF t] have w1: "clock env w \<le> clock env w1" .
    have later: "\<exists>r. one_loop env cmd n retry t0 starts' w2 = Some r" if "clock env w < clock env w2" for w2
      by (rule less) (use that True in simp)
    show ?thesis
    proof (cases "index = -1")
      case a: True
      have "clock env w1 + 50 * ms \<le> clock env (Sleep env (50 * ms) w1)" by (rule sleep_passes) simp
      with w1 later [of "Sleep env (50 * ms) w1"] True t a show ?thesis
        by (subst one_loop.simps) simp
    next
      case a: False
      from agree_loop_ends [of cmd n "clock env w1" index w1] obtain r where
        r: "agree_loop env cmd n (clock env w1) index w1 = Some r"
          "\<forall>b w'. r = Inr (b, w') \<longrightarrow> \<not> b \<longrightarrow> clock env w1 + 2 * sec \<le> clock env w'" by blast
      show ?thesis
      proof (cases "\<exists>w2. r = Inr (False, w2)")
        case b: True
        then obtain w2 where w2: "r = Inr (False, w2)" by blast
        with r(2) have "clock env w1 + 2 * sec \<le> clock env w2" by blast
        with w1 have "clock env w < clock env w2" by linarith
        from later [OF this] True t a r(1) w2 show ?thesis by (cases retry) (subst one_loop.simps, simp)+
      next
        case b: False
        with True t a r(1) show ?thesis by (subst one_loop.simps) (auto split: sum.splits)
      qed
    qed
  qed (subst one_loop.simps, auto)
qed

end

subsection \<open>Unmodified peers\<close>

text \<open>The world of a test whose peers are the skeletons: while the tester sleeps only time passes.\<close>

record 'c stub_world =
  sw_peers :: "Raft option list"
  sw_connected :: "bool list"
  sw_rt :: "'c RaftTest"
  sw_now :: int
  sw_finished :: bool

definition stub_env :: "('c stub_world, 'c) raft_env" where
  "stub_env = \<lparr>rt = sw_rt, clock = sw_now, finished = sw_finished,
     peer = (\<lambda>i w. i < length (sw_connected w) \<and> sw_connected w ! i \<and> i < length (sw_peers w) \<and> sw_peers w ! i \<noteq> None),
     Start = (\<lambda>i cmd w. (raft_Start cmd (the (sw_peers w ! i)), w)),
     peer_term = (\<lambda>i w. if i < length (sw_peers w) then map_option (\<lambda>rf. fst (GetState rf)) (sw_peers w ! i) else None),
     Sleep = (\<lambda>d w. w\<lparr>sw_now := sw_now w + d\<rparr>)\<rparr>"

interpretation stub_raft: raft_clock stub_env
  by unfold_locales (auto simp: stub_env_def)

lemma stub_try_start: "\<exists>starts'. try_start stub_env cmd n k starts w = (-1, starts', w)"
  by (induction k arbitrary: starts) (auto simp: stub_env_def raft_Start_def Let_def)

text \<open>A skeleton says that it leads but gives no index: \<open>one\<close> keeps trying for ten seconds and fails.\<close>

theorem unmodified_one_times_out:
  "one stub_env cmd n retry w = Some (if sw_finished w then Inr (-1, w) else Inl TimedOut)"
proof -
  have "one_loop stub_env cmd n retry t0 starts w = Some (if sw_finished w then Inr (-1, w) else Inl TimedOut)"
    if "\<not> sw_finished w" for t0 starts w
    using that
  proof (induction "nat (t0 + 10 * sec - sw_now w)" arbitrary: starts w rule: less_induct)
    case less
    obtain starts' where t: "try_start stub_env cmd (n_srvs stub_env w) (n_srvs stub_env w) starts w = (-1, starts', w)"
      using stub_try_start by blast
    have e: "clock stub_env w = sw_now w" "finished stub_env w = sw_finished w" "Sleep stub_env d w = w\<lparr>sw_now := sw_now w + d\<rparr>" for d
      by (simp_all add: stub_env_def)
    have "one_loop stub_env cmd n retry t0 starts' (w\<lparr>sw_now := sw_now w + 50 * ms\<rparr>) = Some (Inl TimedOut)"
      if "sw_now w - t0 < 10 * sec"
      using less.hyps [of "w\<lparr>sw_now := sw_now w + 50 * ms\<rparr>" starts'] less.prems that by simp
    then show ?case using less.prems by (subst one_loop.simps) (simp add: t e)
  qed
  then show ?thesis
    by (cases "sw_finished w") (simp_all add: one_def, subst one_loop.simps, simp add: stub_env_def)
qed

subsection \<open>How long wait takes\<close>

fun pauses :: "nat \<Rightarrow> int \<Rightarrow> int" where
  "pauses 0 to = 0"
| "pauses (Suc k) to = to + pauses k (if to < sec then to * 2 else to)"

lemma pauses_nonneg: "0 \<le> to \<Longrightarrow> 0 \<le> pauses k to"
  by (induction k arbitrary: to) auto

lemma wait_loop_time:
  assumes "\<And>d w. 0 \<le> d \<Longrightarrow> clock env (Sleep env d w) = clock env w + d" and "0 \<le> to"
    and "wait_loop env index n startTerm to k w = Inr (b, w')"
  shows "clock env w' \<le> clock env w + pauses k to"
  using assms(2,3)
proof (induction k arbitrary: to w)
  case (Suc k)
  obtain nd cmd where nd: "nCommitted index (rt env w) = Inr (nd, cmd)"
    using Suc.prems(2) by (auto split: sum.splits)
  let ?w = "Sleep env to w" and ?to = "if to < sec then to * 2 else to"
  consider "w' = w" | "w' = ?w" | "wait_loop env index n startTerm ?to k ?w = Inr (b, w')"
    using Suc.prems(2) nd by (auto simp: Let_def split: if_splits sum.splits bool.splits)
  then show ?case
  proof cases
    case 3
    with Suc.IH [of ?to ?w] Suc.prems(1) assms(1) [of to w] show ?thesis by (cases "to < sec") simp_all
  qed (use Suc.prems(1) assms(1) [of to w] pauses_nonneg [of ?to k] in auto)
qed simp

lemma pauses_of_wait: "pauses 30 (10 * ms) = 30710 * ms"
  by (simp add: eval_nat_numeral)

definition wait_end :: "('w, 'c) raft_env \<Rightarrow> int \<Rightarrow> int \<Rightarrow> bool \<Rightarrow> 'w \<Rightarrow> 'c one_error + 'c any option \<times> 'w" where
  "wait_end env index n b w' = (if b then Inr (None, w') else (case nCommitted index (rt env w') of
      Inl e \<Rightarrow> Inl (CheckFailed e)
    | Inr (nd, cmd) \<Rightarrow> if int nd < n then Inl (TooFew nd) else Inr (Some cmd, w')))"

lemma wait_cases:
  assumes "wait env index n startTerm w = Inr (res, w')"
  obtains b where "wait_loop env index n startTerm (10 * ms) 30 w = Inr (b, w')" "wait_end env index n b w' = Inr (res, w')"
proof (cases "wait_loop env index n startTerm (10 * ms) 30 w")
  case (Inl e)
  with assms show ?thesis by (simp add: wait_def)
next
  case (Inr r)
  then obtain b w1 where r: "wait_loop env index n startTerm (10 * ms) 30 w = Inr (b, w1)" by (cases r) simp
  with assms have e: "wait_end env index n b w1 = Inr (res, w')" by (cases b) (simp_all add: wait_def wait_end_def)
  then have "w1 = w'" by (auto simp: wait_end_def split: if_splits sum.splits prod.splits)
  with r e that show ?thesis by blast
qed

lemma wait_sound:
  assumes "wait env index n startTerm w = Inr (Some cmd, w')"
  shows "n \<le> int (card (committers (rt env w') index cmd))"
proof -
  from assms obtain b where "wait_end env index n b w' = Inr (Some cmd, w')" by (rule wait_cases)
  then obtain nd where "nCommitted index (rt env w') = Inr (nd, cmd)" "n \<le> int nd"
    by (auto simp: wait_end_def split: if_splits sum.splits prod.splits)
  with nCommitted_exact show ?thesis by metis
qed

subsection \<open>Properties\<close>


text \<open>A world where a leader commits at once: every server's log gets the command at the next index.\<close>

definition eager_env :: "(nat RaftTest \<times> int, nat) raft_env" where
  "eager_env = \<lparr>rt = fst, clock = snd, finished = (\<lambda>w. False), peer = (\<lambda>i w. i = 1),
     Start = (\<lambda>i cmd (ts, t). ((maxIndex ts + 1, 1, True),
       (ts\<lparr>t_srvs := map (\<lambda>rs. rs\<lparr>logs := (logs rs)(maxIndex ts + 1 \<mapsto> cmd)\<rparr>) (t_srvs ts), maxIndex := maxIndex ts + 1\<rparr>, t))),
     peer_term = (\<lambda>i w. Some 1), Sleep = (\<lambda>d (ts, t). (ts, t + d))\<rparr>"

definition eager_start :: "nat RaftTest \<times> int" where
  "eager_start = (\<lparr>t_srvs = [fresh_srv, fresh_srv, fresh_srv], maxIndex = 0\<rparr>, 0)"

definition eager_done :: "nat RaftTest \<times> int" where
  "eager_done = (\<lparr>t_srvs = map (\<lambda>rs. rs\<lparr>logs := (logs rs)(1 \<mapsto> Some 7)\<rparr>) [fresh_srv, fresh_srv, fresh_srv], maxIndex = 1\<rparr>, 0)"

lemma eager_one: "one eager_env (Some 7) 3 False eager_start = Some (Inr (1, eager_done))"
proof -
  have n: "n_srvs eager_env eager_start = 3" by (simp add: n_srvs_def eager_env_def eager_start_def)
  have "try_start eager_env (Some 7) 3 (Suc 2) 0 eager_start = (1, 1, eager_done)"
    by (subst try_start.simps) (simp add: eager_env_def eager_start_def eager_done_def)
  then have t: "try_start eager_env (Some 7) 3 3 0 eager_start = (1, 1, eager_done)" by simp
  have "nCommitted 1 (fst eager_done) = Inr (3, Some 7)"
    by (simp add: nCommitted_def eager_done_def fresh_srv_def)
  then have "agree_loop eager_env (Some 7) 3 0 1 eager_done = Some (Inr (True, eager_done))"
    by (subst agree_loop.simps) (simp add: eager_env_def eager_done_def)
  moreover have "clock eager_env eager_start = 0" "clock eager_env eager_done = 0" "finished eager_env eager_start = False"
    by (simp_all add: eager_env_def eager_start_def eager_done_def)
  ultimately show ?thesis by (simp add: one_def) (subst one_loop.simps, simp add: n t)
qed




end
