(* ===== verification/Raft_Setup.thy ===== *)
theory Raft_Setup
  imports Raft_Tester Rsm_Tester Test_Config
begin

section \<open>How the Raft tests set up, restart and end (raft1/test.go, kvraft1/rsm/test.go)\<close>

text \<open>
  A Raft test is a \<open>Config\<close> with one group, whose servers are the tester's own server around a Raft
  peer, and a table of those servers. Starting a server calls the test's \<open>mksrv\<close>, which puts a new
  server into the table; it reads the persister of the server that is being started. In the model
  the group starts the services first (they are pointers, \<open>Rfsrv\<close> and \<open>Peer\<close>), and the table is
  filled after it, server by server: the two do not look at each other's state.
  Making a Raft peer is a parameter, as are the random names and the decoding of snapshots.
\<close>

datatype 'rf raft_service = Rfsrv nat | Peer 'rf

datatype 'c setup_fail = SetupCfg cfg_fail | SetupApply "'c apply_error"

record ('c, 'svc, 'w) raft_test =
  rt_cfg :: "('svc, 'w) Config"
  rt_n :: nat
  rt_finished :: bool
  rt_srvs :: "'c rfsrv option list"
  rt_maxIndex :: int
  rt_snapshot :: bool

text \<open>The services of a server: the tester's own, and its peer, nil if another Raft is plugged in.\<close>

definition raft_services ::
  "bool \<Rightarrow> (ename list \<Rightarrow> nat \<Rightarrow> nat \<Rightarrow> 'rf) \<Rightarrow> 'rf raft_service mks" where
  "raft_services useRaftStateMachine raft_Make es g i p =
     [Some (Rfsrv (nat i)), (if useRaftStateMachine then None else Some (Peer (raft_Make es (nat i) p)))]"

text \<open>The new server in the table of the test, from the persister of server \<open>i\<close>; with snapshots the
  persister is read, which hands out a copy.\<close>

definition saved_bytes :: "nat \<Rightarrow> pstore \<Rightarrow> bytes \<times> pstore" where
  "saved_bytes p st = (case ReadSnapshot p st of (sl, st') \<Rightarrow> (contents (heap st') sl, st'))"

definition with_store :: "pstore \<Rightarrow> ('svc, 'w) Config \<Rightarrow> ('svc, 'w) Config" where
  "with_store st c = c\<lparr>cf_groups := (cf_groups c)\<lparr>genv := (genv (cf_groups c))\<lparr>store := st\<rparr>\<rparr>\<rparr>"

definition table_entry ::
  "'c snap_dec \<Rightarrow> nat \<Rightarrow> ('c, 'svc, 'w) raft_test \<Rightarrow> 'c setup_fail + ('c, 'svc, 'w) raft_test" where
  "table_entry dec i ts = (case Config_Group GRP0 (rt_cfg ts) of
      None \<Rightarrow> Inl (SetupCfg (CGroup NilGroup))
    | Some sg \<Rightarrow> (case saved (srvs sg ! i) of
        None \<Rightarrow> Inl (SetupCfg (CGroup NilPersister))
      | Some p \<Rightarrow>
          (let (sn, ts1) = (if rt_snapshot ts then
                 (case saved_bytes p (store (genv (cf_groups (rt_cfg ts)))) of
                    (b, st) \<Rightarrow> (Some b, ts\<lparr>rt_cfg := with_store st (rt_cfg ts)\<rparr>))
               else (None, ts))
           in case newRfsrv dec i (rt_snapshot ts) sn of
                Inl e \<Rightarrow> Inl (SetupApply e)
              | Inr rs \<Rightarrow> Inr (ts1\<lparr>rt_srvs := (rt_srvs ts1)[i := Some rs]\<rparr>))))"

definition raft_makeTest ::
  "bool \<Rightarrow> (ename list \<Rightarrow> nat \<Rightarrow> nat \<Rightarrow> 'rf) \<Rightarrow> 'c snap_dec \<Rightarrow> ('rf raft_service option \<Rightarrow> 'w Service) \<Rightarrow>
   (nat \<Rightarrow> nat \<Rightarrow> ename) \<Rightarrow> (int \<Rightarrow> nat \<Rightarrow> ename) \<Rightarrow> int \<Rightarrow> Annotation \<Rightarrow> nat \<Rightarrow> bool \<Rightarrow> bool \<Rightarrow>
   'c setup_fail + ('c, 'rf raft_service, 'w) raft_test" where
  "raft_makeTest useRSM raft_Make dec svcOf rnd rnd' tm an n rel snaps =
     (case MakeConfig (raft_services useRSM raft_Make) svcOf rnd rnd' n rel tm an of
        Inl e \<Rightarrow> Inl (SetupCfg e)
      | Inr cfg \<Rightarrow> map_sum id (\<lambda>ts. ts\<lparr>rt_cfg := SetLongDelays True (rt_cfg ts)\<rparr>)
          (each (table_entry dec) [0..<n]
            \<lparr>rt_cfg = cfg, rt_n = n, rt_finished = False, rt_srvs = replicate n None, rt_maxIndex = 0, rt_snapshot = snaps\<rparr>))"

definition on_grp0 ::
  "(('svc, 'w) ge \<Rightarrow> grp_error + ('svc, 'w) ge) \<Rightarrow> ('c, 'svc, 'w) raft_test \<Rightarrow> 'c setup_fail + ('c, 'svc, 'w) raft_test" where
  "on_grp0 f ts = map_sum SetupCfg (\<lambda>c. ts\<lparr>rt_cfg := c\<rparr>) (on_groups (on_group GRP0 f) (rt_cfg ts))"

text \<open>Starting a server again, and connecting everyone.\<close>

definition raft_restart ::
  "bool \<Rightarrow> (ename list \<Rightarrow> nat \<Rightarrow> nat \<Rightarrow> 'rf) \<Rightarrow> 'c snap_dec \<Rightarrow> ('rf raft_service option \<Rightarrow> 'w Service) \<Rightarrow>
   (nat \<Rightarrow> ename) \<Rightarrow> nat \<Rightarrow> ('c, 'rf raft_service, 'w) raft_test \<Rightarrow> 'c setup_fail + ('c, 'rf raft_service, 'w) raft_test" where
  "raft_restart useRSM raft_Make dec svcOf rnd i ts =
     (case on_grp0 (StartServer (raft_services useRSM raft_Make) svcOf rnd (int i)) ts of
        Inl e \<Rightarrow> Inl e
      | Inr ts1 \<Rightarrow> (case table_entry dec i ts1 of
          Inl e \<Rightarrow> Inl e
        | Inr ts2 \<Rightarrow> on_grp0 (on_net ConnectAll) ts2))"

text \<open>The end of a test; \<open>End\<close> returns the numbers it prints.\<close>

definition test_cleanup ::
  "string \<Rightarrow> string \<Rightarrow> bool \<Rightarrow> (string \<times> Continuous) list \<Rightarrow> int \<Rightarrow> int \<Rightarrow> int \<Rightarrow> ('svc, 'w) Config \<Rightarrow>
   cfg_fail + (int \<times> nat \<times> int \<times> int) option \<times> vis \<times> ('svc, 'w) Config" where
  "test_cleanup vis_enable fpath opened order t t' tm c = (case End tm c of
      Inl e \<Rightarrow> Inl e
    | Inr line \<Rightarrow> (case Config_Cleanup vis_enable fpath opened order t t' tm c of
        Inl e \<Rightarrow> Inl e
      | Inr (v, c') \<Rightarrow> (case CheckTimeout tm c' of Inl e \<Rightarrow> Inl e | Inr _ \<Rightarrow> Inr (line, v, c'))))"

definition raft_cleanup ::
  "string \<Rightarrow> string \<Rightarrow> bool \<Rightarrow> (string \<times> Continuous) list \<Rightarrow> int \<Rightarrow> int \<Rightarrow> int \<Rightarrow> ('c, 'svc, 'w) raft_test \<Rightarrow>
   cfg_fail + (int \<times> nat \<times> int \<times> int) option \<times> vis \<times> ('c, 'svc, 'w) raft_test" where
  "raft_cleanup vis_enable fpath opened order t t' tm ts =
     map_sum id (\<lambda>(line, v, c). (line, v, ts\<lparr>rt_finished := True, rt_cfg := c\<rparr>))
       (test_cleanup vis_enable fpath opened order t t' tm (rt_cfg ts))"

subsection \<open>The replicated state machine\<close>

text \<open>Its servers are registered by their Raft peer alone.\<close>

record ('rf, 'w) rsm_test =
  rs_cfg :: "('rf, 'w) Config"
  rs_maxraftstate :: int
  rs_srvs :: "'rf rsmSrv option list"
  rs_leader :: int

definition rsm_services :: "bool \<Rightarrow> (ename list \<Rightarrow> nat \<Rightarrow> nat option \<Rightarrow> 'rf) \<Rightarrow> int \<Rightarrow> 'rf mks" where
  "rsm_services useRSM raft_Make maxraftstate es g i p =
     (case rsm_mksrv useRSM raft_Make maxraftstate es (nat i) (Some p) [] of
        (Inr ss, _) \<Rightarrow> ss
      | (Inl _, _) \<Rightarrow> [None])"

fun rsm_table :: "bool \<Rightarrow> (ename list \<Rightarrow> nat \<Rightarrow> nat option \<Rightarrow> 'rf) \<Rightarrow> int \<Rightarrow> (nat \<times> 'svc Srv) list \<Rightarrow>
  'rf rsmSrv option list \<Rightarrow> 'rf rsmSrv option list" where
  "rsm_table useRSM raft_Make maxraftstate [] tsrvs = tsrvs"
| "rsm_table useRSM raft_Make maxraftstate ((i, s) # ss) tsrvs =
     rsm_table useRSM raft_Make maxraftstate ss
       (snd (rsm_mksrv useRSM raft_Make maxraftstate (endNames s) i (saved s) tsrvs))"

definition rsm_makeTest ::
  "bool \<Rightarrow> (ename list \<Rightarrow> nat \<Rightarrow> nat option \<Rightarrow> 'rf) \<Rightarrow> ('rf option \<Rightarrow> 'w Service) \<Rightarrow> (nat \<Rightarrow> nat \<Rightarrow> ename) \<Rightarrow>
   (int \<Rightarrow> nat \<Rightarrow> ename) \<Rightarrow> int \<Rightarrow> Annotation \<Rightarrow> int \<Rightarrow> cfg_fail + ('rf, 'w) rsm_test" where
  "rsm_makeTest useRSM raft_Make svcOf rnd rnd' tm an maxraftstate =
     (case MakeConfig (rsm_services useRSM raft_Make maxraftstate) svcOf rnd rnd' 3 True tm an of
        Inl e \<Rightarrow> Inl e
      | Inr cfg \<Rightarrow> (case Config_Group GRP0 cfg of
          None \<Rightarrow> Inl (CGroup NilGroup)
        | Some sg \<Rightarrow> Inr \<lparr>rs_cfg = cfg, rs_maxraftstate = maxraftstate,
            rs_srvs = rsm_table useRSM raft_Make maxraftstate (enumerate 0 (srvs sg)) (replicate 3 None), rs_leader = 0\<rparr>))"
subsection \<open>A new test is ready\<close>

text \<open>New servers have persisters of their own, without a snapshot.\<close>

definition blank :: "('svc, 'w) ge \<Rightarrow> bool" where
  "blank ge \<longleftrightarrow> (\<forall>p \<in> set (persisters (store (snd ge))). snapshot p = NilSlice) \<and>
     (\<forall>s \<in> set (srvs (fst ge)). \<forall>p. saved s = Some p \<longrightarrow> p < length (persisters (store (snd ge))))"

lemma copy_or_make_blank:
  assumes "\<forall>p \<in> set (persisters st). snapshot p = NilSlice" and "\<forall>p. sv = Some p \<longrightarrow> p < length (persisters st)"
    and "(case sv of Some p \<Rightarrow> Persister_Copy p st | None \<Rightarrow> MakePersister st) = (np, st')"
  shows "(\<forall>p \<in> set (persisters st'). snapshot p = NilSlice) \<and> np < length (persisters st') \<and> length (persisters st) \<le> length (persisters st')"
  using assms by (cases sv) (auto simp: MakePersister_def Persister_Copy_def)

lemma StartServer_blank:
  assumes "StartServer mks svcOf rnd (int i) ge = Inr ge'" and "blank ge"
  shows "blank ge' \<and> length (srvs (fst ge')) = length (srvs (fst ge)) \<and> saved (srvs (fst ge') ! i) \<noteq> None \<and>
    (\<forall>j. j \<noteq> i \<longrightarrow> srvs (fst ge') ! j = srvs (fst ge) ! j)"
proof -
  obtain sg v where ge: "ge = (sg, v)" by force
  obtain np st where cp: "(case saved (srvs sg ! i) of Some p \<Rightarrow> Persister_Copy p (store v) | None \<Rightarrow> MakePersister (store v)) = (np, st)"
    by force
  from assms(1) ge cp obtain s' v' where r: "i < length (srvs sg)" "ge' = (sg\<lparr>srvs := (srvs sg)[i := s']\<rparr>, v')"
    "saved s' = Some np" "store v' = st"
    by (auto simp: StartServer_def startServer_def makeServer_def andthen_Inr at_Inr in_range_def Let_def
        case_prod_beta simp del: at_int)
  have "\<forall>p. saved (srvs sg ! i) = Some p \<longrightarrow> p < length (persisters (store v))"
    using assms(2) r(1) ge by (auto simp: blank_def)
  with copy_or_make_blank [OF _ this cp] assms(2) ge
  have "(\<forall>p \<in> set (persisters st). snapshot p = NilSlice) \<and> np < length (persisters st) \<and> length (persisters (store v)) \<le> length (persisters st)"
    by (auto simp: blank_def)
  then show ?thesis using assms(2) r ge
    by (auto simp: blank_def nth_list_update dest!: set_update_subset_insert [THEN subsetD] intro: less_le_trans)
qed

lemma connect_srvs: "connect i ts (sg, rn) = Inr (sg', rn') \<Longrightarrow> srvs sg' = srvs sg"
  by (auto simp: connect_def andthen_Inr Let_def)

lemma ConnectAll_srvs:
  assumes "ConnectAll gn = Inr gn'"
  shows "srvs (fst gn') = srvs (fst gn)"
  using assms unfolding ConnectAll_def
  by (rule each_invariant) (auto simp: ConnectOne_def dest!: connect_srvs)

lemma start_blank:
  assumes "start mks svcOf rnd (sg, v) = Inr ge'" and "blank (sg, v)"
  shows "blank ge' \<and> length (srvs (fst ge')) = length (srvs sg) \<and> (\<forall>s \<in> set (srvs (fst ge')). saved s \<noteq> None)"
proof -
  define P where "P k ge \<longleftrightarrow> blank ge \<and> length (srvs (fst ge)) = length (srvs sg) \<and>
    (\<forall>j < k. saved (srvs (fst ge) ! j) \<noteq> None)" for k and ge :: "('a, 'b) ge"
  have "each (\<lambda>i. StartServer mks svcOf (rnd (int i)) (int i)) [0..<k] (sg, v) = Inr ge \<Longrightarrow> P k ge" for k ge
  proof (induction k arbitrary: ge)
    case 0
    then show ?case using assms(2) by (auto simp: P_def)
  next
    case (Suc k)
    then obtain ge1 where g: "each (\<lambda>i. StartServer mks svcOf (rnd (int i)) (int i)) [0..<k] (sg, v) = Inr ge1"
      "StartServer mks svcOf (rnd (int k)) (int k) ge1 = Inr ge"
      by (auto simp: each_append split: sum.splits)
    with Suc.IH StartServer_blank [OF g(2)] show ?case by (auto simp: P_def less_Suc_eq)
  qed
  from this [of "length (srvs sg)" ge'] assms(1) have "P (length (srvs sg)) ge'"
    by (simp add: start_def all_def each_map)
  then show ?thesis by (auto simp: P_def in_set_conv_nth)
qed

lemma MakeConfig_blank:
  assumes "MakeConfig mks svcOf rnd rnd' n b tm an = Inr c" and "Config_Group GRP0 c = Some sg"
  shows "blank (sg, genv (cf_groups c)) \<and> (\<forall>s \<in> set (srvs sg). saved s \<noteq> None)"
proof -
  from assms(1) obtain gs0 gs where gs: "MakeGroup rnd GRP0 n (newGroups empty_env) = Inr gs0"
    "on_group GRP0 (StartServers mks svcOf rnd') gs0 = Inr gs"
    and c: "grps (cf_groups c) = grps gs" "store (genv (cf_groups c)) = store (genv gs)"
    by (auto simp: MakeConfig_def MakeGroupStart_def andthen_Inr SetReliable_def set_net_def split: sum.splits)
  from gs(1) obtain sg0 rn where sg0: "makeSrvGrp rnd GRP0 n MakeNetwork = Inr (sg0, rn)"
    and gs0: "map_of (grps gs0) GRP0 = Some sg0" "store (genv gs0) = init_pstore"
    by (auto simp: MakeGroup_def andthen_Inr newGroups_def empty_env_def)
  from gs(2) gs0 obtain ge where ge: "StartServers mks svcOf rnd' (sg0, genv gs0) = Inr ge"
    and gs': "map_of (grps gs) GRP0 = Some (fst ge)" "genv gs = snd ge"
    by (auto simp: on_group_def andthen_Inr update_conv')
  have "saved s = None" if "s \<in> set (srvs sg0)" for s
  proof -
    have none: "\<forall>s \<in> set ss. saved s = None" if "make_servers is rnd g k rn0 = Inr (ss, rn')"
      for "is" g k rn0 rn' and ss :: "'a Srv list"
      using that by (induction "is" arbitrary: rn0 ss) (auto simp: andthen_Inr makeServer_def Let_def)
    from sg0 obtain ss where "make_servers [0..<n] rnd GRP0 n MakeNetwork = Inr (ss, rn)" "srvs sg0 = ss"
      by (auto simp: makeSrvGrp_def andthen_Inr)
    with none that show ?thesis by blast
  qed
  then have bl: "blank (sg0, genv gs0)" using gs0(2) by (auto simp: blank_def init_pstore_def)
  from ge obtain ge1 where g1: "start mks svcOf rnd' (sg0, genv gs0) = Inr ge1" and g2: "on_net ConnectAll ge1 = Inr ge"
    by (auto simp: StartServers_def andthen_Inr)
  have "srvs (fst ge) = srvs (fst ge1)" "store (snd ge) = store (snd ge1)"
    using g2 ConnectAll_srvs by (force simp: on_net_def andthen_Inr split: prod.splits)+
  moreover have "sg = fst ge" using assms(2) c(1) gs'(1) by (simp add: Config_Group_def)
  ultimately show ?thesis using start_blank [OF g1 bl] c(2) gs'(2) by (simp add: blank_def)
qed
text \<open>Reading a persister does not change what it holds, nor anything but the heap.\<close>

lemma saved_bytes_eq:
  assumes "saved_bytes p st = (b, st')" and "pstore_inv st" and "valid_ptr st p"
  shows "b = snd (disk_of st ! p) \<and> persisters st' = persisters st \<and> pstore_inv st' \<and> disk_of st' = disk_of st"
proof -
  let ?x = "snapshot (persisters st ! p)"
  have x: "slice_ok (heap st) ?x" using assms(2,3) by (auto simp: pstore_inv_def)
  then have "length (contents (heap st) ?x) = slen ?x" by (cases ?x) auto
  with x assms(1,3) have "b = snd (disk_of st ! p)" "st' = snd (ReadSnapshot p st)"
    by (auto simp: saved_bytes_def ReadSnapshot_def clone_eq disk_of_nth)
  moreover have "persisters (snd (ReadSnapshot p st)) = persisters st"
    by (simp add: ReadSnapshot_def split: prod.split)
  ultimately show ?thesis using read_refines(2) [OF assms(2,3)] by simp
qed

lemma saved_bytes_blank:
  assumes "snapshot (persisters st ! p) = NilSlice"
  shows "\<exists>st'. saved_bytes p st = ([], st') \<and> persisters st' = persisters st"
  using assms by (simp add: saved_bytes_def ReadSnapshot_def clone_def Let_def copy_bytes_def)

lemma with_store_simps [simp]:
  "cf_net (with_store st c) = cf_net c" "Config_Group g (with_store st c) = Config_Group g c"
  "store (genv (cf_groups (with_store st c))) = st" "grps (cf_groups (with_store st c)) = grps (cf_groups c)"
  "IsReliable (with_store st c) = IsReliable c" "cf_clnts (with_store st c) = cf_clnts c"
  "with_store st (with_store st' c) = with_store st c"
  by (simp_all add: with_store_def cf_net_def Config_Group_def IsReliable_def)

lemma newRfsrv_empty [simp]: "newRfsrv dec i snaps None = Inr fresh_srv" "newRfsrv dec i snaps (Some []) = Inr fresh_srv"
  by (simp_all add: newRfsrv_def)

text \<open>Filling the table of a test whose persisters hold no snapshot.\<close>

lemma table_filled:
  assumes "Config_Group GRP0 cfg = Some sg" and "blank (sg, genv (cf_groups cfg))" and "\<forall>s \<in> set (srvs sg). saved s \<noteq> None"
    and "length (srvs sg) = n" and "rt_srvs ts = replicate n None" and "rt_cfg ts = cfg"
  shows "\<exists>st. each (table_entry dec) [0..<n] ts = Inr (ts\<lparr>rt_cfg := with_store st cfg, rt_srvs := replicate n (Some fresh_srv)\<rparr>)"
proof -
  let ?P = "\<lambda>ys h. \<exists>st. persisters st = persisters (store (genv (cf_groups cfg))) \<and>
    h = ts\<lparr>rt_cfg := with_store st cfg, rt_srvs := replicate (length ys) (Some fresh_srv) @ replicate (n - length ys) None\<rparr>"
  have "\<exists>h. each (table_entry dec) [0..<n] ts = Inr h \<and> ?P [0..<n] h"
  proof (rule each_succeeds [where P = ?P])
    show "?P [] ts" using assms(5,6)
      by (intro exI [of _ "store (genv (cf_groups cfg))"]) (simp add: with_store_def)
  next
    fix ys x zs h
    assume e: "[0..<n] = ys @ x # zs" and "?P ys h"
    then obtain st where st: "persisters st = persisters (store (genv (cf_groups cfg)))"
      and h: "h = ts\<lparr>rt_cfg := with_store st cfg, rt_srvs := replicate (length ys) (Some fresh_srv) @ replicate (n - length ys) None\<rparr>"
      by blast
    have lt: "length ys < n" using arg_cong [OF e, of length] by simp
    moreover have "x = length ys" using arg_cong [OF e, of "\<lambda>l. l ! length ys"] lt by simp
    ultimately have x: "x = length ys" "x < n" by simp_all
    obtain p where p: "saved (srvs sg ! x) = Some p" using assms(3,4) x(2) by (metis nth_mem option.exhaust)
    then have "p < length (persisters st)" "\<forall>q \<in> set (persisters st). snapshot q = NilSlice"
      using assms(2,4) x(2) st nth_mem [of x "srvs sg"] by (auto simp: blank_def)
    then have nil: "snapshot (persisters st ! p) = NilSlice" by simp
    have upd: "(replicate (length ys) a @ replicate (n - length ys) b)[x := a] =
        replicate (Suc (length ys)) a @ replicate (n - Suc (length ys)) b" for a b :: "'x option"
    proof -
      have "n - length ys = Suc (n - Suc (length ys))" using x by simp
      then show ?thesis by (simp add: x list_update_append replicate_app_Cons_same)
    qed
    from saved_bytes_blank [OF nil] obtain st' where st': "saved_bytes p st = ([], st')" "persisters st' = persisters st" by blast
    show "\<exists>h'. table_entry dec x h = Inr h' \<and> ?P (ys @ [x]) h'"
    proof (cases "rt_snapshot ts")
      case True
      have "table_entry dec x h = Inr (ts\<lparr>rt_cfg := with_store st' cfg, rt_srvs := replicate (Suc (length ys)) (Some fresh_srv) @ replicate (n - Suc (length ys)) None\<rparr>)"
        using True assms(1) p st'(1) by (simp add: table_entry_def h upd)
      then show ?thesis using st' st by (auto intro!: exI [of _ st'])
    next
      case False
      have "table_entry dec x h = Inr (ts\<lparr>rt_cfg := with_store st cfg, rt_srvs := replicate (Suc (length ys)) (Some fresh_srv) @ replicate (n - Suc (length ys)) None\<rparr>)"
        using False assms(1) p by (simp add: table_entry_def h upd)
      then show ?thesis using st by (auto intro!: exI [of _ st])
    qed
  qed
  then show ?thesis by auto
qed
lemma LongDelays_info [simp]:
  "readEndnameInfo (LongDelays b rn) e = readEndnameInfo rn e" "longDelays (LongDelays b rn) = b"
  by (simp_all add: readEndnameInfo_def LongDelays_def is_enabled_def connection_def server_at_def split: option.split)

lemma SetLongDelays_simps [simp]:
  "cf_net (SetLongDelays b c) = LongDelays b (cf_net c)" "Config_Group g (SetLongDelays b c) = Config_Group g c"
  by (simp_all add: SetLongDelays_def Config_Group_def)

text \<open>A new test, with or without snapshots: every server's table entry is a fresh server, every link
  is up, and the network makes calls to servers that cannot be reached wait long.\<close>

theorem raft_makeTest_ready:
  fixes svcOf :: "'rf raft_service option \<Rightarrow> 'w Service" and dec :: "'c snap_dec"
  assumes "fresh_names rnd n MakeNetwork" and "fresh_names (\<lambda>i. rnd' (int i)) n MakeNetwork"
    and "\<forall>i < n. \<forall>j < n. \<forall>i' < n. \<forall>j' < n. rnd i j \<noteq> rnd' (int i') j'"
  shows "\<exists>ts sg. raft_makeTest useRSM raft_Make dec svcOf rnd rnd' tm an n b snaps = Inr ts \<and>
    rt_srvs ts = replicate n (Some fresh_srv) \<and> longDelays (cf_net (rt_cfg ts)) \<and>
    Config_Group GRP0 (rt_cfg ts) = Some sg \<and> length (srvs sg) = n \<and>
    (\<forall>i < n. \<forall>j < n. i_enabled (readEndnameInfo (cf_net (rt_cfg ts)) (link sg i j)) \<and>
       i_server (readEndnameInfo (cf_net (rt_cfg ts)) (link sg i j)) = Some j)"
proof -
  have "\<exists>c sg. MakeConfig (raft_services useRSM raft_Make) svcOf rnd rnd' n b tm an = Inr c \<and>
    map_of (grps (cf_groups c)) GRP0 = Some sg \<and> length (srvs sg) = n \<and>
    (\<forall>i < n. \<forall>j < n. i_enabled (readEndnameInfo (cf_net c) (link sg i j)) \<and>
       i_server (readEndnameInfo (cf_net c) (link sg i j)) = Some j)"
    using MakeConfig_links [OF assms, of "raft_services useRSM raft_Make" svcOf b tm an] by fastforce
  then obtain c and sg :: "'rf raft_service ServerGrp" where
    c: "MakeConfig (raft_services useRSM raft_Make) svcOf rnd rnd' n b tm an = Inr c" "Config_Group GRP0 c = Some sg" "length (srvs sg) = n"
      "\<forall>i < n. \<forall>j < n. i_enabled (readEndnameInfo (cf_net c) (link sg i j)) \<and> i_server (readEndnameInfo (cf_net c) (link sg i j)) = Some j"
    by (auto simp: Config_Group_def)
  from MakeConfig_blank [OF c(1,2)] table_filled [OF c(2), of n
      "\<lparr>rt_cfg = c, rt_n = n, rt_finished = False, rt_srvs = replicate n None, rt_maxIndex = 0, rt_snapshot = snaps\<rparr>" dec] c(3)
  obtain st where st: "each (table_entry dec) [0..<n]
      \<lparr>rt_cfg = c, rt_n = n, rt_finished = False, rt_srvs = replicate n None, rt_maxIndex = 0, rt_snapshot = snaps\<rparr> =
    Inr \<lparr>rt_cfg = with_store st c, rt_n = n, rt_finished = False, rt_srvs = replicate n (Some fresh_srv), rt_maxIndex = 0, rt_snapshot = snaps\<rparr>"
    by auto
  show ?thesis
    using c st by (auto simp: raft_makeTest_def)
qed
subsection \<open>Restarting a server\<close>

lemma on_grp0_Inr:
  assumes "Config_Group GRP0 (rt_cfg ts) = Some sg" and "f (sg, genv (cf_groups (rt_cfg ts))) = Inr (sg', v)"
  shows "\<exists>ts'. on_grp0 f ts = Inr ts' \<and> Config_Group GRP0 (rt_cfg ts') = Some sg' \<and> genv (cf_groups (rt_cfg ts')) = v \<and>
    rt_srvs ts' = rt_srvs ts \<and> rt_snapshot ts' = rt_snapshot ts"
  using assms by (simp add: on_grp0_def on_groups_def on_group_def Config_Group_def update_conv')

lemma table_entry_Inr:
  assumes "Config_Group GRP0 (rt_cfg ts) = Some sg" and "saved (srvs sg ! i) = Some p"
    and "pstore_inv (store (genv (cf_groups (rt_cfg ts))))" and "valid_ptr (store (genv (cf_groups (rt_cfg ts)))) p"
    and "newRfsrv dec i (rt_snapshot ts) (Some (snd (disk_of (store (genv (cf_groups (rt_cfg ts)))) ! p))) = Inr rs"
  shows "\<exists>st. table_entry dec i ts = Inr (ts\<lparr>rt_cfg := with_store st (rt_cfg ts), rt_srvs := (rt_srvs ts)[i := Some rs]\<rparr>)"
proof (cases "rt_snapshot ts")
  case True
  obtain b st where sb: "saved_bytes p (store (genv (cf_groups (rt_cfg ts)))) = (b, st)" by force
  from saved_bytes_eq [OF this assms(3,4)] True assms sb show ?thesis by (auto simp: table_entry_def)
next
  case False
  then show ?thesis using assms(1,2,5)
    by (intro exI [of _ "store (genv (cf_groups (rt_cfg ts)))"]) (simp add: table_entry_def newRfsrv_def with_store_def)
qed

text \<open>Restarting a server of a test: it gets new ends and is connected with everyone, its entry in the
  table is made from what its persister held, and the other entries stay as they are.\<close>

theorem raft_restart_recovers:
  fixes ts :: "('c, 'rf raft_service, 'w) raft_test"
  assumes g: "Config_Group GRP0 (rt_cfg ts) = Some sg" and w: "wired sg (cf_net (rt_cfg ts))" and i: "i < length (srvs sg)"
    and names: "inj_on rnd {..<length (srvs sg)}" "\<forall>j < length (srvs sg). \<not> end_exists (cf_net (rt_cfg ts)) (rnd j)"
    and p: "saved (srvs sg ! i) = Some p" "pstore_inv (store (genv (cf_groups (rt_cfg ts))))" "valid_ptr (store (genv (cf_groups (rt_cfg ts)))) p"
    and rs: "newRfsrv dec i (rt_snapshot ts) (Some (snd (disk_of (store (genv (cf_groups (rt_cfg ts)))) ! p))) = Inr rs"
  shows "\<exists>ts' sg'. raft_restart useRSM raft_Make dec svcOf rnd i ts = Inr ts' \<and> rt_srvs ts' = (rt_srvs ts)[i := Some rs] \<and>
    Config_Group GRP0 (rt_cfg ts') = Some sg' \<and> length (srvs sg') = length (srvs sg) \<and>
    (\<forall>a < length (srvs sg). \<forall>b < length (srvs sg). is_enabled (cf_net (rt_cfg ts')) (link sg' a b) \<and>
       connection (cf_net (rt_cfg ts')) (link sg' a b) = Some (ServerName (gid sg) (int b))) \<and>
    server_at (cf_net (rt_cfg ts')) (ServerName (gid sg) (int i)) = Some (length (labs (genv (cf_groups (rt_cfg ts)))))"
proof -
  let ?v = "genv (cf_groups (rt_cfg ts))" and ?mks = "raft_services useRSM raft_Make"
  have net: "cf_net c = net (genv (cf_groups c))" for c :: "('rf raft_service, 'w) Config" by (simp add: cf_net_def)
  obtain s1 v1 where st: "StartServer ?mks svcOf rnd (int i) (sg, ?v) = Inr (sg\<lparr>srvs := (srvs sg)[i := s1]\<rparr>, v1)"
    and w1: "wired (sg\<lparr>srvs := (srvs sg)[i := s1]\<rparr>) (net v1)"
    and at1: "server_at (net v1) (ServerName (gid sg) (int i)) = Some (length (labs ?v))"
    using StartServer_wired [of sg ?v i rnd ?mks svcOf] w i names by (auto simp: net)
  let ?sg1 = "sg\<lparr>srvs := (srvs sg)[i := s1]\<rparr>" and ?q = "fst (Persister_Copy p (store ?v))"
  note sv = StartServer_saved [OF st p(1)]
  from on_grp0_Inr [where f = "StartServer ?mks svcOf rnd (int i)", OF g st] obtain ts1 where ts1: "on_grp0 (StartServer ?mks svcOf rnd (int i)) ts = Inr ts1"
    "Config_Group GRP0 (rt_cfg ts1) = Some ?sg1" "genv (cf_groups (rt_cfg ts1)) = v1" "rt_srvs ts1 = rt_srvs ts"
    "rt_snapshot ts1 = rt_snapshot ts" by blast
  have q: "?q = length (persisters (store ?v))" by (simp add: Persister_Copy_def MakePersister_def)
  have "disk_of (store v1) = disk_of (store ?v) @ [disk_of (store ?v) ! p]" and inv1: "pstore_inv (store v1)"
    using Copy_refines [OF p(2,3)] sv(2) by simp_all
  then have d: "disk_of (store v1) ! ?q = disk_of (store ?v) ! p" "valid_ptr (store v1) ?q"
    using q length_disk_of [of "store ?v"] length_disk_of [of "store v1"] by (simp_all add: nth_append)
  have "\<exists>st'. table_entry dec i ts1 = Inr (ts1\<lparr>rt_cfg := with_store st' (rt_cfg ts1), rt_srvs := (rt_srvs ts1)[i := Some rs]\<rparr>)"
    by (rule table_entry_Inr [OF ts1(2) sv(3)]) (use ts1 d inv1 rs in simp_all)
  then obtain st' where e: "table_entry dec i ts1 = Inr (ts1\<lparr>rt_cfg := with_store st' (rt_cfg ts1), rt_srvs := (rt_srvs ts1)[i := Some rs]\<rparr>)"
    by blast
  let ?ts2 = "ts1\<lparr>rt_cfg := with_store st' (rt_cfg ts1), rt_srvs := (rt_srvs ts1)[i := Some rs]\<rparr>"
  have wf: "wf_grp ?sg1" using w1 by (simp add: wired_def)
  have "ConnectAll (?sg1, net v1) = each (\<lambda>i gn. connect i (map int [0..<length (srvs (fst gn))]) gn)
      (map int [0..<length (srvs (fst (?sg1, net v1)))]) (?sg1, net v1)"
    by (simp add: ConnectAll_def ConnectOne_def [abs_def] all_def)
  then obtain sg2 rn2 where c: "ConnectAll (?sg1, net v1) = Inr (sg2, rn2)" "grp_frame (sg2, rn2) = grp_frame (?sg1, net v1)"
      "\<forall>a < length (srvs sg). \<forall>b < length (srvs sg). up (sg2, rn2) a b"
    using grp.connect_each [of "(?sg1, net v1)"] wf by auto
  from c(2) have same: "srvs sg2 = srvs ?sg1" "connection rn2 = connection (net v1)" "server_at rn2 = server_at (net v1)"
    by (simp_all add: grp_frame_def)
  let ?v2 = "genv (cf_groups (rt_cfg ?ts2))"
  have "on_net ConnectAll (?sg1, ?v2) = Inr (sg2, ?v2\<lparr>net := rn2\<rparr>)"
    using c(1) ts1(3) by (simp add: on_net_def with_store_def)
  with on_grp0_Inr [of ?ts2 ?sg1 "on_net ConnectAll"] ts1(2) obtain ts3 where ts3: "on_grp0 (on_net ConnectAll) ?ts2 = Inr ts3"
    "Config_Group GRP0 (rt_cfg ts3) = Some sg2" "genv (cf_groups (rt_cfg ts3)) = ?v2\<lparr>net := rn2\<rparr>" "rt_srvs ts3 = (rt_srvs ts)[i := Some rs]"
    using ts1(4) by auto
  have "link sg2 = link ?sg1" using same(1) by (simp add: link_def fun_eq_iff)
  with c(3) w1 same at1 have "(\<forall>a < length (srvs sg). \<forall>b < length (srvs sg). is_enabled rn2 (link sg2 a b) \<and>
       connection rn2 (link sg2 a b) = Some (ServerName (gid sg) (int b)))" by (auto simp: wired_def up_def)
  then show ?thesis using ts1(1) e ts3 same at1 by (intro exI [of _ ts3] exI [of _ sg2]) (simp add: raft_restart_def net)
qed
subsection \<open>A new test of the replicated state machine\<close>

lemma rsm_table_nth:
  assumes "j + length ss \<le> length tsrvs"
  shows "length (rsm_table u mk mx (enumerate j ss) tsrvs) = length tsrvs \<and>
    (\<forall>i < length tsrvs. rsm_table u mk mx (enumerate j ss) tsrvs ! i =
       (if j \<le> i \<and> i < j + length ss then Some (makeRsmSrv u mk mx i (endNames (ss ! (i - j))) (saved (ss ! (i - j))))
        else tsrvs ! i))"
  using assms
proof (induction ss arbitrary: j tsrvs)
  case (Cons s ss)
  let ?t = "tsrvs[j := Some (makeRsmSrv u mk mx j (endNames s) (saved s))]"
  from Cons.prems have "Suc j + length ss \<le> length ?t" by simp
  from Cons.IH [OF this] show ?case
    by (auto simp: rsm_mksrv_def Let_def nth_list_update nth_Cons' not_less Suc_le_eq le_less_Suc_eq)
qed auto

text \<open>A new test has three servers, each with a counter of zero, made from its own ends and persister;
  the network is reliable and fully connected, and nobody is known to lead.\<close>

theorem rsm_makeTest_ready:
  fixes svcOf :: "'rf option \<Rightarrow> 'w Service"
  assumes "fresh_names rnd 3 MakeNetwork" and "fresh_names (\<lambda>i. rnd' (int i)) 3 MakeNetwork"
    and "\<forall>i < 3. \<forall>j < 3. \<forall>i' < 3. \<forall>j' < 3. rnd i j \<noteq> rnd' (int i') j'"
  shows "\<exists>ts sg. rsm_makeTest useRSM raft_Make svcOf rnd rnd' tm an mx = Inr ts \<and> Config_Group GRP0 (rs_cfg ts) = Some sg \<and>
    length (srvs sg) = 3 \<and> rs_leader ts = 0 \<and> IsReliable (rs_cfg ts) \<and>
    rs_srvs ts = map (\<lambda>i. Some (makeRsmSrv useRSM raft_Make mx i (endNames (srvs sg ! i)) (saved (srvs sg ! i)))) [0..<3] \<and>
    (\<forall>i < 3. \<forall>j < 3. i_enabled (readEndnameInfo (cf_net (rs_cfg ts)) (link sg i j)) \<and>
       i_server (readEndnameInfo (cf_net (rs_cfg ts)) (link sg i j)) = Some j)"
proof -
  have "\<exists>c sg. MakeConfig (rsm_services useRSM raft_Make mx) svcOf rnd rnd' 3 True tm an = Inr c \<and>
    map_of (grps (cf_groups c)) GRP0 = Some sg \<and> length (srvs sg) = 3 \<and> IsReliable c \<and>
    (\<forall>i < 3. \<forall>j < 3. i_enabled (readEndnameInfo (cf_net c) (link sg i j)) \<and>
       i_server (readEndnameInfo (cf_net c) (link sg i j)) = Some j)"
    using MakeConfig_links [OF assms, of "rsm_services useRSM raft_Make mx" svcOf True tm an] by fastforce
  then obtain c and sg :: "'rf ServerGrp" where
    c: "MakeConfig (rsm_services useRSM raft_Make mx) svcOf rnd rnd' 3 True tm an = Inr c" "Config_Group GRP0 c = Some sg"
      "length (srvs sg) = 3" "IsReliable c"
      "\<forall>i < 3. \<forall>j < 3. i_enabled (readEndnameInfo (cf_net c) (link sg i j)) \<and> i_server (readEndnameInfo (cf_net c) (link sg i j)) = Some j"
    by (auto simp: Config_Group_def)
  have "rsm_table useRSM raft_Make mx (enumerate 0 (srvs sg)) (replicate 3 None) =
      map (\<lambda>i. Some (makeRsmSrv useRSM raft_Make mx i (endNames (srvs sg ! i)) (saved (srvs sg ! i)))) [0..<3]"
    using rsm_table_nth [of 0 "srvs sg" "replicate 3 None" useRSM raft_Make mx] c(3) by (intro nth_equalityI) simp_all
  then show ?thesis using c by (auto simp: rsm_makeTest_def)
qed

end
