(* ===== verification/Shard_Tester.thy ===== *)
theory Shard_Tester
  imports Shard_Config Server_Groups
begin

section \<open>Joins and leaves in the sharding tests (shardkv1/test.go)\<close>

text \<open>
  The tests of the sharded service move groups in and out: they start the servers of a group, ask
  the shard controller for the current configuration, compute the next one on a copy, and hand it
  to the controller. The controller is to be written by students: it is a record of functions on a
  state of its own, whose contract, where a lemma needs it, is that it answers queries with the
  configuration it was last changed to. \<open>None\<close> is a balancing loop that does not return. The
  pauses between changes are not modelled.
\<close>

abbreviation NSRV :: nat where
  "NSRV \<equiv> 3"

record 'c controller =
  Query :: "'c \<Rightarrow> ShardConfig \<times> 'c"
  ChangeConfigTo :: "ShardConfig \<Rightarrow> 'c \<Rightarrow> 'c"
  InitConfig :: "ShardConfig \<Rightarrow> 'c \<Rightarrow> 'c"

datatype st_error =
    AlreadyPresent Tgid
  | NotPresent Tgid
  | CfgError cfg_error
  | GrpError grp_error

definition newGid :: "Tgid \<Rightarrow> Tgid \<times> Tgid" where
  "newGid ngid = (let g = ngid in (g, ngid + 1))"

fun new_groups :: "nat \<Rightarrow> Tgid \<Rightarrow> Tgid list \<times> Tgid" where
  "new_groups 0 ngid = ([], ngid)"
| "new_groups (Suc n) ngid = (case newGid ngid of (g, ngid1) \<Rightarrow>
     case new_groups n ngid1 of (gs, ngid2) \<Rightarrow> (g # gs, ngid2))"

definition checkMember :: "'c controller \<Rightarrow> Tgid \<Rightarrow> 'c \<Rightarrow> bool \<times> 'c" where
  "checkMember sck g w = (case Query sck w of (cfg, w') \<Rightarrow> (IsMember cfg g, w'))"

definition join_config :: "Tgid \<Rightarrow> string list \<Rightarrow> ShardConfig \<Rightarrow> (st_error + ShardConfig) option" where
  "join_config g names cfg =
     (let newcfg = Copy cfg in
      case JoinBalance [(g, names)] newcfg of
        None \<Rightarrow> None
      | Some (Inl e) \<Rightarrow> Some (Inl (CfgError e))
      | Some (Inr (found, newcfg')) \<Rightarrow> Some (if \<not> found then Inl (AlreadyPresent g) else Inr newcfg'))"

definition join :: "'c controller \<Rightarrow> Tgid \<Rightarrow> string list \<Rightarrow> 'c \<Rightarrow> (st_error + 'c) option" where
  "join sck g names w = (case Query sck w of (cfg, w1) \<Rightarrow>
     map_option (map_sum (\<lambda>e. e) (\<lambda>newcfg. ChangeConfigTo sck newcfg w1)) (join_config g names cfg))"

definition leave_config :: "Tgid \<Rightarrow> ShardConfig \<Rightarrow> (st_error + ShardConfig) option" where
  "leave_config g cfg =
     (let newcfg = Copy cfg in
      case LeaveBalance [g] newcfg of
        None \<Rightarrow> None
      | Some (Inl e) \<Rightarrow> Some (Inl (CfgError e))
      | Some (Inr (found, newcfg')) \<Rightarrow> Some (if \<not> found then Inl (NotPresent g) else Inr newcfg'))"

definition leave :: "'c controller \<Rightarrow> Tgid \<Rightarrow> 'c \<Rightarrow> (st_error + 'c) option" where
  "leave sck g w = (case Query sck w of (cfg, w1) \<Rightarrow>
     map_option (map_sum (\<lambda>e. e) (\<lambda>newcfg. ChangeConfigTo sck newcfg w1)) (leave_config g cfg))"

text \<open>Starting the servers of a group and joining it, for each group. The result says whether every
  group was a member afterwards. \<open>mk\<close> starts a group, as \<^verbatim>\<open>Config.MakeGroupStart\<close> does.\<close>

fun joinGroups ::
  "(Tgid \<Rightarrow> ('svc, 'w) Groups \<Rightarrow> grp_error + ('svc, 'w) Groups) \<Rightarrow> 'c controller \<Rightarrow> Tgid list \<Rightarrow> ('svc, 'w) Groups \<Rightarrow> 'c \<Rightarrow>
   (st_error + bool \<times> ('svc, 'w) Groups \<times> 'c) option" where
  "joinGroups mk sck [] gs w = Some (Inr (True, gs, w))"
| "joinGroups mk sck (g # rest) gs w = (case mk g gs of
      Inl e \<Rightarrow> Some (Inl (GrpError e))
    | Inr gs1 \<Rightarrow> (case map_of (grps gs1) g of
        None \<Rightarrow> Some (Inl (GrpError NilGroup))
      | Some sg \<Rightarrow> (case join sck g (servernames sg) w of
          None \<Rightarrow> None
        | Some (Inl e) \<Rightarrow> Some (Inl e)
        | Some (Inr w1) \<Rightarrow> (case checkMember sck g w1 of (found, w2) \<Rightarrow>
            if \<not> found then Some (Inr (False, gs1, w2)) else joinGroups mk sck rest gs1 w2))))"

fun leaveGroups ::
  "'c controller \<Rightarrow> Tgid list \<Rightarrow> ('svc, 'w) Groups \<Rightarrow> 'c \<Rightarrow> (st_error + bool \<times> ('svc, 'w) Groups \<times> 'c) option" where
  "leaveGroups sck [] gs w = Some (Inr (True, gs, w))"
| "leaveGroups sck (g # rest) gs w = (case leave sck g w of
      None \<Rightarrow> None
    | Some (Inl e) \<Rightarrow> Some (Inl e)
    | Some (Inr w1) \<Rightarrow> (case checkMember sck g w1 of (found, w2) \<Rightarrow>
        if found then Some (Inr (False, gs, w2))
        else (case ExitGroup g gs of
            Inl e \<Rightarrow> Some (Inl (GrpError e))
          | Inr gs1 \<Rightarrow> leaveGroups sck rest gs1 w2)))"

text \<open>The first configuration: group 1 alone, which the controller is initialized with.\<close>

definition setupKVService ::
  "(Tgid \<Rightarrow> ('svc, 'w) Groups \<Rightarrow> grp_error + ('svc, 'w) Groups) \<Rightarrow> 'c controller \<Rightarrow> ('svc, 'w) Groups \<Rightarrow> 'c \<Rightarrow>
   (st_error + Tgid \<times> ('svc, 'w) Groups \<times> 'c) option" where
  "setupKVService mk sck gs w = (case mk 1 gs of
      Inl e \<Rightarrow> Some (Inl (GrpError e))
    | Inr gs1 \<Rightarrow> (case map_of (grps gs1) 1 of
        None \<Rightarrow> Some (Inl (GrpError NilGroup))
      | Some sg \<Rightarrow> (case JoinBalance [(1, servernames sg)] MakeShardConfig of
          None \<Rightarrow> None
        | Some (Inl e) \<Rightarrow> Some (Inl (CfgError e))
        | Some (Inr (found, scfg)) \<Rightarrow> Some (Inr (1, gs1, InitConfig sck scfg w)))))"

subsection \<open>Copies\<close>

lemma copy_groups_append:
  "wf_map (m @ gs) \<Longrightarrow> copy_groups gs m = m @ gs"
  by (induction gs m rule: copy_groups.induct) (auto simp: AList_update_absent)

lemma Copy_same: "wf_map (Groups c) \<Longrightarrow> Copy c = c"
  by (simp add: Copy_def MakeShardConfig_def copy_groups_append Let_def)

subsection \<open>Who owns a shard\<close>

lemma load_sum:
  assumes "valid_config c" and "Groups c \<noteq> []"
  shows "(\<Sum>g \<in> gids c. load c g) = NShards"
proof -
  have "(\<Sum>g \<in> gids c. count_list (Shards c) g) = length (Shards c)"
  proof -
    have "set (Shards c) \<subseteq> gids c" using assms by (simp add: valid_config_def assigned_def)
    then have "(\<Sum>g \<in> gids c. count_list (Shards c) g) = (\<Sum>g \<in> set (Shards c). count_list (Shards c) g)"
      by (intro sum.mono_neutral_right) (auto simp: count_list_0_iff)
    then show ?thesis by (simp add: sum_count_set [of "Shards c" "set (Shards c)"])
  qed
  then show ?thesis using assms(1) by (simp add: load_def valid_config_def wf_config_def)
qed

lemma card_gids: "wf_map (Groups c) \<Longrightarrow> card (gids c) = length (Groups c)"
  unfolding gids_def using distinct_card [of "keys (Groups c)"] by simp

lemma member_iff_load: "IsMember c g \<longleftrightarrow> 0 < load c g"
  by (simp add: IsMember_def load_def list_ex_iff neq0_conv [symmetric] count_list_0_iff del: neq0_conv)

text \<open>With at most as many groups as shards, every group owns one.\<close>

lemma all_members:
  assumes "valid_config c" and "g \<in> gids c" and "length (Groups c) \<le> NShards"
  shows "IsMember c g"
proof (rule ccontr)
  assume "\<not> IsMember c g"
  then have zero: "load c g = 0" by (simp add: member_iff_load)
  have wf: "wf_map (Groups c)" "Groups c \<noteq> []" using assms by (auto simp: valid_config_def wf_config_def gids_def)
  have "load c h \<le> load c g + 1" if "h \<in> gids c" for h
    using assms(1,2) that unfolding valid_config_def balanced_def by blast
  then have "load c h \<le> 1" if "h \<in> gids c" for h using that zero by simp
  then have "(\<Sum>h \<in> gids c - {g}. load c h) \<le> (\<Sum>h \<in> gids c - {g}. 1)" by (intro sum_mono) simp
  also have "\<dots> = length (Groups c) - 1" using assms(2) card_gids [OF wf(1)] by simp
  finally have "(\<Sum>h \<in> gids c. load c h) \<le> length (Groups c) - 1"
    using zero assms(2) by (simp add: sum.remove [of "gids c" g])
  moreover have "0 < length (Groups c)" using wf(2) by simp
  ultimately have "(\<Sum>h \<in> gids c. load c h) < NShards" using assms(3) by linarith
  then show False using load_sum [OF assms(1) wf(2)] by simp
qed

text \<open>A group that joins when there is already one for each shard gets none.\<close>

lemma late_group_gets_nothing:
  assumes "valid_config c" and "NShards \<le> length (Groups c)" and "g \<notin> gids c"
  shows "valid_config (c\<lparr>Num := n, Groups := Groups c @ [(g, names)]\<rparr>)"
    and "\<not> IsMember c g"
proof -
  have wf: "wf_map (Groups c)" "Groups c \<noteq> []" using assms by (auto simp: valid_config_def wf_config_def NShards_def)
  have sub: "set (Shards c) \<subseteq> gids c" using assms(1) wf(2) by (simp add: valid_config_def assigned_def)
  then have zero: "load c g = 0" using assms(3) by (auto simp: load_def count_list_0_iff)
  then show "\<not> IsMember c g" by (simp add: member_iff_load)
  have one: "load c h \<le> 1" if h: "h \<in> gids c" for h
  proof (rule ccontr)
    assume "\<not> load c h \<le> 1"
    then have two: "2 \<le> load c h" by simp
    then have ge: "1 \<le> load c h'" if "h' \<in> gids c" for h'
      using assms(1) h that by (force simp: valid_config_def balanced_def)
    have "(\<Sum>h' \<in> gids c - {h}. 1) \<le> (\<Sum>h' \<in> gids c - {h}. load c h')" by (rule sum_mono) (use ge in simp)
    then have "length (Groups c) - 1 + 2 \<le> (\<Sum>h' \<in> gids c. load c h')"
      using two h card_gids [OF wf(1)] by (simp add: sum.remove [of "gids c" h])
    then show False using load_sum [OF assms(1) wf(2)] assms(2) wf(2) by (cases "Groups c") simp_all
  qed
  have "load c h \<le> load c h' + 1" if "h \<in> insert g (gids c)" for h h'
    using that one [of h] zero by auto
  then show "valid_config (c\<lparr>Num := n, Groups := Groups c @ [(g, names)]\<rparr>)"
    using assms(1,3) sub wf by (auto simp: valid_config_def wf_config_def assigned_def balanced_def gids_def load_def)
qed

subsection \<open>Joining and leaving\<close>

text \<open>What the tests rely on: queries return the last configuration the controller was given.\<close>

definition keeps_config :: "'c controller \<Rightarrow> bool" where
  "keeps_config sck \<longleftrightarrow> (\<forall>c w. fst (Query sck (ChangeConfigTo sck c w)) = c) \<and>
     (\<forall>w. fst (Query sck (snd (Query sck w))) = fst (Query sck w))"

lemma Join_new:
  assumes "g \<notin> gids c" and "\<forall>p \<in> set (Groups c). set (snd p) \<inter> set names = {}"
  shows "Join [(g, names)] c = Inr (True, c\<lparr>Num := Num c + 1, Groups := Groups c @ [(g, names)]\<rparr>)"
proof -
  have "map_of (Groups c) g = None" using assms(1) by (simp add: gids_def map_of_eq_None_iff)
  moreover have "conflict names (Groups c) = None" unfolding conflict_None using assms(2) by (simp add: case_prod_unfold)
  ultimately show ?thesis using assms(1) by (simp add: Join_def AList_update_absent gids_def)
qed

lemma Leave_present:
  assumes "g \<in> gids c"
  shows "Leave [g] c = Inr (True, c\<lparr>Num := Num c + 1, Groups := AList.delete g (Groups c)\<rparr>)"
  using assms by (auto simp: Leave_def gids_def map_of_eq_None_iff split: option.split)

text \<open>The next configuration, computed from any valid one.\<close>

lemma join_config_new:
  assumes v: "valid_config c" and "g \<notin> gids c" and "\<forall>p \<in> set (Groups c). set (snd p) \<inter> set names = {}"
  obtains c' where "join_config g names c = Some (Inr c')" "JoinBalance [(g, names)] c = Some (Inr (True, c'))"
    "Rebalance (c\<lparr>Num := Num c + 1, Groups := Groups c @ [(g, names)]\<rparr>) = Some c'" "valid_config c'"
    "Groups c' = Groups c @ [(g, names)]" "Num c' = Num c + 1"
proof -
  let ?d = "c\<lparr>Num := Num c + 1, Groups := Groups c @ [(g, names)]\<rparr>"
  have wf: "wf_map (Groups c)" and wfd: "wf_config ?d"
    using v assms(2) by (auto simp: valid_config_def wf_config_def gids_def)
  obtain c' where c': "Rebalance ?d = Some c'" "valid_config c'" "Groups c' = Groups ?d" "Num c' = Num ?d"
    using Rebalance_valid [OF wfd] Rebalance_frame [OF wfd] by blast
  have jb: "JoinBalance [(g, names)] c = Some (Inr (True, c'))"
    using Join_new [OF assms(2,3)] c'(1) by (simp add: JoinBalance_def then_rebalance_def)
  then have "join_config g names c = Some (Inr c')" using wf by (simp add: join_config_def Copy_same Let_def)
  from that [OF this jb c'(1,2)] c'(3,4) show thesis by simp
qed

lemma leave_config_present:
  assumes v: "valid_config c" and "g \<in> gids c"
  obtains c' where "leave_config g c = Some (Inr c')" "LeaveBalance [g] c = Some (Inr (True, c'))"
    "valid_config c'" "Groups c' = AList.delete g (Groups c)" "Num c' = Num c + 1"
proof -
  let ?d = "c\<lparr>Num := Num c + 1, Groups := AList.delete g (Groups c)\<rparr>"
  have wf: "wf_map (Groups c)" and wfd: "wf_config ?d"
    using v by (auto simp: valid_config_def wf_config_def distinct_delete)
  obtain c' where c': "Rebalance ?d = Some c'" "valid_config c'" "Groups c' = Groups ?d" "Num c' = Num ?d"
    using Rebalance_valid [OF wfd] Rebalance_frame [OF wfd] by blast
  have lb: "LeaveBalance [g] c = Some (Inr (True, c'))"
    using Leave_present [OF assms(2)] c'(1) by (simp add: LeaveBalance_def then_rebalance_def)
  then have "leave_config g c = Some (Inr c')" using wf by (simp add: leave_config_def Copy_same Let_def)
  from that [OF this lb c'(2)] c'(3,4) show thesis by simp
qed

text \<open>C34. A group joins: with a controller that meets its contract, in a reachable configuration, and
  for a group that is new and shares no server with the others, \<open>join\<close> succeeds; the controller
  then holds the next reachable configuration, which passes the checker and has exactly this group
  more. The tester then finds the group to be a member exactly if there were fewer groups than
  shards: membership is owning a shard, so the test of \<open>joinGroups\<close> fails for a thirteenth group.\<close>

theorem join_exact:
  assumes "keeps_config sck" and "fst (Query sck w) = c" and "reachable_config c"
    and "g \<notin> set (keys (Groups c))" and "\<forall>p \<in> set (Groups c). set (snd p) \<inter> set names = {}"
  shows "\<exists>w' c'. join sck g names w = Some (Inr w') \<and> fst (Query sck w') = c' \<and>
    reachable_config c' \<and> CheckConfig c' (keys (Groups c')) = Inr () \<and>
    Num c' = Num c + 1 \<and> Groups c' = Groups c @ [(g, names)] \<and>
    (fst (checkMember sck g w') \<longleftrightarrow> length (Groups c) < NShards)"
proof -
  have v: "valid_config c" using reachable_config_valid [OF assms(3)] by blast
  have new: "g \<notin> gids c" using assms(4) by (simp add: gids_def)
  let ?d = "c\<lparr>Num := Num c + 1, Groups := Groups c @ [(g, names)]\<rparr>"
  obtain c' where jc: "join_config g names c = Some (Inr c')" and jb: "JoinBalance [(g, names)] c = Some (Inr (True, c'))"
    and c': "Rebalance ?d = Some c'" "valid_config c'" "Groups c' = Groups c @ [(g, names)]" "Num c' = Num c + 1"
    using join_config_new [OF v new assms(5)] .
  obtain w1 where w1: "Query sck w = (c, w1)" using assms(2) by (cases "Query sck w") auto
  let ?w = "ChangeConfigTo sck c' w1"
  have q: "fst (Query sck ?w) = c'" using assms(1) by (simp add: keeps_config_def)
  have "join sck g names w = Some (Inr ?w)" using jc by (simp add: join_def w1)
  moreover have r: "reachable_config c'" using reachable_config.joined [OF assms(3) jb] .
  moreover have "CheckConfig c' (keys (Groups c')) = Inr ()"
    using CheckConfig_conditions [OF valid_config_wf [OF c'(2)], of "keys (Groups c')"] c'(2)
    by (auto simp: valid_config_def gids_def split: if_splits)
  moreover have "IsMember c' g \<longleftrightarrow> length (Groups c) < NShards"
  proof (cases "length (Groups c) < NShards")
    case True
    then show ?thesis using all_members [OF c'(2), of g] c'(3) by (simp add: gids_def)
  next
    case False
    then have full: "NShards \<le> length (Groups c)" by simp
    have "Rebalance ?d = Some ?d" using late_group_gets_nothing(1) [OF v full new] by (rule Rebalance_stable)
    with c'(1) have "c' = ?d" by (metis option.inject)
    then have "Shards c' = Shards c" by simp
    with late_group_gets_nothing(2) [OF v full new] False show ?thesis by (simp add: IsMember_def)
  qed
  then have "fst (checkMember sck g ?w) \<longleftrightarrow> length (Groups c) < NShards"
    using q by (simp add: checkMember_def case_prod_unfold)
  ultimately show ?thesis using q c'(3,4) by (intro exI [of _ ?w] exI [of _ c']) simp
qed

text \<open>A group leaves: \<open>leave\<close> succeeds exactly for a group that is present, and it is no member
  afterwards (group 0, which stands for no group in the shards, apart).\<close>

lemma leave_present:
  assumes "keeps_config sck" and "fst (Query sck w) = c" and "reachable_config c" and "g \<in> gids c" and "g \<noteq> 0"
  shows "\<exists>w' c'. leave sck g w = Some (Inr w') \<and> fst (Query sck w') = c' \<and> reachable_config c' \<and>
    Num c' = Num c + 1 \<and> Groups c' = AList.delete g (Groups c) \<and> \<not> fst (checkMember sck g w')"
proof -
  have v: "valid_config c" using reachable_config_valid [OF assms(3)] by blast
  obtain c' where lc: "leave_config g c = Some (Inr c')" and lb: "LeaveBalance [g] c = Some (Inr (True, c'))"
    and c': "valid_config c'" "Groups c' = AList.delete g (Groups c)" "Num c' = Num c + 1"
    using leave_config_present [OF v assms(4)] .
  obtain w1 where w1: "Query sck w = (c, w1)" using assms(2) by (cases "Query sck w") auto
  let ?w = "ChangeConfigTo sck c' w1"
  have q: "fst (Query sck ?w) = c'" using assms(1) by (simp add: keeps_config_def)
  have "leave sck g w = Some (Inr ?w)" using lc by (simp add: leave_def w1)
  moreover have "reachable_config c'" using reachable_config.left [OF assms(3) lb] .
  moreover have "g \<notin> set (Shards c')"
  proof
    assume g: "g \<in> set (Shards c')"
    have "g \<notin> gids c'" using c'(2) by (simp add: gids_def set_map [symmetric] del: set_map) (simp add: delete_keys)
    with g c'(1) assms(5) show False by (auto simp: valid_config_def assigned_def split: if_splits)
  qed
  then have "\<not> fst (checkMember sck g ?w)" using q by (simp add: checkMember_def IsMember_def list_ex_iff case_prod_unfold)
  ultimately show ?thesis using q c'(2,3) by (intro exI [of _ ?w] exI [of _ c']) simp
qed

text \<open>A controller that is one cell.\<close>

definition cell :: "ShardConfig controller" where
  "cell = \<lparr>Query = (\<lambda>c. (c, c)), ChangeConfigTo = (\<lambda>c _. c), InitConfig = (\<lambda>c _. c)\<rparr>"

theorem join_exact_witness:
  "\<exists>w'. join cell 2 [''b''] first_config = Some (Inr w') \<and> fst (checkMember cell 2 w')"
proof -
  have "keeps_config cell" "fst (Query cell first_config) = first_config" by (simp_all add: keeps_config_def cell_def)
  from join_exact [OF this reachable_first, of 2 "[''b'']"] show ?thesis
    by (auto simp: first_config_def NShards_def)
qed

end
