(* ===== verification/Shard_Control.thy ===== *)
theory Shard_Control
  imports Shard_Tester Shard_Json Kv_Model
begin

section \<open>Concurrent controllers (shardkv1/test.go)\<close>

text \<open>
  \<open>concurCtrler\<close> runs several goroutines that each, over and over, take a new group id, start a
  controller and the servers of the group, let the group join and, if it became a member, leave
  again. They share the group counter, the groups and whatever store the controllers use, so a
  controller may be superseded by another between reading the configuration and changing it. A
  worker is a state machine whose phases are the points between its accesses to what is shared;
  workers and the main goroutine, which stops them with one signal each, take steps in any order.
  The contract of a controller is the locale \<open>versioned_controller\<close>; a controller that keeps the
  configuration as text in the key/value server of the first lab, with a versioned put, meets it.
\<close>

subsection \<open>A worker\<close>

datatype worker_phase =
    Idle
  | Fresh Tgid
  | Ready Tgid
  | Joining Tgid "string list"
  | JoinTo Tgid ShardConfig
  | Joined Tgid
  | Member Tgid
  | Leaving Tgid
  | LeaveTo Tgid ShardConfig
  | Left Tgid
  | Exiting Tgid
  | Stopped
  | Hung
  | Died st_error

text \<open>\<open>Hung\<close> is a balancing loop that does not return, \<open>Died\<close> a call of \<^verbatim>\<open>log.Fatalf\<close> or a panic, which
  ends the whole process.\<close>

record ('svc, 'w, 'c) shared =
  sh_ngid :: Tgid
  sh_groups :: "('svc, 'w) Groups"
  sh_ctl :: 'c

type_synonym ('svc, 'w) starter = "Tgid \<Rightarrow> ('svc, 'w) Groups \<Rightarrow> grp_error + ('svc, 'w) Groups"

text \<open>One step. \<open>joinGroups\<close> returns after its own check of the membership whatever it finds, and
  the worker then checks again; a group that is still a member after it left stays.\<close>

fun worker_step ::
  "('svc, 'w) starter \<Rightarrow> 'c controller \<Rightarrow> ('c \<Rightarrow> 'c) \<Rightarrow> worker_phase \<Rightarrow> ('svc, 'w, 'c) shared \<Rightarrow> worker_phase \<times> ('svc, 'w, 'c) shared" where
  "worker_step mk sck init Idle w = (case newGid (sh_ngid w) of (g, n) \<Rightarrow> (Fresh g, w\<lparr>sh_ngid := n\<rparr>))"
| "worker_step mk sck init (Fresh g) w = (Ready g, w\<lparr>sh_ctl := init (sh_ctl w)\<rparr>)"
| "worker_step mk sck init (Ready g) w = (case mk g (sh_groups w) of
      Inl e \<Rightarrow> (Died (GrpError e), w)
    | Inr gs \<Rightarrow> (case map_of (grps gs) g of
        None \<Rightarrow> (Died (GrpError NilGroup), w\<lparr>sh_groups := gs\<rparr>)
      | Some sg \<Rightarrow> (Joining g (servernames sg), w\<lparr>sh_groups := gs\<rparr>)))"
| "worker_step mk sck init (Joining g names) w = (case Query sck (sh_ctl w) of (cfg, c) \<Rightarrow>
      ((case join_config g names cfg of
          None \<Rightarrow> Hung
        | Some (Inl e) \<Rightarrow> Died e
        | Some (Inr newcfg) \<Rightarrow> JoinTo g newcfg), w\<lparr>sh_ctl := c\<rparr>))"
| "worker_step mk sck init (JoinTo g newcfg) w = (Joined g, w\<lparr>sh_ctl := ChangeConfigTo sck newcfg (sh_ctl w)\<rparr>)"
| "worker_step mk sck init (Joined g) w = (case checkMember sck g (sh_ctl w) of (found, c) \<Rightarrow>
      (Member g, w\<lparr>sh_ctl := c\<rparr>))"
| "worker_step mk sck init (Member g) w = (case checkMember sck g (sh_ctl w) of (found, c) \<Rightarrow>
      (if found then Leaving g else Idle, w\<lparr>sh_ctl := c\<rparr>))"
| "worker_step mk sck init (Leaving g) w = (case Query sck (sh_ctl w) of (cfg, c) \<Rightarrow>
      ((case leave_config g cfg of
          None \<Rightarrow> Hung
        | Some (Inl e) \<Rightarrow> Died e
        | Some (Inr newcfg) \<Rightarrow> LeaveTo g newcfg), w\<lparr>sh_ctl := c\<rparr>))"
| "worker_step mk sck init (LeaveTo g newcfg) w = (Left g, w\<lparr>sh_ctl := ChangeConfigTo sck newcfg (sh_ctl w)\<rparr>)"
| "worker_step mk sck init (Left g) w = (case checkMember sck g (sh_ctl w) of (found, c) \<Rightarrow>
      (if found then Idle else Exiting g, w\<lparr>sh_ctl := c\<rparr>))"
| "worker_step mk sck init (Exiting g) w = (case ExitGroup g (sh_groups w) of
      Inl e \<Rightarrow> (Died (GrpError e), w)
    | Inr gs \<Rightarrow> (Idle, w\<lparr>sh_groups := gs\<rparr>))"
| "worker_step mk sck init p w = (p, w)"

subsection \<open>All of them\<close>

text \<open>\<open>signals\<close> is the number of stop signals that the main goroutine has sent, \<open>None\<close> while it
  sleeps. A signal is received by any worker at the head of its loop.\<close>

record ('svc, 'w, 'c) concur =
  world :: "('svc, 'w, 'c) shared"
  workers :: "worker_phase list"
  signals :: "nat option"

definition concur_init :: "nat \<Rightarrow> ('svc, 'w, 'c) shared \<Rightarrow> ('svc, 'w, 'c) concur" where
  "concur_init n w = \<lparr>world = w, workers = replicate n Idle, signals = None\<rparr>"

inductive concur_step ::
  "('svc, 'w) starter \<Rightarrow> 'c controller \<Rightarrow> ('c \<Rightarrow> 'c) \<Rightarrow> ('svc, 'w, 'c) concur \<Rightarrow> ('svc, 'w, 'c) concur \<Rightarrow> bool"
  for mk sck init where
  work: "i < length (workers s) \<Longrightarrow> worker_step mk sck init (workers s ! i) (world s) = (p, w) \<Longrightarrow>
    concur_step mk sck init s (s\<lparr>world := w, workers := (workers s)[i := p]\<rparr>)"
| wake: "signals s = None \<Longrightarrow> concur_step mk sck init s (s\<lparr>signals := Some 0\<rparr>)"
| stop: "signals s = Some k \<Longrightarrow> k < length (workers s) \<Longrightarrow> i < length (workers s) \<Longrightarrow> workers s ! i = Idle \<Longrightarrow>
    concur_step mk sck init s (s\<lparr>signals := Some (k + 1), workers := (workers s)[i := Stopped]\<rparr>)"

inductive_cases concur_stepE [consumes 1, case_names work wake stop]: "concur_step mk sck init s s'"

abbreviation concur_run where
  "concur_run mk sck init \<equiv> (concur_step mk sck init)\<^sup>*\<^sup>*"

subsection \<open>The groups of these tests\<close>

definition grp_names :: "Tgid \<Rightarrow> string list" where
  "grp_names g = map (\<lambda>i. ServerName g (int i)) [0..<NSRV]"

text \<open>A configuration as these tests make them: valid, with group 1 (\<^verbatim>\<open>Gid1\<close>), its groups
  numbered below the next new id, each with the names of its servers.\<close>

definition good_cfg :: "Tgid \<Rightarrow> ShardConfig \<Rightarrow> bool" where
  "good_cfg n c \<longleftrightarrow> valid_config c \<and> 1 \<in> gids c \<and> (\<forall>(g, names) \<in> set (Groups c). 1 \<le> g \<and> g < n \<and> names = grp_names g)"

lemma ServerName_group: "ServerName g i = ServerName h j \<Longrightarrow> g = h"
  using Itoa_split [of g "Itoa i" h "Itoa j"] by (simp add: ServerName_def)

lemma grp_names_disjoint: "g \<noteq> h \<Longrightarrow> set (grp_names g) \<inter> set (grp_names h) = {}"
  using ServerName_group by (auto simp: grp_names_def)

lemma ServerName_utf8: "valid_utf8 (ServerName g i)"
proof (rule ascii_valid)
  have "list_all (\<lambda>c. byte_of c < 128) (digits n)" for n
    using all_digits_digits [of n] digit_ascii unfolding all_digits_def list_all_iff by blast
  then have "list_all (\<lambda>c. byte_of c < 128) (Itoa k)" for k by (simp add: Itoa_def byte_of_def)
  then show "list_all (\<lambda>c. byte_of c < 128) (ServerName g i)" by (simp add: ServerName_def) (simp add: byte_of_def)
qed

lemma good_cfg_ids: "good_cfg n c \<Longrightarrow> g \<in> gids c \<Longrightarrow> 1 \<le> g \<and> g < n"
  by (fastforce simp: good_cfg_def gids_def)

lemma good_cfg_new: "good_cfg n c \<Longrightarrow> n \<notin> gids c"
  using good_cfg_ids by blast

lemma good_cfg_mono: "good_cfg n c \<Longrightarrow> n \<le> m \<Longrightarrow> good_cfg m c"
  by (fastforce simp: good_cfg_def)

lemma good_cfg_fits:
  assumes "good_cfg n c" and "n \<le> 2 ^ 63"
  shows "cfg_fits c"
proof -
  have "int64 g" if "g \<in> gids c" for g using good_cfg_ids [OF assms(1) that] assms(2) by auto
  moreover have "set (Shards c) \<subseteq> gids c"
    using assms(1) by (auto simp: good_cfg_def valid_config_def assigned_def gids_def split: if_splits)
  moreover have "list_all valid_utf8 names" if "(g, names) \<in> set (Groups c)" for g names
  proof -
    have "names = grp_names g" using assms(1) that by (auto simp: good_cfg_def)
    then show ?thesis using ServerName_utf8 by (auto simp: grp_names_def list_all_iff)
  qed
  moreover have "g \<in> gids c" if "(g, names) \<in> set (Groups c)" for g names using that by (force simp: gids_def)
  moreover have "wf_map (Groups c)" "length (Shards c) = NShards"
    using assms(1) by (simp_all add: good_cfg_def valid_config_def wf_config_def)
  ultimately show ?thesis unfolding cfg_fits_def list_all_iff by blast
qed

lemma good_cfg_same:
  assumes "good_cfg n c" and "same_config c d" and "cfg_fits d"
  shows "good_cfg n d" and "gids d = gids c" and "Num d = Num c"
proof -
  have v: "valid_config d" "gids d = gids c"
    using same_config_valid [OF assms(2) _ assms(3)] assms(1) by (auto simp: good_cfg_def)
  then show "gids d = gids c" "Num d = Num c" using assms(2) by (auto simp: same_config_def)
  have "set (Groups d) = set (Groups c)"
    using assms v by (intro map_of_inject_set [THEN iffD1])
      (auto simp: good_cfg_def valid_config_def wf_config_def same_config_def)
  with v assms(1) show "good_cfg n d" by (simp add: good_cfg_def)
qed

lemma good_join:
  assumes "good_cfg n c" and "g \<notin> gids c" and "1 < g" and "g < n"
  obtains c' where "join_config g (grp_names g) c = Some (Inr c')" "good_cfg n c'" "Num c' = Num c + 1"
    "gids c' = insert g (gids c)"
proof -
  have "\<forall>p \<in> set (Groups c). set (snd p) \<inter> set (grp_names g) = {}"
  proof
    fix p assume p: "p \<in> set (Groups c)"
    then have "fst p \<noteq> g" "snd p = grp_names (fst p)" using assms(1,2) by (auto simp: good_cfg_def gids_def)
    then show "set (snd p) \<inter> set (grp_names g) = {}" using grp_names_disjoint by metis
  qed
  from join_config_new [OF _ assms(2) this] assms(1) obtain c' where c': "join_config g (grp_names g) c = Some (Inr c')"
    "valid_config c'" "Groups c' = Groups c @ [(g, grp_names g)]" "Num c' = Num c + 1"
    by (auto simp: good_cfg_def)
  have "good_cfg n c'" "gids c' = insert g (gids c)"
    using assms c'(2,3) by (auto simp: good_cfg_def gids_def)
  from that [OF c'(1) this(1) c'(4) this(2)] show thesis .
qed

lemma good_leave:
  assumes "good_cfg n c" and "g \<in> gids c" and "1 < g"
  obtains c' where "leave_config g c = Some (Inr c')" "good_cfg n c'" "Num c' = Num c + 1"
    "gids c' = gids c - {g}"
proof -
  from assms(1) have "valid_config c" by (simp add: good_cfg_def)
  from leave_config_present [OF this assms(2)] obtain c' where c': "leave_config g c = Some (Inr c')"
    "valid_config c'" "Groups c' = AList.delete g (Groups c)" "Num c' = Num c + 1" by blast
  have g: "gids c' = gids c - {g}" unfolding gids_def c'(3) delete_keys by auto
  have "set (Groups c') \<subseteq> set (Groups c)" unfolding c'(3) by (auto simp: AList.delete_eq)
  with assms c'(2) g have "good_cfg n c'" by (auto simp: good_cfg_def)
  from that [OF c'(1) this c'(4) g] show thesis .
qed

subsection \<open>The contract of a controller\<close>

text \<open>Numbers of configurations are signed words: the next number may be lower, if it wraps.\<close>

lemma sint_next:
  fixes x y :: goint
  shows "sint (x + 1) \<le> sint x + 1" and "sint (x + 1) = sint y + 1 \<Longrightarrow> x = y"
proof -
  have b: "sint (x + 1) < 2 ^ 63" "- (2 ^ 63) \<le> sint x"
    using sint_less [of "x + 1"] sint_greater_eq [of x] by simp_all
  have e: "x + 1 = word_of_int (sint x + 1)" by simp
  show "sint (x + 1) \<le> sint x + 1"
  proof (cases "sint x + 1 < 2 ^ 63")
    case True
    have "sint (word_of_int (sint x + 1) :: goint) = signed_take_bit 63 (sint x + 1)"
      by (simp only: signed_of_int) simp
    also have "\<dots> = sint x + 1" using True b(2) by (simp add: signed_take_bit_int_eq_self)
    finally show ?thesis unfolding e by simp
  next
    case False
    with b(1) show ?thesis by simp
  qed
  assume "sint (x + 1) = sint y + 1"
  then have "word_of_int (sint (x + 1)) = (word_of_int (sint y + 1) :: goint)" by simp
  then show "x = y" by simp
qed

text \<open>The id that a worker is busy with.\<close>

fun own :: "worker_phase \<Rightarrow> Tgid option" where
  "own (Fresh g) = Some g"
| "own (Ready g) = Some g"
| "own (Joining g names) = Some g"
| "own (JoinTo g newcfg) = Some g"
| "own (Joined g) = Some g"
| "own (Member g) = Some g"
| "own (Leaving g) = Some g"
| "own (LeaveTo g newcfg) = Some g"
| "own (Left g) = Some g"
| "own (Exiting g) = Some g"
| "own _ = None"

text \<open>A configuration that was computed from one read earlier: if it is the next one, it was computed
  from the one that is stored now.\<close>

definition computed :: "Tgid \<Rightarrow> ShardConfig \<Rightarrow> ShardConfig \<Rightarrow> Tgid set \<Rightarrow> bool" where
  "computed n st new gs \<longleftrightarrow> good_cfg n new \<and> sint (Num new) \<le> sint (Num st) + 1 \<and>
     (sint (Num new) = sint (Num st) + 1 \<longrightarrow> gids new = gs)"

fun phase_good :: "Tgid \<Rightarrow> ShardConfig \<Rightarrow> worker_phase \<Rightarrow> bool" where
  "phase_good n st (Fresh g) \<longleftrightarrow> g \<notin> gids st"
| "phase_good n st (Ready g) \<longleftrightarrow> g \<notin> gids st"
| "phase_good n st (Joining g names) \<longleftrightarrow> g \<notin> gids st \<and> names = grp_names g"
| "phase_good n st (JoinTo g new) \<longleftrightarrow> g \<notin> gids st \<and> computed n st new (insert g (gids st))"
| "phase_good n st (Leaving g) \<longleftrightarrow> g \<in> gids st"
| "phase_good n st (LeaveTo g new) \<longleftrightarrow> g \<in> gids st \<and> computed n st new (gids st - {g})"
| "phase_good n st Hung \<longleftrightarrow> False"
| "phase_good n st (Died e) \<longleftrightarrow> (\<exists>x. e = GrpError x)"
| "phase_good n st _ \<longleftrightarrow> True"

text \<open>What a step of the worker that owns \<open>g\<close> may do to the stored configuration.\<close>

definition moves :: "Tgid option \<Rightarrow> ShardConfig \<Rightarrow> ShardConfig \<Rightarrow> bool" where
  "moves og st st' \<longleftrightarrow> gids st' = gids st \<and> Num st' = Num st \<or>
     (\<exists>g. og = Some g \<and> sint (Num st') = sint (Num st) + 1 \<and> gids st' - {g} = gids st - {g})"

lemma computed_moves:
  assumes "computed n st new A" and "moves og st st'" and "n \<le> m" and "gids st' = gids st \<longrightarrow> A = B"
  shows "computed m st' new B"
proof -
  have g: "good_cfg m new" using assms(1,3) good_cfg_mono by (auto simp: computed_def)
  from assms(2) consider "gids st' = gids st" "Num st' = Num st" | "sint (Num st') = sint (Num st) + 1"
    by (auto simp: moves_def)
  then show ?thesis
  proof cases
    case 1
    then show ?thesis using assms(1,4) g by (simp add: computed_def)
  next
    case 2
    moreover have "sint (Num new) \<le> sint (Num st) + 1" using assms(1) by (simp add: computed_def)
    ultimately show ?thesis using g by (simp add: computed_def)
  qed
qed

lemma others_ok:
  assumes "phase_good n st q" and "moves og st st'" and "n \<le> m" and "og \<noteq> None \<longrightarrow> own q \<noteq> og"
  shows "phase_good m st' q"
proof -
  have g: "g \<in> gids st' \<longleftrightarrow> g \<in> gids st" if "own q = Some g" for g
    using assms(2,4) that by (auto simp: moves_def)
  show ?thesis
  proof (cases q)
    case (JoinTo h new)
    with assms(1) have c: "computed n st new (insert h (gids st))" by simp
    have "computed m st' new (insert h (gids st'))" by (rule computed_moves [OF c assms(2,3)]) simp
    with JoinTo assms(1) g show ?thesis by simp
  next
    case (LeaveTo h new)
    with assms(1) have c: "computed n st new (gids st - {h})" by simp
    have "computed m st' new (gids st' - {h})" by (rule computed_moves [OF c assms(2,3)]) simp
    with LeaveTo assms(1) g show ?thesis by simp
  qed (use assms(1) g in simp_all)
qed

locale versioned_controller =
  fixes sck :: "'c controller" and init :: "'c \<Rightarrow> 'c" and stored :: "'c \<Rightarrow> ShardConfig" and holds :: "'c \<Rightarrow> bool"
  assumes fits: "holds c \<Longrightarrow> cfg_fits (stored c)"
    and query: "holds c \<Longrightarrow> fst (Query sck c) = stored c"
    and query_keeps: "holds c \<Longrightarrow> holds (snd (Query sck c)) \<and> same_config (stored c) (stored (snd (Query sck c)))"
    and init_keeps: "holds c \<Longrightarrow> holds (init c) \<and> same_config (stored c) (stored (init c))"
    and change: "holds c \<Longrightarrow> cfg_fits cfg \<Longrightarrow> holds (ChangeConfigTo sck cfg c) \<and>
      (same_config (stored c) (stored (ChangeConfigTo sck cfg c)) \<or>
       sint (Num cfg) = sint (Num (stored c)) + 1 \<and> same_config cfg (stored (ChangeConfigTo sck cfg c)))"

definition names_groups :: "('svc, 'w) starter \<Rightarrow> bool" where
  "names_groups mk \<longleftrightarrow> (\<forall>g gs gs'. mk g gs = Inr gs' \<longrightarrow> (\<exists>sg. map_of (grps gs') g = Some sg \<and> servernames sg = grp_names g))"

subsection \<open>A step keeps the stored configuration good\<close>

definition step_ok :: "worker_phase \<Rightarrow> Tgid \<Rightarrow> ShardConfig \<Rightarrow> worker_phase \<Rightarrow> Tgid \<Rightarrow> ShardConfig \<Rightarrow> bool" where
  "step_ok p n st p' n' st' \<longleftrightarrow> n \<le> n' \<and> good_cfg n' st' \<and> phase_good n' st' p' \<and> moves (own p) st st' \<and>
     (own p' = None \<or> own p' = own p \<or> own p = None \<and> own p' = Some n \<and> n' = n + 1)"

context versioned_controller
begin

lemma same_moves:
  assumes "good_cfg n (stored c)" and "holds c'" and "same_config (stored c) (stored c')"
  shows "good_cfg n (stored c')" and "gids (stored c') = gids (stored c)" and "moves og (stored c) (stored c')"
  using good_cfg_same [OF assms(1,3) fits [OF assms(2)]] by (auto simp: moves_def)

lemma change_moves:
  assumes h: "holds c" and st: "good_cfg n (stored c)" and new: "computed n (stored c) cfg A"
    and n: "n \<le> 2 ^ 63" and A: "A - {g} = gids (stored c) - {g}"
  shows "holds (ChangeConfigTo sck cfg c)" and "good_cfg n (stored (ChangeConfigTo sck cfg c))"
    and "moves (Some g) (stored c) (stored (ChangeConfigTo sck cfg c))"
proof -
  let ?c = "ChangeConfigTo sck cfg c"
  have good: "good_cfg n cfg" using new by (simp add: computed_def)
  note ch = change [OF h good_cfg_fits [OF good n]]
  then show holds: "holds ?c" by simp
  from ch consider "same_config (stored c) (stored ?c)"
    | "sint (Num cfg) = sint (Num (stored c)) + 1" "same_config cfg (stored ?c)" by blast
  then have "good_cfg n (stored ?c) \<and> moves (Some g) (stored c) (stored ?c)"
  proof cases
    case 1
    with same_moves [OF st holds] show ?thesis by blast
  next
    case 2
    then have "gids cfg = A" using new by (simp add: computed_def)
    with 2 A good_cfg_same [OF good 2(2) fits [OF holds]] show ?thesis by (simp add: moves_def)
  qed
  then show "good_cfg n (stored ?c)" "moves (Some g) (stored c) (stored ?c)" by auto
qed

lemma computed_next:
  assumes "good_cfg n new" and "Num new = Num cfg + 1" and "gids new = A" and "Num cfg = Num st"
  shows "computed n st new A"
  using assms sint_next(1) [of "Num st"] by (simp add: computed_def)

lemma member_is_group: "good_cfg n c \<Longrightarrow> IsMember c g \<Longrightarrow> g \<in> gids c"
  by (auto simp: good_cfg_def valid_config_def assigned_def IsMember_def list_ex_iff gids_def split: if_splits)

lemma check_ok:
  assumes "holds c" and "good_cfg n (stored c)" and "checkMember sck g c = (found, c')"
  shows "holds c'" and "good_cfg n (stored c')" and "moves og (stored c) (stored c')" and "found \<Longrightarrow> g \<in> gids (stored c')"
proof -
  have c': "c' = snd (Query sck c)" "found = IsMember (stored c) g"
    using assms(3) query [OF assms(1)] by (auto simp: checkMember_def split: prod.splits)
  with query_keeps [OF assms(1)] show h: "holds c'" by simp
  have "same_config (stored c) (stored c')" using query_keeps [OF assms(1)] c'(1) by simp
  from same_moves [OF assms(2) h this] show "good_cfg n (stored c')" "moves og (stored c) (stored c')"
    "found \<Longrightarrow> g \<in> gids (stored c')" using member_is_group [OF assms(2)] c'(2) by auto
qed

lemma worker_ok:
  assumes step: "worker_step mk sck init p w = (p', w')" and mk: "names_groups mk" and h: "holds (sh_ctl w)"
    and st: "good_cfg (sh_ngid w) (stored (sh_ctl w))" and p: "phase_good (sh_ngid w) (stored (sh_ctl w)) p"
    and own: "\<forall>g. own p = Some g \<longrightarrow> 1 < g \<and> g < sh_ngid w" and n: "sh_ngid w' \<le> 2 ^ 63"
  shows "holds (sh_ctl w') \<and> step_ok p (sh_ngid w) (stored (sh_ctl w)) p' (sh_ngid w') (stored (sh_ctl w'))"
proof (cases p)
  case Idle
  with step have w': "p' = Fresh (sh_ngid w)" "w' = w\<lparr>sh_ngid := sh_ngid w + 1\<rparr>" by (auto simp: newGid_def)
  with h st Idle good_cfg_new [OF st] good_cfg_mono [OF st] show ?thesis by (simp add: step_ok_def moves_def)
next
  case (Fresh g)
  with step have w': "p' = Ready g" "w' = w\<lparr>sh_ctl := init (sh_ctl w)\<rparr>" by auto
  have i: "holds (init (sh_ctl w))" "same_config (stored (sh_ctl w)) (stored (init (sh_ctl w)))"
    using init_keeps [OF h] by auto
  from same_moves [OF st i] show ?thesis using w' Fresh i(1) p by (simp add: step_ok_def)
next
  case (Ready g)
  have "moves og (stored (sh_ctl w)) (stored (sh_ctl w))" for og by (simp add: moves_def)
  moreover have "servernames sg = grp_names g" if "mk g (sh_groups w) = Inr gs" "map_of (grps gs) g = Some sg" for gs sg
    using mk that unfolding names_groups_def by (metis option.inject)
  ultimately show ?thesis using step Ready h st p by (auto simp: step_ok_def split: sum.splits option.splits)
next
  case (Joining g names)
  let ?st = "stored (sh_ctl w)"
  have g: "g \<notin> gids ?st" "names = grp_names g" "1 < g" "g < sh_ngid w" using p own Joining by auto
  obtain new where new: "join_config g names ?st = Some (Inr new)" "good_cfg (sh_ngid w) new" "Num new = Num ?st + 1"
    "gids new = insert g (gids ?st)" using good_join [OF st g(1,3,4)] g(2) by metis
  obtain c where c: "Query sck (sh_ctl w) = (?st, c)" using query [OF h] by (metis prod.collapse)
  have k: "holds c" "same_config ?st (stored c)" using query_keeps [OF h] c by auto
  note m = same_moves [OF st k]
  have w': "p' = JoinTo g new" "w' = w\<lparr>sh_ctl := c\<rparr>" using step Joining c new(1) by auto
  have "computed (sh_ngid w) (stored c) new (insert g (gids (stored c)))"
    using computed_next [OF new(2,3)] new(4) m(2) k(2) by (simp add: same_config_def)
  then show ?thesis using w' k(1) m g(1) Joining by (simp add: step_ok_def)
next
  case (JoinTo g new)
  have w': "p' = Joined g" "w' = w\<lparr>sh_ctl := ChangeConfigTo sck new (sh_ctl w)\<rparr>" using step JoinTo by auto
  have "computed (sh_ngid w) (stored (sh_ctl w)) new (insert g (gids (stored (sh_ctl w))))" using p JoinTo by simp
  from change_moves [OF h st this, of g] n w' show ?thesis using JoinTo by (simp add: step_ok_def)
next
  case (Joined g)
  obtain found c where c: "checkMember sck g (sh_ctl w) = (found, c)" by force
  from check_ok [OF h st c] show ?thesis using step Joined c by (auto simp: step_ok_def)
next
  case (Member g)
  obtain found c where c: "checkMember sck g (sh_ctl w) = (found, c)" by force
  from check_ok [OF h st c] show ?thesis using step Member c by (auto simp: step_ok_def)
next
  case (Leaving g)
  let ?st = "stored (sh_ctl w)"
  have g: "g \<in> gids ?st" "1 < g" using p own Leaving by auto
  obtain new where new: "leave_config g ?st = Some (Inr new)" "good_cfg (sh_ngid w) new" "Num new = Num ?st + 1"
    "gids new = gids ?st - {g}" using good_leave [OF st g] by metis
  obtain c where c: "Query sck (sh_ctl w) = (?st, c)" using query [OF h] by (metis prod.collapse)
  have k: "holds c" "same_config ?st (stored c)" using query_keeps [OF h] c by auto
  note m = same_moves [OF st k]
  have w': "p' = LeaveTo g new" "w' = w\<lparr>sh_ctl := c\<rparr>" using step Leaving c new(1) by auto
  have "computed (sh_ngid w) (stored c) new (gids (stored c) - {g})"
    using computed_next [OF new(2,3)] new(4) m(2) k(2) by (simp add: same_config_def)
  then show ?thesis using w' k(1) m g(1) Leaving by (simp add: step_ok_def)
next
  case (LeaveTo g new)
  have w': "p' = Left g" "w' = w\<lparr>sh_ctl := ChangeConfigTo sck new (sh_ctl w)\<rparr>" using step LeaveTo by auto
  have "computed (sh_ngid w) (stored (sh_ctl w)) new (gids (stored (sh_ctl w)) - {g})" using p LeaveTo by simp
  from change_moves [OF h st this, of g] n w' show ?thesis using LeaveTo by (simp add: step_ok_def)
next
  case (Left g)
  obtain found c where c: "checkMember sck g (sh_ctl w) = (found, c)" by force
  from check_ok [OF h st c] show ?thesis using step Left c by (cases found) (auto simp: step_ok_def)
qed (use step h st p in \<open>auto simp: step_ok_def moves_def split: sum.splits\<close>)

text \<open>All workers at once: they own different ids, below the next new one.\<close>

definition concur_inv :: "('svc, 'w, 'c) concur \<Rightarrow> bool" where
  "concur_inv s \<longleftrightarrow> (let w = world s; ws = workers s in
     holds (sh_ctl w) \<and> good_cfg (sh_ngid w) (stored (sh_ctl w)) \<and>
     (\<forall>p \<in> set ws. phase_good (sh_ngid w) (stored (sh_ctl w)) p \<and> (\<forall>g. own p = Some g \<longrightarrow> 1 < g \<and> g < sh_ngid w)) \<and>
     (\<forall>i < length ws. \<forall>j < length ws. i \<noteq> j \<longrightarrow> own (ws ! i) \<noteq> None \<longrightarrow> own (ws ! i) \<noteq> own (ws ! j)))"

lemma concur_inv_step:
  assumes step: "concur_step mk sck init s s'" and mk: "names_groups mk" and inv: "concur_inv s"
    and n: "sh_ngid (world s') \<le> 2 ^ 63"
  shows "concur_inv s'"
  using step
proof (cases rule: concur_stepE)
  case (work i p' w')
  let ?w = "world s" and ?ws = "workers s"
  let ?p = "?ws ! i" and ?n = "sh_ngid (world s)" and ?st = "stored (sh_ctl (world s))"
  from inv have h: "holds (sh_ctl ?w)" and st: "good_cfg ?n ?st"
    and ph: "\<And>q. q \<in> set ?ws \<Longrightarrow> phase_good ?n ?st q" and ow: "\<And>q g. q \<in> set ?ws \<Longrightarrow> own q = Some g \<Longrightarrow> 1 < g \<and> g < ?n"
    and dist: "\<And>j k. j < length ?ws \<Longrightarrow> k < length ?ws \<Longrightarrow> j \<noteq> k \<Longrightarrow> own (?ws ! j) \<noteq> None \<Longrightarrow> own (?ws ! j) \<noteq> own (?ws ! k)"
    by (auto simp: concur_inv_def Let_def)
  have i: "?p \<in> set ?ws" using work(2) by simp
  let ?n' = "sh_ngid w'" and ?st' = "stored (sh_ctl w')"
  have ok: "holds (sh_ctl w')" "step_ok ?p ?n ?st p' ?n' ?st'"
    using worker_ok [OF work(3) mk h st ph [OF i]] ow [OF i] n work(1) by auto
  then have s: "?n \<le> ?n'" "good_cfg ?n' ?st'" "phase_good ?n' ?st' p'" "moves (own ?p) ?st ?st'"
    and o: "own p' = None \<or> own p' = own ?p \<or> own ?p = None \<and> own p' = Some ?n \<and> ?n' = ?n + 1"
    by (auto simp: step_ok_def)
  have "1 < ?n" using good_cfg_ids [OF st, of 1] st by (simp add: good_cfg_def)
  have own': "1 < g \<and> g < ?n'" if "own p' = Some g" for g
    using o s(1) ow [OF i, of g] that \<open>1 < ?n\<close> by (elim disjE) auto
  have other: "phase_good ?n' ?st' (?ws ! j) \<and> (\<forall>g. own (?ws ! j) = Some g \<longrightarrow> 1 < g \<and> g < ?n') \<and>
      (own (?ws ! j) \<noteq> None \<longrightarrow> own (?ws ! j) \<noteq> own p')" if j: "j < length ?ws" "j \<noteq> i" for j
  proof -
    have m: "?ws ! j \<in> set ?ws" using j(1) by simp
    have "own ?p \<noteq> None \<longrightarrow> own (?ws ! j) \<noteq> own ?p" using dist [OF work(2) j(1)] j(2) by metis
    from others_ok [OF ph [OF m] s(4,1) this] have "phase_good ?n' ?st' (?ws ! j)" .
    moreover have "\<forall>g. own (?ws ! j) = Some g \<longrightarrow> 1 < g \<and> g < ?n'" using ow [OF m] s(1) by force
    moreover have "own (?ws ! j) \<noteq> None \<longrightarrow> own (?ws ! j) \<noteq> own p'"
      using o dist [OF j(1) work(2) j(2)] ow [OF m] by force
    ultimately show ?thesis by blast
  qed
  have "phase_good ?n' ?st' q \<and> (\<forall>g. own q = Some g \<longrightarrow> 1 < g \<and> g < ?n')" if q: "q \<in> set (?ws[i := p'])" for q
  proof -
    from q obtain j where j: "j < length ?ws" "q = ?ws[i := p'] ! j" by (metis in_set_conv_nth length_list_update)
    show ?thesis using other [OF j(1)] s(3) own' j by (cases "j = i") auto
  qed
  moreover have "own (?ws[i := p'] ! j) \<noteq> own (?ws[i := p'] ! k)"
    if "j < length ?ws" "k < length ?ws" "j \<noteq> k" "own (?ws[i := p'] ! j) \<noteq> None" for j k
    using that other [of j] other [of k] dist [of j k] by (cases "j = i"; cases "k = i") auto
  ultimately show ?thesis using ok(1) s(2) work(1) by (simp add: concur_inv_def Let_def)
next
  case wake
  with inv show ?thesis by (simp add: concur_inv_def)
next
  case (stop k i)
  let ?ws = "workers s"
  have sub: "set (?ws[i := Stopped]) \<subseteq> insert Stopped (set ?ws)" by (rule set_update_subset_insert)
  have "\<forall>q \<in> set (?ws[i := Stopped]). phase_good (sh_ngid (world s)) (stored (sh_ctl (world s))) q \<and>
      (\<forall>g. own q = Some g \<longrightarrow> 1 < g \<and> g < sh_ngid (world s))"
    using sub inv by (auto simp: concur_inv_def Let_def)
  moreover have "own (?ws[i := Stopped] ! j) \<noteq> own (?ws[i := Stopped] ! k)"
    if "j < length ?ws" "k < length ?ws" "j \<noteq> k" "own (?ws[i := Stopped] ! j) \<noteq> None" for j k
    using that inv by (cases "j = i"; cases "k = i") (auto simp: concur_inv_def Let_def)
  ultimately show ?thesis using inv stop(1) by (simp add: concur_inv_def Let_def)
qed

lemma ngid_grows:
  assumes "concur_step mk sck init s s'"
  shows "sh_ngid (world s) \<le> sh_ngid (world s')"
  using assms
proof (cases rule: concur_stepE)
  case (work i p w)
  then show ?thesis
    by (cases "workers s ! i") (auto simp: newGid_def split: prod.splits sum.splits option.splits)
qed simp_all

lemma concur_inv_run:
  assumes "concur_run mk sck init s s'" and mk: "names_groups mk" and inv: "concur_inv s"
    and "sh_ngid (world s') \<le> 2 ^ 63"
  shows "concur_inv s'"
  using assms(1,4)
proof (induction rule: rtranclp_induct)
  case base
  show ?case by (rule inv)
next
  case (step y z)
  have "sh_ngid (world y) \<le> 2 ^ 63" using ngid_grows [OF step(2)] step.prems by linarith
  with step.IH have "concur_inv y" by blast
  from concur_inv_step [OF step(2) mk this step.prems] show ?case .
qed

lemma concur_inv_init: "holds (sh_ctl w) \<Longrightarrow> good_cfg (sh_ngid w) (stored (sh_ctl w)) \<Longrightarrow> concur_inv (concur_init k w)"
  by (simp add: concur_inv_def concur_init_def Let_def)

lemma workers_safe:
  assumes "names_groups mk" and "holds (sh_ctl w)" and "good_cfg (sh_ngid w) (stored (sh_ctl w))"
    and "concur_run mk sck init (concur_init k w) s" and "sh_ngid (world s) \<le> 2 ^ 63"
  shows "good_cfg (sh_ngid (world s)) (stored (sh_ctl (world s))) \<and>
    (\<forall>p \<in> set (workers s). p \<noteq> Hung \<and> (\<forall>e. p = Died e \<longrightarrow> (\<exists>x. e = GrpError x)))"
  using concur_inv_run [OF assms(4,1) concur_inv_init [OF assms(2,3)] assms(5)]
  by (fastforce simp: concur_inv_def Let_def)

end

subsection \<open>Groups are started under the names that are joined\<close>

lemma StartServer_names: "StartServer mks svcOf rnd i ge = Inr ge' \<Longrightarrow> servernames (fst ge') = servernames (fst ge)"
  by (auto simp: StartServer_def andthen_def Let_def split: prod.splits sum.splits)

lemma connect_names: "connect i ts gn = Inr gn' \<Longrightarrow> servernames (fst gn') = servernames (fst gn)"
  by (auto simp: connect_def andthen_def Let_def split: prod.splits sum.splits)

lemma StartServers_names:
  assumes "StartServers mks svcOf rnd ge = Inr ge'"
  shows "servernames (fst ge') = servernames (fst ge)"
proof -
  from assms obtain ge1 gn' where s: "start mks svcOf rnd ge = Inr ge1"
    and c: "ConnectAll (fst ge1, net (snd ge1)) = Inr gn'" "fst ge' = fst gn'"
    by (auto simp: StartServers_def on_net_def andthen_def split: sum.splits prod.splits)
  have "servernames (fst ge1) = servernames (fst ge)"
    using s unfolding start_def
    by (rule each_invariant [where P = "\<lambda>g. servernames (fst g) = servernames (fst ge)"]) (auto dest: StartServer_names)
  moreover have "servernames (fst gn') = servernames (fst ge1)"
    using c(1) unfolding ConnectAll_def
    by (rule each_invariant [where P = "\<lambda>g. servernames (fst g) = servernames (fst ge1)"]) (auto simp: ConnectOne_def dest: connect_names)
  ultimately show ?thesis using c(2) by simp
qed

lemma MakeGroupStart_names: "names_groups (\<lambda>g. MakeGroupStart mks svcOf (rnd g) (rnd' g) g NSRV)"
proof -
  have "\<exists>sg. map_of (grps gs') g = Some sg \<and> servernames sg = grp_names g"
    if "MakeGroupStart mks svcOf (rnd g) (rnd' g) g NSRV gs = Inr gs'" for g gs gs'
  proof -
    from that obtain gs1 where m: "MakeGroup (rnd g) g NSRV gs = Inr gs1"
      and o: "on_group g (StartServers mks svcOf (rnd' g)) gs1 = Inr gs'"
      by (auto simp: MakeGroupStart_def andthen_def split: sum.splits)
    from m obtain sg where sg: "map_of (grps gs1) g = Some sg" "servernames sg = grp_names g"
      by (auto simp: MakeGroup_def makeSrvGrp_def andthen_def grp_names_def update_conv' split: sum.splits prod.splits)
    with o obtain ge' where "StartServers mks svcOf (rnd' g) (sg, genv gs1) = Inr ge'" "map_of (grps gs') g = Some (fst ge')"
      by (auto simp: on_group_def andthen_def update_conv' split: sum.splits prod.splits)
    with StartServers_names [OF this(1)] sg(2) show ?thesis by simp
  qed
  then show ?thesis by (simp add: names_groups_def)
qed

subsection \<open>A controller that meets the contract\<close>

text \<open>The configuration is the text under one key of the key/value server; it is changed by a put at
  the version that was read, and only from one number to the next.\<close>

definition no_config :: ShardConfig where
  "no_config = \<lparr>Num = 0, Shards = replicate NShards 0, Groups = []\<rparr>"

definition read_config :: "entry \<Rightarrow> ShardConfig" where
  "read_config e = (case FromString (oValue (spec_get e)) of None \<Rightarrow> no_config | Some c \<Rightarrow> c)"

definition kv_controller :: "entry controller" where
  "kv_controller = \<lparr>Query = (\<lambda>e. (read_config e, e)),
     ChangeConfigTo = (\<lambda>cfg e.
       if sint (Num cfg) = sint (Num (read_config e)) + 1
       then snd (spec_put (String cfg) (oVersion (spec_get e)) e) else e),
     InitConfig = (\<lambda>cfg e. snd (spec_put (String cfg) 0 e))\<rparr>"

definition kv_holds :: "entry \<Rightarrow> bool" where
  "kv_holds e \<longleftrightarrow> (\<exists>c v. e = Some (String c, v) \<and> cfg_fits c)"

lemma read_config_text:
  assumes "cfg_fits c"
  shows "cfg_fits (read_config (Some (String c, v)))" "same_config c (read_config (Some (String c, v)))"
  using FromString_String [OF assms] by (auto simp: read_config_def spec_get_def)

lemma spec_put_here: "snd (spec_put s (oVersion (spec_get (Some (t, v)))) (Some (t, v))) = Some (s, v + 1)"
  by (simp add: spec_put_def spec_get_def)

interpretation kvc: versioned_controller kv_controller "\<lambda>e. e" read_config kv_holds
proof unfold_locales
  fix e and cfg :: ShardConfig
  assume "kv_holds e"
  then obtain c v where e: "e = Some (String c, v)" "cfg_fits c" by (auto simp: kv_holds_def)
  show "cfg_fits (read_config e)" using read_config_text [OF e(2)] e(1) by simp
  show "fst (Query kv_controller e) = read_config e" by (simp add: kv_controller_def)
  have r: "same_config (read_config e) (read_config e)" by (simp add: same_config_def)
  show "kv_holds (snd (Query kv_controller e)) \<and> same_config (read_config e) (read_config (snd (Query kv_controller e)))"
    "kv_holds e \<and> same_config (read_config e) (read_config e)"
    using \<open>kv_holds e\<close> r by (simp_all add: kv_controller_def)
  assume new: "cfg_fits cfg"
  show "kv_holds (ChangeConfigTo kv_controller cfg e) \<and>
    (same_config (read_config e) (read_config (ChangeConfigTo kv_controller cfg e)) \<or>
     sint (Num cfg) = sint (Num (read_config e)) + 1 \<and> same_config cfg (read_config (ChangeConfigTo kv_controller cfg e)))"
  proof (cases "sint (Num cfg) = sint (Num (read_config e)) + 1")
    case True
    then have "ChangeConfigTo kv_controller cfg e = Some (String cfg, v + 1)"
      using e(1) spec_put_here by (simp add: kv_controller_def)
    with True read_config_text(2) [OF new] new show ?thesis by (auto simp: kv_holds_def)
  next
    case False
    then show ?thesis using \<open>kv_holds e\<close> r by (simp add: kv_controller_def)
  qed
qed

subsection \<open>Properties\<close>


definition set_up_config :: ShardConfig where
  "set_up_config = \<lparr>Num = 1, Shards = replicate NShards 1, Groups = [(1, grp_names 1)]\<rparr>"

lemma set_up_good: "good_cfg 2 set_up_config"
  by (auto simp: good_cfg_def set_up_config_def valid_config_def wf_config_def gids_def balanced_def assigned_def NShards_def)

definition demo_shared :: "(nat, nat, entry) shared" where
  "demo_shared = \<lparr>sh_ngid = 2, sh_groups = newGroups \<lparr>net = MakeNetwork, store = init_pstore, labs = [], killed = []\<rparr>,
     sh_ctl = Some (String set_up_config, 1)\<rparr>"


end
