(* ===== verification/Shard_Shutdown.thy ===== *)
theory Shard_Shutdown
  imports Shard_Tester
begin

section \<open>Is the data really sharded? (shardkv1/test.go)\<close>

text \<open>
  \<open>checkShutdownSharding\<close> shuts a group down, starts one goroutine per key that gets the key and
  reports whether it found the value, and counts the reports until none has come for two seconds;
  it fails the test if all keys could be read, or one with a wrong value. The goroutines and the
  main goroutine, which meet on an unbuffered channel and share the flag \<open>done\<close>, are a step
  relation. The clerks, whose \<open>Get\<close> need not return, and the operations on the group are a record
  of functions on the world. The clerks that the check makes are never deleted, in the code and here.
\<close>

record ('k, 'w) shard_env =
  se_Shutdown :: "'w \<Rightarrow> 'w"
  se_StartServers :: "'w \<Rightarrow> 'w"
  se_MakeClerk :: "'w \<Rightarrow> 'k \<times> 'w"
  se_Get :: "'k \<Rightarrow> string \<Rightarrow> 'w \<Rightarrow> (string \<times> 'w) option"

datatype getter = Calling | Got string | Sending string | Heard string | Late

datatype shut_pc = Starting nat | Selecting | Counting | Restored | Failed string | TooMany | Panic

record ('k, 'w) shut_state =
  sd_world :: 'w
  sd_getters :: "('k \<times> getter) list"
  sd_done :: bool
  sd_ndone :: nat
  sd_main :: shut_pc

text \<open>What a goroutine reports: nothing, or what is wrong.\<close>

definition report :: "string \<Rightarrow> string \<Rightarrow> string \<Rightarrow> string" where
  "report key expected v =
     (if v \<noteq> expected then ''Get('' @ key @ ''): expected:'' @ [CHR 0x0A] @ expected @ [CHR 0x0A] @ ''received:'' @ [CHR 0x0A] @ v
      else [])"

definition shut_init :: "('k, 'w) shard_env \<Rightarrow> 'w \<Rightarrow> ('k, 'w) shut_state" where
  "shut_init E w = \<lparr>sd_world = se_Shutdown E w, sd_getters = [], sd_done = False, sd_ndone = 0, sd_main = Starting 0\<rparr>"

definition set_getter :: "nat \<Rightarrow> getter \<Rightarrow> ('k, 'w) shut_state \<Rightarrow> ('k, 'w) shut_state" where
  "set_getter i g s = s\<lparr>sd_getters := (sd_getters s)[i := (fst (sd_getters s ! i), g)]\<rparr>"

text \<open>The timer of \<open>select\<close> can fire only while nobody is sending. An index out of range of \<open>va\<close>
  panics, which ends the process.\<close>

inductive shut_step ::
  "('k, 'w) shard_env \<Rightarrow> string list \<Rightarrow> string list \<Rightarrow> ('k, 'w) shut_state \<Rightarrow> ('k, 'w) shut_state \<Rightarrow> bool"
  for E ka va where
  spawn: "sd_main s = Starting xi \<Longrightarrow> xi < length ka \<Longrightarrow> se_MakeClerk E (sd_world s) = (ck, w) \<Longrightarrow>
    shut_step E ka va s (s\<lparr>sd_world := w, sd_getters := sd_getters s @ [(ck, Calling)], sd_main := Starting (xi + 1)\<rparr>)"
| listen: "sd_main s = Starting xi \<Longrightarrow> \<not> xi < length ka \<Longrightarrow> shut_step E ka va s (s\<lparr>sd_main := Selecting\<rparr>)"
| answer: "i < length (sd_getters s) \<Longrightarrow> sd_getters s ! i = (ck, Calling) \<Longrightarrow> se_Get E ck (ka ! i) (sd_world s) = Some (v, w) \<Longrightarrow>
    shut_step E ka va s ((set_getter i (Got v) s)\<lparr>sd_world := w\<rparr>)"
| late: "i < length (sd_getters s) \<Longrightarrow> snd (sd_getters s ! i) = Got v \<Longrightarrow> sd_done s \<Longrightarrow>
    shut_step E ka va s (set_getter i Late s)"
| send: "i < length (sd_getters s) \<Longrightarrow> snd (sd_getters s ! i) = Got v \<Longrightarrow> \<not> sd_done s \<Longrightarrow> i < length va \<Longrightarrow>
    shut_step E ka va s (set_getter i (Sending (report (ka ! i) (va ! i) v)) s)"
| panic: "i < length (sd_getters s) \<Longrightarrow> snd (sd_getters s ! i) = Got v \<Longrightarrow> \<not> sd_done s \<Longrightarrow> \<not> i < length va \<Longrightarrow>
    shut_step E ka va s (s\<lparr>sd_main := Panic\<rparr>)"
| receive_ok: "sd_main s = Selecting \<Longrightarrow> i < length (sd_getters s) \<Longrightarrow> snd (sd_getters s ! i) = Sending err \<Longrightarrow> err = [] \<Longrightarrow>
    shut_step E ka va s ((set_getter i (Heard err) s)\<lparr>sd_ndone := sd_ndone s + 1\<rparr>)"
| receive_err: "sd_main s = Selecting \<Longrightarrow> i < length (sd_getters s) \<Longrightarrow> snd (sd_getters s ! i) = Sending err \<Longrightarrow> err \<noteq> [] \<Longrightarrow>
    shut_step E ka va s ((set_getter i (Heard err) s)\<lparr>sd_main := Failed err\<rparr>)"
| timeout: "sd_main s = Selecting \<Longrightarrow> \<forall>(ck, g) \<in> set (sd_getters s). \<forall>err. g \<noteq> Sending err \<Longrightarrow>
    shut_step E ka va s (s\<lparr>sd_done := True, sd_main := Counting\<rparr>)"
| too_many: "sd_main s = Counting \<Longrightarrow> sd_ndone s \<ge> length ka \<Longrightarrow> shut_step E ka va s (s\<lparr>sd_main := TooMany\<rparr>)"
| restore: "sd_main s = Counting \<Longrightarrow> \<not> sd_ndone s \<ge> length ka \<Longrightarrow>
    shut_step E ka va s (s\<lparr>sd_world := se_StartServers E (sd_world s), sd_main := Restored\<rparr>)"

inductive_cases shut_stepE [consumes 1, case_names spawn listen answer late send panic receive_ok receive_err timeout too_many restore]:
  "shut_step E ka va s s'"

abbreviation shut_run where
  "shut_run E ka va \<equiv> (shut_step E ka va)\<^sup>*\<^sup>*"

subsection \<open>The invariant\<close>

text \<open>Some clerk's \<open>Get\<close> of the \<open>i\<close>-th key returned \<open>v\<close> in a world with property \<open>P\<close>.\<close>

definition returned :: "('k, 'w) shard_env \<Rightarrow> string list \<Rightarrow> ('w \<Rightarrow> bool) \<Rightarrow> nat \<Rightarrow> string \<Rightarrow> bool" where
  "returned E ka P i v \<longleftrightarrow> (\<exists>ck w w'. P w \<and> se_Get E ck (ka ! i) w = Some (v, w'))"

fun getter_ok :: "('k, 'w) shard_env \<Rightarrow> string list \<Rightarrow> string list \<Rightarrow> ('w \<Rightarrow> bool) \<Rightarrow> nat \<Rightarrow> getter \<Rightarrow> bool" where
  "getter_ok E ka va P i (Got v) \<longleftrightarrow> returned E ka P i v"
| "getter_ok E ka va P i (Sending err) \<longleftrightarrow> (\<exists>v. returned E ka P i v \<and> err = report (ka ! i) (va ! i) v)"
| "getter_ok E ka va P i (Heard err) \<longleftrightarrow> (\<exists>v. returned E ka P i v \<and> err = report (ka ! i) (va ! i) v)"
| "getter_ok E ka va P i _ \<longleftrightarrow> True"

text \<open>Until the group is started again the world has the property \<open>P\<close> (the group is down).\<close>

definition stays :: "('k, 'w) shard_env \<Rightarrow> ('w \<Rightarrow> bool) \<Rightarrow> bool" where
  "stays E P \<longleftrightarrow> (\<forall>w. P w \<longrightarrow> P (snd (se_MakeClerk E w))) \<and> (\<forall>ck key w v w'. P w \<longrightarrow> se_Get E ck key w = Some (v, w') \<longrightarrow> P w')"

definition heard :: "('k, 'w) shut_state \<Rightarrow> nat" where
  "heard s = length (filter (\<lambda>p. snd p = Heard []) (sd_getters s))"

definition shut_inv :: "('k, 'w) shard_env \<Rightarrow> string list \<Rightarrow> string list \<Rightarrow> ('w \<Rightarrow> bool) \<Rightarrow> ('k, 'w) shut_state \<Rightarrow> bool" where
  "shut_inv E ka va P s \<longleftrightarrow>
     length (sd_getters s) = (case sd_main s of Starting xi \<Rightarrow> xi | _ \<Rightarrow> length ka) \<and> length (sd_getters s) \<le> length ka \<and>
     sd_ndone s = heard s \<and>
     (sd_main s \<noteq> Restored \<longrightarrow> P (sd_world s) \<and> (\<forall>i < length (sd_getters s). getter_ok E ka va P i (snd (sd_getters s ! i)))) \<and>
     (sd_done s \<longleftrightarrow> sd_main s \<in> {Counting, Restored, TooMany}) \<and> sd_main s \<noteq> Panic \<and>
     (\<forall>err. sd_main s = Failed err \<longrightarrow> err \<noteq> [] \<and> (\<exists>i < length ka. getter_ok E ka va P i (Heard err))) \<and>
     (sd_main s = TooMany \<longrightarrow> length ka \<le> sd_ndone s) \<and> (sd_main s = Restored \<longrightarrow> sd_ndone s < length ka)"

lemma set_getter_simps [simp]:
  "sd_world (set_getter i g s) = sd_world s" "sd_done (set_getter i g s) = sd_done s"
  "sd_ndone (set_getter i g s) = sd_ndone s" "sd_main (set_getter i g s) = sd_main s"
  "length (sd_getters (set_getter i g s)) = length (sd_getters s)"
  "i < length (sd_getters s) \<Longrightarrow> snd (sd_getters (set_getter i g s) ! j) = (if j = i then g else snd (sd_getters s ! j))"
  by (auto simp: set_getter_def nth_list_update)

lemma heard_set_getter:
  assumes "i < length (sd_getters s)" and "snd (sd_getters s ! i) \<noteq> Heard []"
  shows "heard (set_getter i g s) = heard s + (if g = Heard [] then 1 else 0)"
  using length_filter_update [OF assms(1), of "\<lambda>p. snd p = Heard []" "(fst (sd_getters s ! i), g)"] assms(2)
  by (simp add: heard_def set_getter_def)

lemma heard_other [simp]:
  "heard (s\<lparr>sd_world := w\<rparr>) = heard s" "heard (s\<lparr>sd_done := b\<rparr>) = heard s" "heard (s\<lparr>sd_ndone := n\<rparr>) = heard s"
  "heard (s\<lparr>sd_main := m\<rparr>) = heard s"
  "heard (s\<lparr>sd_getters := sd_getters s @ [p]\<rparr>) = heard s + (if snd p = Heard [] then 1 else 0)"
  by (simp_all add: heard_def)

lemma getter_ok_mono: "getter_ok E ka va P i g \<Longrightarrow> (\<And>w. P w \<Longrightarrow> Q w) \<Longrightarrow> getter_ok E ka va Q i g"
  by (cases g) (auto simp: returned_def)

lemma shut_inv_init: "P (se_Shutdown E w) \<Longrightarrow> shut_inv E ka va P (shut_init E w)"
  by (simp add: shut_inv_def shut_init_def heard_def)

lemma inv_getter:
  assumes "shut_inv E ka va P s" and "sd_main s \<noteq> Restored" and "i < length (sd_getters s)" and "snd (sd_getters s ! i) = g"
  shows "getter_ok E ka va P i g" "i < length ka"
  using assms by (auto simp: shut_inv_def simp del: getter_ok.simps)

text \<open>A getter moves on, and the main goroutine does not.\<close>

lemma inv_set_getter:
  assumes "shut_inv E ka va P s" and "i < length (sd_getters s)" and "snd (sd_getters s ! i) \<noteq> Heard []"
    and "sd_main s \<noteq> Restored \<Longrightarrow> getter_ok E ka va P i g" and "g \<noteq> Heard []"
  shows "shut_inv E ka va P (set_getter i g s)"
  using assms by (auto simp: shut_inv_def heard_set_getter simp del: getter_ok.simps)

lemma shut_inv_step:
  assumes "shut_step E ka va s s'" and inv: "shut_inv E ka va P s" and P: "stays E P" and len: "length ka \<le> length va"
  shows "shut_inv E ka va P s'"
  using assms(1)
proof (cases rule: shut_stepE)
  case (spawn xi ck w)
  then have "P w" using P inv by (auto simp: stays_def shut_inv_def dest: spec [of _ "sd_world s"])
  with spawn inv show ?thesis by (auto simp: shut_inv_def nth_append less_Suc_eq heard_def)
next
  case (answer i ck v w)
  have "shut_inv E ka va P (set_getter i (Got v) s)"
  proof (rule inv_set_getter [OF inv])
    assume "sd_main s \<noteq> Restored"
    then have "P (sd_world s)" using inv by (simp add: shut_inv_def)
    with answer show "getter_ok E ka va P i (Got v)" by (auto simp: returned_def)
  qed (use answer in simp_all)
  moreover have "sd_main s \<noteq> Restored \<longrightarrow> P w" using P inv answer by (auto simp: stays_def shut_inv_def)
  ultimately show ?thesis using answer(1) by (auto simp: shut_inv_def)
next
  case (late i v)
  then show ?thesis by (auto intro!: inv_set_getter [OF inv])
next
  case (send i v)
  have "sd_main s \<noteq> Restored" using inv send by (auto simp: shut_inv_def)
  from inv_getter(1) [OF inv this send(2,3)] send show ?thesis by (auto intro!: inv_set_getter [OF inv])
next
  case (panic i v)
  have "sd_main s \<noteq> Restored" using inv panic by (auto simp: shut_inv_def)
  from inv_getter(2) [OF inv this panic(2,3)] panic len show ?thesis by simp
next
  case (receive_ok i)
  from inv_getter [OF inv _ receive_ok(3,4)] receive_ok inv show ?thesis
    by (auto simp: shut_inv_def heard_set_getter)
next
  case (receive_err i err)
  from inv_getter [OF inv _ receive_err(3,4)] receive_err inv show ?thesis
    by (auto simp: shut_inv_def heard_set_getter)
qed (use inv in \<open>auto simp: shut_inv_def simp del: getter_ok.simps\<close>)

lemma shut_inv_run:
  assumes "shut_run E ka va s s'" and "shut_inv E ka va P s" and "stays E P" and "length ka \<le> length va"
  shows "shut_inv E ka va P s'"
  using assms by (induction rule: rtranclp_induct) (auto intro: shut_inv_step)

subsection \<open>What the outcomes mean\<close>

lemma report_empty: "report key expected v = [] \<longleftrightarrow> v = expected"
  by (simp add: report_def)

lemma stays_True: "stays E (\<lambda>_. True)"
  by (simp add: stays_def)

lemma heard_all:
  assumes "shut_inv E ka va P s" and "length ka \<le> heard s" and "i < length ka" and "sd_main s \<noteq> Restored"
  shows "returned E ka P i (va ! i)"
proof -
  have n: "length (sd_getters s) = length ka" "i < length (sd_getters s)"
  proof -
    have "heard s \<le> length (sd_getters s)" unfolding heard_def by (rule length_filter_le)
    moreover have "length (sd_getters s) \<le> length ka" using assms(1) by (simp add: shut_inv_def)
    ultimately show "length (sd_getters s) = length ka" "i < length (sd_getters s)" using assms(2,3) by simp_all
  qed
  have "snd (sd_getters s ! i) = Heard []"
  proof (rule ccontr)
    assume "snd (sd_getters s ! i) \<noteq> Heard []"
    then have "heard s < length (sd_getters s)"
      unfolding heard_def using n(2) by (intro length_filter_less [of "sd_getters s ! i"]) simp_all
    then show False using assms(2) n(1) by simp
  qed
  from inv_getter(1) [OF assms(1,4) n(2) this] show ?thesis using report_empty by (metis getter_ok.simps(3))
qed

text \<open>The check blames a wrong value only if one was returned, and too many values only if every key
  was returned right; it passes only if some key was not reported.\<close>

lemma shut_exact:
  assumes "shut_run E ka va (shut_init E w) s" and "length ka \<le> length va"
  shows "sd_main s = Failed err \<Longrightarrow> \<exists>i < length ka. \<exists>v. returned E ka (\<lambda>_. True) i v \<and> v \<noteq> va ! i"
    and "sd_main s = TooMany \<Longrightarrow> i < length ka \<Longrightarrow> returned E ka (\<lambda>_. True) i (va ! i)"
    and "sd_main s \<noteq> Panic" and "sd_main s = Restored \<Longrightarrow> heard s < length ka"
proof -
  have inv: "shut_inv E ka va (\<lambda>_. True) s"
    by (rule shut_inv_run [OF assms(1) shut_inv_init stays_True assms(2)]) simp
  show "\<exists>i < length ka. \<exists>v. returned E ka (\<lambda>_. True) i v \<and> v \<noteq> va ! i" if f: "sd_main s = Failed err"
  proof -
    from inv f obtain i v where "i < length ka" "returned E ka (\<lambda>_. True) i v" "err = report (ka ! i) (va ! i) v" "err \<noteq> []"
      by (auto simp: shut_inv_def)
    then show ?thesis using report_empty by metis
  qed
  show "returned E ka (\<lambda>_. True) i (va ! i)" if "sd_main s = TooMany" "i < length ka"
    using heard_all [OF inv _ that(2)] inv that(1) by (simp add: shut_inv_def)
  show "sd_main s \<noteq> Panic" "sd_main s = Restored \<Longrightarrow> heard s < length ka" using inv by (auto simp: shut_inv_def)
qed

subsection \<open>The check comes to an end\<close>

lemma all_spawned:
  assumes "sd_main s = Starting xi" and "xi \<le> length ka"
  shows "\<exists>s'. shut_run E ka va s s' \<and> sd_main s' = Selecting"
  using assms
proof (induction "length ka - xi" arbitrary: s xi)
  case 0
  then have "shut_step E ka va s (s\<lparr>sd_main := Selecting\<rparr>)" by (intro shut_step.listen) auto
  then show ?case by (intro exI [of _ "s\<lparr>sd_main := Selecting\<rparr>"]) auto
next
  case (Suc k)
  obtain ck w where mk: "se_MakeClerk E (sd_world s) = (ck, w)" by force
  let ?s = "s\<lparr>sd_world := w, sd_getters := sd_getters s @ [(ck, Calling)], sd_main := Starting (xi + 1)\<rparr>"
  have "shut_step E ka va s ?s" using Suc.hyps(2) by (intro shut_step.spawn [OF Suc.prems(1) _ mk]) simp
  moreover obtain s' where "shut_run E ka va ?s s'" "sd_main s' = Selecting"
    using Suc.hyps(1) [of "xi + 1" ?s] Suc.hyps(2) Suc.prems(2) by fastforce
  ultimately show ?case by (meson converse_rtranclp_into_rtranclp)
qed

definition sending :: "('k, 'w) shut_state \<Rightarrow> nat" where
  "sending s = length (filter (\<lambda>p. \<exists>err. snd p = Sending err) (sd_getters s))"

text \<open>If every value that is returned is right, and some key is not returned while the group is down,
  the check passes.\<close>

definition right_values :: "('k, 'w) shard_env \<Rightarrow> string list \<Rightarrow> string list \<Rightarrow> ('w \<Rightarrow> bool) \<Rightarrow> bool" where
  "right_values E ka va P \<longleftrightarrow> (\<forall>i v. i < length ka \<longrightarrow> returned E ka P i v \<longrightarrow> v = va ! i)"

lemma select_restores:
  assumes "shut_inv E ka va P s" and "sd_main s = Selecting" and "stays E P" and "length ka \<le> length va"
    and "right_values E ka va P" and "j < length ka" and "\<forall>v. \<not> returned E ka P j v"
  shows "\<exists>s'. shut_run E ka va s s' \<and> sd_main s' = Restored"
  using assms(1,2)
proof (induction "sending s" arbitrary: s)
  case 0
  then have "\<forall>(ck, g) \<in> set (sd_getters s). \<forall>err. g \<noteq> Sending err" by (auto simp: sending_def filter_empty_conv)
  then have t: "shut_step E ka va s (s\<lparr>sd_done := True, sd_main := Counting\<rparr>)" by (rule shut_step.timeout [OF 0(3)])
  have "\<not> heard s \<ge> length ka" using heard_all [OF 0(2) _ assms(6)] 0(3) assms(7) by auto
  then have "\<not> sd_ndone s \<ge> length ka" using 0(2) by (simp add: shut_inv_def)
  then have "shut_step E ka va (s\<lparr>sd_done := True, sd_main := Counting\<rparr>)
      (s\<lparr>sd_done := True, sd_main := Counting, sd_world := se_StartServers E (sd_world s), sd_main := Restored\<rparr>)"
    using shut_step.restore [of "s\<lparr>sd_done := True, sd_main := Counting\<rparr>" ka E va] by simp
  with t have "shut_run E ka va s
      (s\<lparr>sd_done := True, sd_main := Counting, sd_world := se_StartServers E (sd_world s), sd_main := Restored\<rparr>)" by simp
  then show ?case by (intro exI conjI, assumption) simp
next
  case (Suc k)
  have "filter (\<lambda>p. \<exists>err. snd p = Sending err) (sd_getters s) \<noteq> []"
    using Suc.hyps(2) unfolding sending_def by (metis list.size(3) nat.distinct(1))
  then obtain i err where i: "i < length (sd_getters s)" "snd (sd_getters s ! i) = Sending err"
    by (auto simp: filter_empty_conv in_set_conv_nth)
  have "sd_main s \<noteq> Restored" using Suc.prems by simp
  from inv_getter [OF Suc.prems(1) this i] obtain v where v: "i < length ka" "returned E ka P i v" "err = report (ka ! i) (va ! i) v"
    by auto
  then have err: "err = []" using assms(5) report_empty by (metis right_values_def)
  let ?s = "(set_getter i (Heard err) s)\<lparr>sd_ndone := sd_ndone s + 1\<rparr>"
  have st: "shut_step E ka va s ?s" using Suc.prems(2) i err by (rule shut_step.receive_ok)
  have "sending ?s = k"
    using length_filter_update [OF i(1), of "\<lambda>p. \<exists>err. snd p = Sending err" "(fst (sd_getters s ! i), Heard err)"] Suc.hyps(2) i(2)
    by (simp add: sending_def set_getter_def)
  moreover have "shut_inv E ka va P ?s" by (rule shut_inv_step [OF st Suc.prems(1) assms(3,4)])
  ultimately obtain s' where "shut_run E ka va ?s s'" "sd_main s' = Restored"
    using Suc.hyps(1) [of ?s] Suc.prems(2) by auto
  with st show ?case by (meson converse_rtranclp_into_rtranclp)
qed

subsection \<open>Properties\<close>

lemma shut_inv_down:
  assumes "shut_run E ka va (shut_init E w) s" and "length ka \<le> length va" and "down (se_Shutdown E w)" and "stays E down"
  shows "shut_inv E ka va down s"
  using shut_inv_run [OF assms(1) shut_inv_init [of down] assms(4,2)] assms(3) by simp

lemma shut_restores:
  assumes inv: "shut_inv E ka va P s" and P: "stays E P" and len: "length ka \<le> length va"
    and right: "right_values E ka va P" and j: "j < length ka" "\<forall>v. \<not> returned E ka P j v"
  shows "(\<forall>err. sd_main s \<noteq> Failed err) \<and> sd_main s \<noteq> TooMany \<and> sd_main s \<noteq> Panic \<and>
    (\<exists>s'. shut_run E ka va s s' \<and> sd_main s' = Restored)"
proof -
  have not_failed: "sd_main s \<noteq> Failed err" for err
  proof
    assume f: "sd_main s = Failed err"
    from inv f obtain i v where "i < length ka" "returned E ka P i v" "err = report (ka ! i) (va ! i) v" "err \<noteq> []"
      by (auto simp: shut_inv_def)
    with right show False using report_empty by (metis right_values_def)
  qed
  have few: "\<not> length ka \<le> heard s" if "sd_main s \<noteq> Restored" using heard_all [OF inv _ j(1) that] j(2) by blast
  then have not_many: "sd_main s \<noteq> TooMany" using inv by (auto simp: shut_inv_def)
  have not_panic: "sd_main s \<noteq> Panic" using inv by (auto simp: shut_inv_def)
  have "\<exists>s'. shut_run E ka va s s' \<and> sd_main s' = Restored"
  proof (cases "sd_main s")
    case (Starting xi)
    then have "xi \<le> length ka" using inv by (simp add: shut_inv_def)
    from all_spawned [OF Starting this, of E va] obtain s1 where s1: "shut_run E ka va s s1" "sd_main s1 = Selecting" by blast
    from select_restores [OF shut_inv_run [OF s1(1) inv P len] s1(2) P len right j] s1(1) show ?thesis
      by (meson rtranclp_trans)
  next
    case Selecting
    from select_restores [OF inv this P len right j] show ?thesis .
  next
    case Counting
    then have "\<not> sd_ndone s \<ge> length ka" using few inv by (simp add: shut_inv_def)
    then have "shut_step E ka va s (s\<lparr>sd_world := se_StartServers E (sd_world s), sd_main := Restored\<rparr>)"
      by (rule shut_step.restore [OF Counting])
    then show ?thesis
      by (intro exI [of _ "s\<lparr>sd_world := se_StartServers E (sd_world s), sd_main := Restored\<rparr>"]) auto
  next
    case Restored
    then show ?thesis by blast
  qed (use not_failed not_many not_panic in simp_all)
  with not_failed not_many not_panic show ?thesis by blast
qed

text \<open>C36. The check accepts a service that really shards its data, whatever the speed of its clerks:
  if a \<open>Get\<close> of a key whose shard belongs to the group that is down does not return, other
  values that are returned are right, and at least one of the keys is in such a shard, then
  \<open>checkShutdownSharding\<close> never fails the test and can always go on to starting the group again.\<close>

theorem checkShutdownSharding_detects:
  assumes "shut_run E ka va (shut_init E w) s" and "length ka \<le> length va"
    and "down (se_Shutdown E w)" and "stays E down" and "right_values E ka va down"
    and "\<forall>ck key w. down w \<longrightarrow> Shards cfg ! nat (Key2Shard key) = g \<longrightarrow> se_Get E ck key w = None"
    and "\<exists>key \<in> set ka. Shards cfg ! nat (Key2Shard key) = g"
  shows "(\<forall>err. sd_main s \<noteq> Failed err) \<and> sd_main s \<noteq> TooMany \<and> sd_main s \<noteq> Panic \<and>
    (\<exists>s'. shut_run E ka va s s' \<and> sd_main s' = Restored)"
proof -
  from assms(7) obtain j where j: "j < length ka" "Shards cfg ! nat (Key2Shard (ka ! j)) = g"
    by (auto simp: in_set_conv_nth)
  have "\<forall>v. \<not> returned E ka down j v" using assms(6) j(2) by (auto simp: returned_def)
  with shut_restores [OF shut_inv_down [OF assms(1-4)] assms(4,2,5) j(1)] show ?thesis by blast
qed

text \<open>Two groups, of which the first, which has the first half of the shards, goes down. A world is
  whether it is down.\<close>

definition split_config :: ShardConfig where
  "split_config = \<lparr>Num = 2, Shards = replicate 6 1 @ replicate 6 2, Groups = [(1, [''s1'']), (2, [''s2''])]\<rparr>"

definition sharded_env :: "(unit, bool) shard_env" where
  "sharded_env = \<lparr>se_Shutdown = (\<lambda>_. True), se_StartServers = (\<lambda>_. False), se_MakeClerk = (\<lambda>w. ((), w)),
     se_Get = (\<lambda>ck key w. if w \<and> Shards split_config ! nat (Key2Shard key) = 1 then None else Some (key, w))\<rparr>"

lemma demo_keys: "Key2Shard ''a'' = 4" "Key2Shard ''e'' = 8"
  by code_simp+

theorem checkShutdownSharding_detects_witness:
  "\<exists>s'. shut_run sharded_env [''a'', ''e''] [''a'', ''e''] (shut_init sharded_env False) s' \<and> sd_main s' = Restored"
proof -
  have "right_values sharded_env [''a'', ''e''] [''a'', ''e''] (\<lambda>w. w)"
    by (auto simp: right_values_def returned_def sharded_env_def less_Suc_eq split: if_splits)
  moreover have "stays sharded_env (\<lambda>w. w)" by (simp add: stays_def sharded_env_def)
  moreover have "Shards split_config ! nat (Key2Shard ''a'') = 1" by (simp add: demo_keys split_config_def nth_append)
  ultimately show ?thesis
    using checkShutdownSharding_detects [OF rtranclp.rtrancl_refl, of "[''a'', ''e'']" "[''a'', ''e'']" "\<lambda>w. w" sharded_env False split_config 1]
    by (simp add: sharded_env_def)
qed

end
