(* ===== verification/Shard_Recover.thy ===== *)
theory Shard_Recover
  imports Shard_Control
begin

section \<open>Recovery from a partitioned controller (shardkv1/test.go)\<close>

text \<open>
  \<open>partitionCtrler\<close> lets a controller make groups join and leave, takes down a group that owns
  shards so that the controller gets stuck in a change, partitions the controller, and starts a
  second one, whose \<open>InitController\<close> has to finish the change. It then judges the recovery by the
  variables \<open>ngid\<close> and \<open>state\<close> that the first controller's goroutine left behind. The goroutine is a
  step function, cut off after any number of steps; a change has two steps, as the next
  configuration is first posted and then becomes the current one. What the second controller
  finds is the posted one.
\<close>

datatype change_state = NoChange | JOIN | LEAVE

datatype recover_error = DidNotRecover Tnum Tnum | NotRecoveredAfter Tgid string

text \<open>The main goroutine's verdict: whether the group that joined has to be removed again.\<close>

definition recovered :: "Tnum \<Rightarrow> change_state \<Rightarrow> Tgid \<Rightarrow> ShardConfig \<Rightarrow> recover_error + bool" where
  "recovered num state ngid cfg =
     (let s = (if state = LEAVE then ''leave'' else ''join'') in
      if sint (Num cfg) \<le> sint num then Inl (DidNotRecover num (Num cfg))
      else let present = IsMember cfg ngid in
        if (state = JOIN \<and> \<not> present) \<or> (state = LEAVE \<and> present) then Inl (NotRecoveredAfter ngid s)
        else Inr (state = JOIN \<and> present))"

subsection \<open>The first controller\<close>

datatype first_pc =
    NewGid
  | SetJoin
  | JoinQuery
  | JoinPosted
  | JoinCheck
  | SetLeave
  | LeaveQuery
  | LeavePosted
  | LeaveCheck
  | Deposed
  | Aborted

record first_ctl =
  f_pc :: first_pc
  f_ngid :: Tgid
  f_next :: Tgid
  f_state :: change_state
  f_cur :: ShardConfig
  f_nxt :: ShardConfig

definition first_init :: "Tgid \<Rightarrow> ShardConfig \<Rightarrow> first_ctl" where
  "first_init n c = \<lparr>f_pc = NewGid, f_ngid = 0, f_next = n, f_state = NoChange, f_cur = c, f_nxt = c\<rparr>"

definition first_step :: "first_ctl \<Rightarrow> first_ctl" where
  "first_step s = (case f_pc s of
      NewGid \<Rightarrow> (case newGid (f_next s) of (g, n) \<Rightarrow> s\<lparr>f_pc := SetJoin, f_ngid := g, f_next := n\<rparr>)
    | SetJoin \<Rightarrow> s\<lparr>f_pc := JoinQuery, f_state := JOIN\<rparr>
    | JoinQuery \<Rightarrow> (case join_config (f_ngid s) (grp_names (f_ngid s)) (f_cur s) of
          Some (Inr newcfg) \<Rightarrow> s\<lparr>f_pc := JoinPosted, f_nxt := newcfg\<rparr>
        | _ \<Rightarrow> s\<lparr>f_pc := Aborted\<rparr>)
    | JoinPosted \<Rightarrow> s\<lparr>f_pc := JoinCheck, f_cur := f_nxt s\<rparr>
    | JoinCheck \<Rightarrow> s\<lparr>f_pc := (if IsMember (f_cur s) (f_ngid s) then SetLeave else Deposed)\<rparr>
    | SetLeave \<Rightarrow> s\<lparr>f_pc := LeaveQuery, f_state := LEAVE\<rparr>
    | LeaveQuery \<Rightarrow> (case leave_config (f_ngid s) (f_cur s) of
          Some (Inr newcfg) \<Rightarrow> s\<lparr>f_pc := LeavePosted, f_nxt := newcfg\<rparr>
        | _ \<Rightarrow> s\<lparr>f_pc := Aborted\<rparr>)
    | LeavePosted \<Rightarrow> s\<lparr>f_pc := LeaveCheck, f_cur := f_nxt s\<rparr>
    | LeaveCheck \<Rightarrow> s\<lparr>f_pc := NewGid\<rparr>
    | Deposed \<Rightarrow> s
    | Aborted \<Rightarrow> s)"

subsection \<open>Where the group is at each point\<close>

definition in_config :: "first_pc \<Rightarrow> bool" where
  "in_config p \<longleftrightarrow> p \<in> {JoinPosted, JoinCheck, SetLeave, LeaveQuery}"

fun state_at :: "first_pc \<Rightarrow> change_state \<Rightarrow> bool" where
  "state_at NewGid st \<longleftrightarrow> st \<noteq> JOIN"
| "state_at SetJoin st \<longleftrightarrow> st \<noteq> JOIN"
| "state_at JoinQuery st \<longleftrightarrow> st = JOIN"
| "state_at JoinPosted st \<longleftrightarrow> st = JOIN"
| "state_at JoinCheck st \<longleftrightarrow> st = JOIN"
| "state_at SetLeave st \<longleftrightarrow> st = JOIN"
| "state_at LeaveQuery st \<longleftrightarrow> st = LEAVE"
| "state_at LeavePosted st \<longleftrightarrow> st = LEAVE"
| "state_at LeaveCheck st \<longleftrightarrow> st = LEAVE"
| "state_at _ st \<longleftrightarrow> False"

text \<open>\<open>k\<close> groups without the one that comes and goes.\<close>

definition first_inv :: "nat \<Rightarrow> first_ctl \<Rightarrow> bool" where
  "first_inv k s \<longleftrightarrow> state_at (f_pc s) (f_state s) \<and> good_cfg (f_next s) (f_cur s) \<and> good_cfg (f_next s) (f_nxt s) \<and>
     (f_pc s \<noteq> NewGid \<longrightarrow> 1 < f_ngid s \<and> f_ngid s < f_next s) \<and>
     (f_ngid s \<in> gids (f_nxt s) \<longleftrightarrow> in_config (f_pc s)) \<and>
     card (gids (f_nxt s)) = (if in_config (f_pc s) then Suc k else k) \<and>
     (if f_pc s = JoinPosted then f_ngid s \<notin> gids (f_cur s)
      else if f_pc s = LeavePosted then f_ngid s \<in> gids (f_cur s) else f_cur s = f_nxt s)"

lemma member_gid:
  assumes "good_cfg n c" and "card (gids c) \<le> NShards"
  shows "IsMember c g \<longleftrightarrow> g \<in> gids c"
proof
  assume "g \<in> gids c"
  then show "IsMember c g"
    using all_members [of c g] assms card_gids [of c] by (auto simp: good_cfg_def valid_config_def wf_config_def)
next
  assume "IsMember c g"
  then show "g \<in> gids c"
    using assms(1) by (auto simp: good_cfg_def valid_config_def assigned_def IsMember_def list_ex_iff gids_def split: if_splits)
qed

lemma first_inv_step:
  assumes "first_inv k s" and "k < NShards"
  shows "first_inv k (first_step s)"
proof (cases "f_pc s")
  case NewGid
  have "1 < f_next s" using assms(1) good_cfg_ids [of "f_next s" "f_nxt s" 1] by (auto simp: first_inv_def good_cfg_def)
  moreover have "f_next s \<notin> gids (f_nxt s)" using assms(1) good_cfg_new by (auto simp: first_inv_def)
  ultimately show ?thesis using NewGid assms(1) good_cfg_mono [of "f_next s" _ "f_next s + 1"]
    by (auto simp: first_step_def first_inv_def newGid_def in_config_def)
next
  case JoinQuery
  with assms(1) have g: "good_cfg (f_next s) (f_cur s)" "f_ngid s \<notin> gids (f_cur s)" "1 < f_ngid s" "f_ngid s < f_next s"
    by (auto simp: first_inv_def in_config_def)
  from good_join [OF this] obtain c' where "join_config (f_ngid s) (grp_names (f_ngid s)) (f_cur s) = Some (Inr c')"
    "good_cfg (f_next s) c'" "gids c' = insert (f_ngid s) (gids (f_cur s))" by metis
  then show ?thesis using JoinQuery assms(1) g(2) by (auto simp: first_step_def first_inv_def in_config_def)
next
  case JoinCheck
  then have "IsMember (f_cur s) (f_ngid s)"
    using assms member_gid [of "f_next s" "f_cur s"] by (auto simp: first_inv_def in_config_def)
  then show ?thesis using JoinCheck assms(1) by (auto simp: first_step_def first_inv_def in_config_def)
next
  case LeaveQuery
  with assms(1) have g: "good_cfg (f_next s) (f_cur s)" "f_ngid s \<in> gids (f_cur s)" "1 < f_ngid s"
    by (auto simp: first_inv_def in_config_def)
  from good_leave [OF this] obtain c' where "leave_config (f_ngid s) (f_cur s) = Some (Inr c')"
    "good_cfg (f_next s) c'" "gids c' = gids (f_cur s) - {f_ngid s}" by metis
  then show ?thesis using LeaveQuery assms(1) g(2) by (auto simp: first_step_def first_inv_def in_config_def)
qed (use assms(1) in \<open>auto simp: first_step_def first_inv_def in_config_def\<close>)

lemma first_inv_run:
  assumes "good_cfg n c" and "card (gids c) < NShards"
  shows "first_inv (card (gids c)) ((first_step ^^ k) (first_init n c))"
proof (induction k)
  case 0
  have "0 \<notin> gids c" using good_cfg_ids [OF assms(1), of 0] by auto
  with assms(1) show ?case by (simp add: first_inv_def first_init_def in_config_def)
next
  case (Suc k)
  then show ?case using first_inv_step assms(2) by simp
qed

subsection \<open>Properties\<close>



end
