(* ===== verification/Services.thy ===== *)
theory Services
  imports Skeletons Shard_Json Raft_Agree
begin

section \<open>Interfaces of the services, and what the skeletons do behind them\<close>

text \<open>
  The messages of the key/value and shard RPCs (\<^verbatim>\<open>kvsrv1/rpc\<close>, \<^verbatim>\<open>shardgrp/shardrpc\<close>), the clerks
  and servers that the labs hand out, the interfaces between them (\<^verbatim>\<open>StateMachine\<close>,
  \<^verbatim>\<open>raftapi.Raft\<close>), the shard controller, the lock, and the small accessors of the harness that
  tests use on groups, servers and configurations. A handler gets the arguments and the reply
  that the RPC library has zeroed, and may change the reply; the skeletons' handlers do not.
\<close>

subsection \<open>Messages\<close>

record PutArgs =
  pa_Key :: string
  pa_Value :: string
  pa_Version :: Tversion

record PutReply =
  pr_Err :: Err

record GetArgs =
  ga_Key :: string

record GetReply =
  gr_Value :: string
  gr_Version :: Tversion
  gr_Err :: Err

record FreezeShardArgs =
  fa_Shard :: Tshid
  fa_Num :: Tnum

record FreezeShardReply =
  fr_State :: "bytes option"
  fr_Num :: Tnum
  fr_Err :: Err

record InstallShardArgs =
  ia_Shard :: Tshid
  ia_State :: "bytes option"
  ia_Num :: Tnum

record InstallShardReply =
  ir_Err :: Err

record DeleteShardArgs =
  da_Shard :: Tshid
  da_Num :: Tnum

record DeleteShardReply =
  dr_Err :: Err

text \<open>The replies as the RPC library makes them.\<close>

definition zero_GetReply :: GetReply where
  "zero_GetReply = \<lparr>gr_Value = [], gr_Version = 0, gr_Err = []\<rparr>"

definition zero_PutReply :: PutReply where
  "zero_PutReply = \<lparr>pr_Err = []\<rparr>"

subsection \<open>Clerks and the lock\<close>

text \<open>A client of the harness is named by its index.\<close>

record kvsrv_Clerk =
  kc_clnt :: nat
  kc_server :: sname

definition kvsrv_MakeClerk :: "nat \<Rightarrow> sname \<Rightarrow> kvsrv_Clerk" where
  "kvsrv_MakeClerk clnt server = \<lparr>kc_clnt = clnt, kc_server = server\<rparr>"

record group_Clerk =
  gc_clnt :: nat
  gc_servers :: "sname list"

definition kvraft_MakeClerk :: "nat \<Rightarrow> sname list \<Rightarrow> group_Clerk" where
  "kvraft_MakeClerk clnt peers = \<lparr>gc_clnt = clnt, gc_servers = peers\<rparr>"

definition shardgrp_MakeClerk :: "nat \<Rightarrow> sname list \<Rightarrow> group_Clerk" where
  "shardgrp_MakeClerk clnt peers = \<lparr>gc_clnt = clnt, gc_servers = peers\<rparr>"

record 'k Lock =
  lk_ck :: 'k

definition MakeLock :: "'k \<Rightarrow> string \<Rightarrow> 'k Lock" where
  "MakeLock ck l = \<lparr>lk_ck = ck\<rparr>"

definition Acquire :: "'k Lock \<Rightarrow> 'w \<Rightarrow> 'w" where
  "Acquire lk w = w"

definition Release :: "'k Lock \<Rightarrow> 'w \<Rightarrow> 'w" where
  "Release lk w = w"

subsection \<open>The shard controller\<close>

text \<open>It has a clerk of the first lab for the server \<open>server-0-0\<close>, where it is to keep its state.\<close>

record ShardCtrler =
  sc_clnt :: nat
  sc_clerk :: kvsrv_Clerk
  sc_killed :: "32 word"

definition MakeShardCtrler :: "nat \<Rightarrow> ShardCtrler" where
  "MakeShardCtrler clnt =
     (let srv = ServerName 0 0 in \<lparr>sc_clnt = clnt, sc_clerk = kvsrv_MakeClerk clnt srv, sc_killed = 0\<rparr>)"

definition InitController :: "ShardCtrler \<Rightarrow> 'w \<Rightarrow> 'w" where
  "InitController sck w = w"

definition InitConfig :: "ShardCtrler \<Rightarrow> ShardConfig \<Rightarrow> 'w \<Rightarrow> 'w" where
  "InitConfig sck cfg w = w"

definition ChangeConfigTo :: "ShardCtrler \<Rightarrow> ShardConfig \<Rightarrow> 'w \<Rightarrow> 'w" where
  "ChangeConfigTo sck new w = w"

text \<open>\<open>None\<close> is nil.\<close>

definition Query :: "ShardCtrler \<Rightarrow> 'w \<Rightarrow> ShardConfig option \<times> 'w" where
  "Query sck w = (None, w)"

record shardkv_Clerk =
  sk_clnt :: nat
  sk_sck :: ShardCtrler

definition shardkv_MakeClerk :: "nat \<Rightarrow> ShardCtrler \<Rightarrow> shardkv_Clerk" where
  "shardkv_MakeClerk clnt sck = \<lparr>sk_clnt = clnt, sk_sck = sck\<rparr>"

subsection \<open>Servers\<close>

text \<open>The interface of a state machine under \<open>rsm\<close>; \<^verbatim>\<open>any\<close> values and byte slices may be nil.\<close>

record ('m, 'a) StateMachine =
  sm_DoOp :: "'a option \<Rightarrow> 'm \<Rightarrow> 'a option \<times> 'm"
  sm_Snapshot :: "'m \<Rightarrow> bytes option"
  sm_Restore :: "bytes option \<Rightarrow> 'm \<Rightarrow> 'm"

text \<open>The state machines of \<^verbatim>\<open>kvraft1\<close> and of \<^verbatim>\<open>shardgrp\<close>: the same skeleton twice.\<close>

definition kv_DoOp :: "'a option \<Rightarrow> KVServer \<Rightarrow> 'a option \<times> KVServer" where
  "kv_DoOp req kv = (None, kv)"

definition kv_Snapshot :: "KVServer \<Rightarrow> bytes option" where
  "kv_Snapshot kv = None"

definition kv_Restore :: "bytes option \<Rightarrow> KVServer \<Rightarrow> KVServer" where
  "kv_Restore data kv = kv"

definition kv_machine :: "(KVServer, 'a) StateMachine" where
  "kv_machine = \<lparr>sm_DoOp = kv_DoOp, sm_Snapshot = kv_Snapshot, sm_Restore = kv_Restore\<rparr>"

definition sg_DoOp :: "'a option \<Rightarrow> KVServer \<Rightarrow> 'a option \<times> KVServer" where
  "sg_DoOp req kv = (None, kv)"

definition sg_Snapshot :: "KVServer \<Rightarrow> bytes option" where
  "sg_Snapshot kv = None"

definition sg_Restore :: "bytes option \<Rightarrow> KVServer \<Rightarrow> KVServer" where
  "sg_Restore data kv = kv"

text \<open>The RPC handlers: the reply and the server as they are after the call.\<close>

definition kvsrv_HandleGet :: "GetArgs \<Rightarrow> GetReply \<Rightarrow> KVServer \<Rightarrow> GetReply \<times> KVServer" where
  "kvsrv_HandleGet a r kv = (r, kv)"

definition kvsrv_HandlePut :: "PutArgs \<Rightarrow> PutReply \<Rightarrow> KVServer \<Rightarrow> PutReply \<times> KVServer" where
  "kvsrv_HandlePut a r kv = (r, kv)"

definition kvraft_HandleGet :: "GetArgs \<Rightarrow> GetReply \<Rightarrow> KVServer \<Rightarrow> GetReply \<times> KVServer" where
  "kvraft_HandleGet a r kv = (r, kv)"

definition kvraft_HandlePut :: "PutArgs \<Rightarrow> PutReply \<Rightarrow> KVServer \<Rightarrow> PutReply \<times> KVServer" where
  "kvraft_HandlePut a r kv = (r, kv)"

definition shardgrp_HandleGet :: "GetArgs \<Rightarrow> GetReply \<Rightarrow> KVServer \<Rightarrow> GetReply \<times> KVServer" where
  "shardgrp_HandleGet a r kv = (r, kv)"

definition shardgrp_HandlePut :: "PutArgs \<Rightarrow> PutReply \<Rightarrow> KVServer \<Rightarrow> PutReply \<times> KVServer" where
  "shardgrp_HandlePut a r kv = (r, kv)"

definition HandleFreezeShard :: "FreezeShardArgs \<Rightarrow> FreezeShardReply \<Rightarrow> KVServer \<Rightarrow> FreezeShardReply \<times> KVServer" where
  "HandleFreezeShard a r kv = (r, kv)"

definition HandleInstallShard :: "InstallShardArgs \<Rightarrow> InstallShardReply \<Rightarrow> KVServer \<Rightarrow> InstallShardReply \<times> KVServer" where
  "HandleInstallShard a r kv = (r, kv)"

definition HandleDeleteShard :: "DeleteShardArgs \<Rightarrow> DeleteShardReply \<Rightarrow> KVServer \<Rightarrow> DeleteShardReply \<times> KVServer" where
  "HandleDeleteShard a r kv = (r, kv)"

definition MakeKVServer :: KVServer where
  "MakeKVServer = \<lparr>kv_me = 0, kv_dead = 0, kv_rsm = None, kv_gid = 0\<rparr>"

definition kvsrv_Kill :: "KVServer \<Rightarrow> KVServer" where
  "kvsrv_Kill kv = kv"

definition sg_Kill :: "KVServer \<Rightarrow> KVServer" where
  "sg_Kill kv = kv\<lparr>kv_dead := 1\<rparr>"

definition sg_killed :: "KVServer \<Rightarrow> bool" where
  "sg_killed kv \<longleftrightarrow> kv_dead kv = 1"

definition RSM_Raft :: "'rf RSM \<Rightarrow> 'rf option" where
  "RSM_Raft rsm = r_rf rsm"

subsection \<open>The Raft interface and the rest of the skeleton peer\<close>

record ('p, 'c) Raft_iface =
  ri_Start :: "'c \<Rightarrow> 'p \<Rightarrow> (int \<times> int \<times> bool) \<times> 'p"
  ri_GetState :: "'p \<Rightarrow> int \<times> bool"
  ri_Snapshot :: "int \<Rightarrow> bytes option \<Rightarrow> 'p \<Rightarrow> 'p"
  ri_PersistBytes :: "pstore \<Rightarrow> 'p \<Rightarrow> nat"
  ri_Kill :: "'p \<Rightarrow> 'p"

definition raft_persist :: "Raft \<Rightarrow> pstore \<Rightarrow> pstore" where
  "raft_persist rf s = s"

definition raft_Snapshot :: "int \<Rightarrow> bytes option \<Rightarrow> Raft \<Rightarrow> Raft" where
  "raft_Snapshot index snap rf = rf"

text \<open>Arguments and reply of the example RPC have no fields.\<close>

definition RequestVote :: "unit \<Rightarrow> unit \<Rightarrow> Raft \<Rightarrow> unit \<times> Raft" where
  "RequestVote a r rf = (r, rf)"

text \<open>\<open>callf\<close> is \<open>Call\<close> on an end; an index out of range panics.\<close>

definition sendRequestVote :: "(ename \<Rightarrow> string \<Rightarrow> unit \<Rightarrow> bool \<times> unit) \<Rightarrow> int \<Rightarrow> unit \<Rightarrow> Raft \<Rightarrow> grp_error + bool \<times> unit" where
  "sendRequestVote callf server a rf =
     andthen (at (rf_peers rf) server) (\<lambda>e. Inr (callf e ''Raft.RequestVote'' a))"

definition skeleton_raft :: "(Raft, 'c) Raft_iface" where
  "skeleton_raft = \<lparr>ri_Start = (\<lambda>c rf. (raft_Start c rf, rf)), ri_GetState = GetState, ri_Snapshot = raft_Snapshot,
     ri_PersistBytes = (\<lambda>s rf. PersistBytes rf s), ri_Kill = raft_Kill\<rparr>"

subsection \<open>Accessors of the harness\<close>

definition group_N :: "'svc ServerGrp \<Rightarrow> nat" where
  "group_N sg = length (srvs sg)"

definition SrvNames :: "'svc ServerGrp \<Rightarrow> string list" where
  "SrvNames sg = servernames sg"

definition group_Services :: "'svc ServerGrp \<Rightarrow> 'svc option list list" where
  "group_Services sg = fold (\<lambda>s ss. ss @ [svcs s]) (srvs sg) []"

definition GetConnected :: "'svc ServerGrp \<Rightarrow> bool list" where
  "GetConnected sg = connected sg"

definition Server_GetCount :: "'w Server \<Rightarrow> goint" where
  "Server_GetCount rs = sv_count rs"

text \<open>The tester's server around a Raft peer: a nil peer panics.\<close>

definition rfsrv_GetState :: "(Raft, 'c) Raft_iface \<Rightarrow> Raft option \<Rightarrow> (int \<times> bool) option" where
  "rfsrv_GetState ri raft = map_option (ri_GetState ri) raft"

definition rfsrv_Raft :: "'rf option \<Rightarrow> 'rf option" where
  "rfsrv_Raft raft = raft"

definition rfsrv_Logs :: "'c rfsrv \<Rightarrow> int \<Rightarrow> 'c any \<times> bool" where
  "rfsrv_Logs rs i = (case logs rs i of Some v \<Rightarrow> (v, True) | None \<Rightarrow> (None, False))"

definition checkFinished :: "32 word \<Rightarrow> bool" where
  "checkFinished fin = (let z = fin in z \<noteq> 0)"

text \<open>Debug output of two labs: the lines printed. It is switched off.\<close>

definition raft_Debug :: bool where
  "raft_Debug = False"

definition raft_DPrintf :: "string \<Rightarrow> string list" where
  "raft_DPrintf msg = (if raft_Debug then [msg] else [])"

definition kvsrv_Debug :: bool where
  "kvsrv_Debug = False"

definition kvsrv_DPrintf :: "string \<Rightarrow> string list" where
  "kvsrv_DPrintf msg = (if kvsrv_Debug then [msg] else [])"

lemma group_Services_eq: "group_Services sg = map svcs (srvs sg)"
proof -
  have "fold (\<lambda>s ss. ss @ [svcs s]) xs ys = ys @ map svcs xs" for xs :: "'a Srv list" and ys
    by (induction xs arbitrary: ys) simp_all
  then show ?thesis by (simp add: group_Services_def)
qed

text \<open>The controller keeps nothing: a configuration that was written is not there to be read.\<close>

lemma unmodified_controller: "fst (Query sck (ChangeConfigTo sck cfg (InitConfig sck cfg w))) = None"
  by (simp add: Query_def)

text \<open>A lock that is not written excludes nobody: two clients acquire it one after the other.\<close>

lemma unmodified_lock: "Acquire (MakeLock ck2 l) (Acquire (MakeLock ck1 l) w) = w"
  by (simp add: Acquire_def)

end
