(* ===== verification/Lab_Tests.thy ===== *)
theory Lab_Tests
  imports Services Kv_Spawn Test_Config Shard_Tester
begin

section \<open>How the labs set up their tests\<close>

text \<open>
  Each key/value lab has a \<open>Test\<close> around the harness: it makes a \<open>Config\<close> with the lab's servers, and
  makes and deletes the clerks of the lab, each with a client of the harness
  (\<^verbatim>\<open>kvsrv1/test.go\<close>, \<^verbatim>\<open>kvraft1/test.go\<close>, \<^verbatim>\<open>shardkv1/test.go\<close>). \<open>svcOf\<close> is what reflection finds of a
  service, \<open>rnd\<close> and \<open>rnd'\<close> are the random names of ends, \<open>s\<close> is the store of persisters that the
  Raft peers read. The theory shows that deleting a clerk undoes making it, except in the sharded
  lab, and which servers the client of \<open>MakeClerkTo\<close> reaches.
\<close>

text \<open>Making a client, on the network of the configuration.\<close>

definition cf_MakeClientTo :: "sname list option \<Rightarrow> ('svc, 'w) Config \<Rightarrow> cfg_fail + nat \<times> ('svc, 'w) Config" where
  "cf_MakeClientTo names c = (case MakeClientTo names ((cf_clnts c)\<lparr>w_net := cf_net c\<rparr>) of
      Inl e \<Rightarrow> Inl (CClnt e)
    | Inr (k, w) \<Rightarrow> Inr (k, set_net (w_net w) (c\<lparr>cf_clnts := w\<rparr>)))"

definition cf_MakeClient :: "('svc, 'w) Config \<Rightarrow> cfg_fail + nat \<times> ('svc, 'w) Config" where
  "cf_MakeClient c = cf_MakeClientTo None c"

definition cf_DeleteClient :: "nat \<Rightarrow> ('svc, 'w) Config \<Rightarrow> cfg_fail + ('svc, 'w) Config" where
  "cf_DeleteClient k c = on_clnts (DeleteClient k) c"

record 'k TestClerk =
  tk_clerk :: 'k
  tk_Clnt :: nat

subsection \<open>The single key/value server\<close>

type_synonym 'w kv_config = "(service, 'w) Config"

definition MakeTestKV ::
  "(service option \<Rightarrow> 'w Service) \<Rightarrow> (nat \<Rightarrow> nat \<Rightarrow> ename) \<Rightarrow> (int \<Rightarrow> nat \<Rightarrow> ename) \<Rightarrow> bool \<Rightarrow> int \<Rightarrow> Annotation \<Rightarrow>
   cfg_fail + 'w kv_config Test" where
  "MakeTestKV svcOf rnd rnd' rel tm an =
     (case MakeConfig (\<lambda>es g i p. map Some kvsrv_StartKVServer) svcOf rnd rnd' 1 rel tm an of
        Inl e \<Rightarrow> Inl e
      | Inr cfg \<Rightarrow> Inr (MakeTest cfg (cf_ops cfg)))"

definition kvsrv_test_MakeClerk :: "'w kv_config Test \<Rightarrow> cfg_fail + kvsrv_Clerk TestClerk \<times> 'w kv_config Test" where
  "kvsrv_test_MakeClerk ts = (case cf_MakeClient (world ts) of
      Inl e \<Rightarrow> Inl e
    | Inr (clnt, c) \<Rightarrow> (let ck = kvsrv_MakeClerk clnt (ServerName GRP0 0)
        in Inr (\<lparr>tk_clerk = ck, tk_Clnt = clnt\<rparr>, ts\<lparr>world := c\<rparr>)))"

definition kvsrv_test_DeleteClerk :: "kvsrv_Clerk TestClerk \<Rightarrow> 'w kv_config Test \<Rightarrow> cfg_fail + 'w kv_config Test" where
  "kvsrv_test_DeleteClerk ck ts = (case cf_DeleteClient (tk_Clnt ck) (world ts) of
      Inl e \<Rightarrow> Inl e
    | Inr c \<Rightarrow> Inr (ts\<lparr>world := c\<rparr>))"

subsection \<open>The replicated key/value service\<close>

record 'w kvraft_Test =
  kr_test :: "'w kv_config Test"
  kr_part :: string
  kr_nclients :: int
  kr_nservers :: nat
  kr_crash :: bool
  kr_partitions :: bool
  kr_maxraftstate :: int
  kr_randomkeys :: bool

definition makeTitle :: "'w kvraft_Test \<Rightarrow> string" where
  "makeTitle ts =
     (let title = ''Test: '';
          title = (if kr_crash ts then title @ ''restarts, '' else title);
          title = (if kr_partitions ts then title @ ''partitions, '' else title);
          title = (if kr_maxraftstate ts \<noteq> -1 then title @ ''snapshots, '' else title);
          title = (if kr_randomkeys ts then title @ ''random keys, '' else title);
          title = (if kr_nclients ts > 1 then title @ ''many clients'' else title @ ''one client'')
      in title @ '' ('' @ kr_part ts @ '')'')"

definition test_StartKVServer :: "pstore \<Rightarrow> int \<Rightarrow> service mks" where
  "test_StartKVServer s maxraftstate es g i p = map Some (StartKVServer False es g (nat i) p maxraftstate s)"

text \<open>\<open>Begin\<close> on the embedded configuration, whose operation counter is the one of the key/value test.\<close>

definition test_Begin :: "string \<Rightarrow> int \<Rightarrow> 'w kv_config Test \<Rightarrow> 'w kv_config Test" where
  "test_Begin title tm ts = ts\<lparr>world := snd (Begin title tm (world ts)), ops := 0\<rparr>"

definition kvraft_MakeTest ::
  "pstore \<Rightarrow> (service option \<Rightarrow> 'w Service) \<Rightarrow> (nat \<Rightarrow> nat \<Rightarrow> ename) \<Rightarrow> (int \<Rightarrow> nat \<Rightarrow> ename) \<Rightarrow> int \<Rightarrow> Annotation \<Rightarrow>
   string \<Rightarrow> int \<Rightarrow> nat \<Rightarrow> bool \<Rightarrow> bool \<Rightarrow> bool \<Rightarrow> int \<Rightarrow> bool \<Rightarrow> cfg_fail + 'w kvraft_Test" where
  "kvraft_MakeTest s svcOf rnd rnd' tm an part nclients nservers rel crash partitions maxraftstate randomkeys =
     (case MakeConfig (test_StartKVServer s maxraftstate) svcOf rnd rnd' nservers rel tm an of
        Inl e \<Rightarrow> Inl e
      | Inr cfg \<Rightarrow>
          (let ts = \<lparr>kr_test = MakeTest cfg (cf_ops cfg), kr_part = part, kr_nclients = nclients, kr_nservers = nservers,
                     kr_crash = crash, kr_partitions = partitions, kr_maxraftstate = maxraftstate, kr_randomkeys = randomkeys\<rparr>
           in Inr (ts\<lparr>kr_test := test_Begin (makeTitle ts) tm (kr_test ts)\<rparr>)))"

text \<open>A clerk for all servers; with \<open>MakeClerkTo\<close>, one whose client only reaches some of them. A missing
  group is a nil pointer.\<close>

definition kvraft_clerk ::
  "(('svc, 'w) Config \<Rightarrow> cfg_fail + sname list option) \<Rightarrow> ('svc, 'w) Config Test \<Rightarrow>
   cfg_fail + group_Clerk TestClerk \<times> ('svc, 'w) Config Test" where
  "kvraft_clerk allowed ts = (case allowed (world ts) of
      Inl e \<Rightarrow> Inl e
    | Inr ns \<Rightarrow> (case cf_MakeClientTo ns (world ts) of
        Inl e \<Rightarrow> Inl e
      | Inr (clnt, c) \<Rightarrow> (case Config_Group GRP0 c of
          None \<Rightarrow> Inl (CGroup NilGroup)
        | Some sg \<Rightarrow> Inr (\<lparr>tk_clerk = kvraft_MakeClerk clnt (SrvNames sg), tk_Clnt = clnt\<rparr>, ts\<lparr>world := c\<rparr>))))"

definition kvraft_test_MakeClerk :: "('svc, 'w) Config Test \<Rightarrow> cfg_fail + group_Clerk TestClerk \<times> ('svc, 'w) Config Test" where
  "kvraft_test_MakeClerk ts = kvraft_clerk (\<lambda>_. Inr None) ts"

definition MakeClerkTo :: "int list \<Rightarrow> ('svc, 'w) Config Test \<Rightarrow> cfg_fail + group_Clerk TestClerk \<times> ('svc, 'w) Config Test" where
  "MakeClerkTo to ts = kvraft_clerk (\<lambda>c. case Config_Group GRP0 c of
       None \<Rightarrow> Inl (CGroup NilGroup)
     | Some sg \<Rightarrow> map_sum CGroup Some (SrvNamesTo sg to)) ts"

definition kvraft_test_DeleteClerk :: "group_Clerk TestClerk \<Rightarrow> ('svc, 'w) Config Test \<Rightarrow> cfg_fail + ('svc, 'w) Config Test" where
  "kvraft_test_DeleteClerk ck ts = (case cf_DeleteClient (tk_Clnt ck) (world ts) of
      Inl e \<Rightarrow> Inl e
    | Inr c \<Rightarrow> Inr (ts\<lparr>world := c\<rparr>))"

definition kvraft_test_cleanup ::
  "string \<Rightarrow> string \<Rightarrow> bool \<Rightarrow> (string \<times> Continuous) list \<Rightarrow> int \<Rightarrow> int \<Rightarrow> int \<Rightarrow> ('svc, 'w) Config Test \<Rightarrow>
   cfg_fail + (int \<times> nat \<times> int \<times> int) option \<times> vis \<times> ('svc, 'w) Config" where
  "kvraft_test_cleanup vis_enable fpath opened order t t' tm ts =
     kvtest_Cleanup vis_enable fpath opened order t t' tm (world ts)"

subsection \<open>The sharded key/value service\<close>

record 'w shardkv_Test =
  st_test :: "'w kv_config Test"
  st_finfo :: "FrameworkInfo option"
  st_sck :: "ShardCtrler option"
  st_part :: string
  st_partition :: bool
  st_maxraftstate :: int
  st_ngid :: Tgid

definition MakeTestMaxRaft ::
  "(service option \<Rightarrow> 'w Service) \<Rightarrow> (nat \<Rightarrow> nat \<Rightarrow> ename) \<Rightarrow> (int \<Rightarrow> nat \<Rightarrow> ename) \<Rightarrow> int \<Rightarrow> Annotation \<Rightarrow>
   string \<Rightarrow> bool \<Rightarrow> bool \<Rightarrow> int \<Rightarrow> cfg_fail + 'w shardkv_Test" where
  "MakeTestMaxRaft svcOf rnd rnd' tm an part rel parted maxraftstate =
     (case MakeConfig (\<lambda>es g i p. map Some kvsrv_StartKVServer) svcOf rnd rnd' 1 rel tm an of
        Inl e \<Rightarrow> Inl e
      | Inr cfg \<Rightarrow>
          (let a = AnnotateTest part 1 tm \<lparr>annotation = cf_ann cfg, finfo = None\<rparr>;
               kt = MakeTest (cfg\<lparr>cf_ann := annotation a\<rparr>) (cf_ops cfg)
           in Inr \<lparr>st_test = test_Begin part tm kt, st_finfo = finfo a, st_sck = None, st_part = part,
                   st_partition = parted, st_maxraftstate = maxraftstate, st_ngid = 1 + 1\<rparr>))"

definition shardkv_MakeTest where
  "shardkv_MakeTest svcOf rnd rnd' tm an part rel = MakeTestMaxRaft svcOf rnd rnd' tm an part rel False (-1)"

definition MakeTestLeases where
  "MakeTestLeases svcOf rnd rnd' tm an part rel = MakeTestMaxRaft svcOf rnd rnd' tm an part rel True (-1)"

definition makeShardCtrlerClnt :: "('svc, 'w) Config Test \<Rightarrow> cfg_fail + (ShardCtrler \<times> nat) \<times> ('svc, 'w) Config Test" where
  "makeShardCtrlerClnt ts = (case cf_MakeClient (world ts) of
      Inl e \<Rightarrow> Inl e
    | Inr (clnt, c) \<Rightarrow> Inr ((MakeShardCtrler clnt, clnt), ts\<lparr>world := c\<rparr>))"

definition makeShardCtrler :: "('svc, 'w) Config Test \<Rightarrow> cfg_fail + ShardCtrler \<times> ('svc, 'w) Config Test" where
  "makeShardCtrler ts = (case makeShardCtrlerClnt ts of Inl e \<Rightarrow> Inl e | Inr ((ck, _), ts') \<Rightarrow> Inr (ck, ts'))"

definition makeKVClerk :: "('svc, 'w) Config Test \<Rightarrow> cfg_fail + kvsrv_Clerk \<times> ('svc, 'w) Config Test" where
  "makeKVClerk ts = (let srv = ServerName GRP0 0 in
     case cf_MakeClient (world ts) of
       Inl e \<Rightarrow> Inl e
     | Inr (clnt, c) \<Rightarrow> Inr (kvsrv_MakeClerk clnt srv, ts\<lparr>world := c\<rparr>))"

definition shardkv_test_MakeClerk :: "('svc, 'w) Config Test \<Rightarrow> cfg_fail + shardkv_Clerk TestClerk \<times> ('svc, 'w) Config Test" where
  "shardkv_test_MakeClerk ts = (case cf_MakeClient (world ts) of
      Inl e \<Rightarrow> Inl e
    | Inr (clnt, c) \<Rightarrow> (case makeShardCtrler (ts\<lparr>world := c\<rparr>) of
        Inl e \<Rightarrow> Inl e
      | Inr (sck, ts') \<Rightarrow> Inr (\<lparr>tk_clerk = shardkv_MakeClerk clnt sck, tk_Clnt = clnt\<rparr>, ts')))"

definition shardkv_test_DeleteClerk :: "shardkv_Clerk TestClerk \<Rightarrow> ('svc, 'w) Config Test \<Rightarrow> cfg_fail + ('svc, 'w) Config Test" where
  "shardkv_test_DeleteClerk ck ts = (case cf_DeleteClient (tk_Clnt ck) (world ts) of
      Inl e \<Rightarrow> Inl e
    | Inr c \<Rightarrow> Inr (ts\<lparr>world := c\<rparr>))"

definition test_ShardCtrler :: "'w shardkv_Test \<Rightarrow> ShardCtrler option" where
  "test_ShardCtrler ts = st_sck ts"

definition test_StartServerShardGrp :: "pstore \<Rightarrow> 'w shardkv_Test \<Rightarrow> service mks" where
  "test_StartServerShardGrp s ts es g i p = map Some (StartServerShardGrp False es g (nat i) p (st_maxraftstate ts) s)"

text \<open>\<open>isRaft\<close> is as for \<open>Leader\<close>, the search over the services of the group's servers. Despite its name
  the function shuts the leader down.\<close>

definition disconnectClntFromLeader ::
  "('svc option \<Rightarrow> bool option) \<Rightarrow> Tgid \<Rightarrow> ('svc, 'w) Groups \<Rightarrow> st_error option + int \<times> ('svc, 'w) Groups" where
  "disconnectClntFromLeader isRaft g gs = (case map_of (grps gs) g of
      None \<Rightarrow> Inl (Some (GrpError NilGroup))
    | Some sg \<Rightarrow> (case Leader isRaft (enumerate 0 (group_Services sg)) of
        (found, l) \<Rightarrow>
          if \<not> found then Inl None
          else (case on_group g (ShutdownServer (int l)) gs of
            Inl e \<Rightarrow> Inl (Some (GrpError e))
          | Inr gs' \<Rightarrow> Inr (int l, gs'))))"

subsection \<open>Clerks come and go\<close>

text \<open>The registered clients of a test.\<close>

definition test_clerks :: "('svc, 'w) Config Test \<Rightarrow> nat list option" where
  "test_clerks ts = clerks (cf_clnts (world ts))"

definition fresh_client :: "('svc, 'w) Config Test \<Rightarrow> nat" where
  "fresh_client ts = length (w_clnts (cf_clnts (world ts)))"

lemma cf_MakeClientTo_clerks:
  assumes "cf_MakeClientTo names (world ts) = Inr (k, c)"
  shows "k = fresh_client ts" and "\<exists>ks. test_clerks ts = Some ks \<and> clerks (cf_clnts c) = Some (k # ks)"
    and "w_clnts (cf_clnts c) = w_clnts (cf_clnts (world ts)) @ [makeClntTo names]"
    and "fresh_client (ts\<lparr>world := c\<rparr>) = Suc k"
  using assms
  by (auto simp: cf_MakeClientTo_def MakeClientTo_def test_clerks_def fresh_client_def split: option.splits sum.splits)

lemma cf_DeleteClient_clerks:
  assumes "cf_DeleteClient k (world ts) = Inr c" and "test_clerks ts = Some ks" and "k \<in> set ks"
  shows "clerks (cf_clnts c) = Some (filter (\<lambda>x. x \<noteq> k) ks)"
  using assms
  by (auto simp: cf_DeleteClient_def on_clnts_def DeleteClient_def test_clerks_def split: sum.splits)

text \<open>In the labs on one group a clerk that was made and deleted leaves the registered clients as they
  were, whatever the clerk did in between.\<close>

theorem clerk_made_and_deleted:
  assumes "kvraft_test_MakeClerk ts = Inr (ck, ts1)" and "test_clerks ts2 = test_clerks ts1"
    and "kvraft_test_DeleteClerk ck ts2 = Inr ts3" and "test_clerks ts = Some ks" and "\<forall>k \<in> set ks. k < fresh_client ts"
  shows "test_clerks ts3 = Some ks"
proof -
  obtain c where c: "cf_MakeClientTo None (world ts) = Inr (tk_Clnt ck, c)" "ts1 = ts\<lparr>world := c\<rparr>"
    using assms(1) by (auto simp: kvraft_test_MakeClerk_def kvraft_clerk_def split: sum.splits option.splits prod.splits)
  note m = cf_MakeClientTo_clerks [OF c(1)]
  have t2: "test_clerks ts2 = Some (tk_Clnt ck # ks)" using assms(2,4) c(2) m(2) by (auto simp: test_clerks_def)
  obtain c3 where c3: "cf_DeleteClient (tk_Clnt ck) (world ts2) = Inr c3" "ts3 = ts2\<lparr>world := c3\<rparr>"
    using assms(3) by (auto simp: kvraft_test_DeleteClerk_def split: sum.splits)
  have "filter (\<lambda>x. x \<noteq> tk_Clnt ck) ks = ks" using assms(5) m(1) by (auto intro!: filter_True)
  with cf_DeleteClient_clerks [OF c3(1) t2] c3(2) show ?thesis by (simp add: test_clerks_def)
qed

text \<open>In the sharded lab the clerk's controller has a client of its own, which nobody deletes.\<close>

theorem shard_clerk_leaves_client:
  assumes "shardkv_test_MakeClerk ts = Inr (ck, ts1)" and "test_clerks ts2 = test_clerks ts1"
    and "shardkv_test_DeleteClerk ck ts2 = Inr ts3" and "test_clerks ts = Some ks" and "\<forall>k \<in> set ks. k < fresh_client ts"
  shows "test_clerks ts3 = Some (sc_clnt (sk_sck (tk_clerk ck)) # ks)"
proof -
  obtain c c' k' where c: "cf_MakeClientTo None (world ts) = Inr (tk_Clnt ck, c)"
    "cf_MakeClientTo None (world (ts\<lparr>world := c\<rparr>)) = Inr (k', c')" "ts1 = ts\<lparr>world := c'\<rparr>" "sc_clnt (sk_sck (tk_clerk ck)) = k'"
    using assms(1)
    by (auto simp: shardkv_test_MakeClerk_def makeShardCtrler_def makeShardCtrlerClnt_def cf_MakeClient_def
        MakeShardCtrler_def shardkv_MakeClerk_def split: sum.splits prod.splits)
  note m = cf_MakeClientTo_clerks [OF c(1)] and m' = cf_MakeClientTo_clerks [OF c(2)]
  have k': "k' = Suc (tk_Clnt ck)" using m(4) m'(1) by simp
  have t2: "test_clerks ts2 = Some (k' # tk_Clnt ck # ks)"
    using assms(2,4) c(3) m(2) m'(2) by (auto simp: test_clerks_def)
  obtain c3 where c3: "cf_DeleteClient (tk_Clnt ck) (world ts2) = Inr c3" "ts3 = ts2\<lparr>world := c3\<rparr>"
    using assms(3) by (auto simp: shardkv_test_DeleteClerk_def split: sum.splits)
  have "filter (\<lambda>x. x \<noteq> tk_Clnt ck) ks = ks" using assms(5) m(1) by (auto intro!: filter_True)
  with cf_DeleteClient_clerks [OF c3(1) t2] c3(2) k' c(4) show ?thesis by (simp add: test_clerks_def)
qed

subsection \<open>Which servers a restricted client reaches\<close>

lemma restricted_calls:
  assumes "client_calls c0 rn0 rs c rn" and "c_ends c0 = []" and "c_srvs c0 = names"
  shows "c_srvs c = names \<and>
    (\<forall>(s, e) \<in> set (c_ends c). end_exists rn e \<and> connection rn e = Some s \<and> (is_enabled rn e \<longleftrightarrow> allowedL c0 s)) \<and>
    (\<forall>r \<in> set rs. endname r \<in> snd ` set (c_ends c))"
  using assms
proof (induction rule: client_calls.induct)
  case (call c rn rs c1 rn1 name s m a r c2 rn2)
  then obtain e where m: "Clnt_makeEnd name s c1 rn1 = Inr (e, c2, rn2)" and r: "endname r = e"
    by (auto simp: Clnt_Call_def split: sum.splits)
  note IH = call.IH [OF call.prems]
  from m show ?case
  proof (cases rule: Clnt_makeEnd_cases)
    case old
    then have "e \<in> snd ` set (c_ends c2)" by (metis map_of_SomeD image_eqI snd_conv)
    with old IH r show ?thesis by auto
  next
    case new
    have "allowedL c1 s = allowedL c s" using IH call.prems by (simp add: allowedL_def)
    with new IH r show ?thesis by auto
  qed
qed simp

text \<open>Every request of a clerk made by \<open>MakeClerkTo\<close> is sent on an end of its client that is enabled
  exactly if it leads to one of the servers named.\<close>

theorem MakeClerkTo_restricts:
  assumes "MakeClerkTo to ts = Inr (ck, ts1)" and "Config_Group GRP0 (world ts) = Some sg" and "SrvNamesTo sg to = Inr ns"
    and "client_calls (w_clnts (cf_clnts (world ts1)) ! tk_Clnt ck) rn0 rs c rn" and "r \<in> set rs"
  shows "\<exists>s. connection rn (endname r) = Some s \<and> (is_enabled rn (endname r) \<longleftrightarrow> s \<in> set ns)"
proof -
  obtain c1 where c1: "cf_MakeClientTo (Some ns) (world ts) = Inr (tk_Clnt ck, c1)" "ts1 = ts\<lparr>world := c1\<rparr>"
    using assms(1-3) by (auto simp: MakeClerkTo_def kvraft_clerk_def split: sum.splits option.splits prod.splits)
  from cf_MakeClientTo_clerks [OF c1(1)] c1(2)
  have cl: "w_clnts (cf_clnts (world ts1)) ! tk_Clnt ck = makeClntTo (Some ns)" by (simp add: fresh_client_def)
  from restricted_calls [OF assms(4)] cl assms(5)
  have "endname r \<in> snd ` set (c_ends c)"
    "\<forall>(s, e) \<in> set (c_ends c). connection rn e = Some s \<and> (is_enabled rn e \<longleftrightarrow> s \<in> set ns)"
    by (auto simp: makeClntTo_def allowedL_def)
  then show ?thesis by auto
qed

end
