(* ===== verification/Commands.thy ===== *)
theory Commands
  imports Skeletons Go_Json
begin

section \<open>The commands (main)\<close>

text \<open>
  The programs under \<^verbatim>\<open>main\<close>: the MapReduce coordinator and worker with the plugin loader, and the
  commands of earlier years of the course (\<^verbatim>\<open>viewd\<close>, \<^verbatim>\<open>pbd\<close>, \<^verbatim>\<open>pbc\<close>, \<^verbatim>\<open>lockd\<close>, \<^verbatim>\<open>lockc\<close>,
  \<^verbatim>\<open>diskvd\<close>). A command is a function of its arguments, the first of which is the program's name.
  The packages of the old commands (\<^verbatim>\<open>viewservice\<close>, \<^verbatim>\<open>pbservice\<close>, \<^verbatim>\<open>lockservice\<close>,
  \<^verbatim>\<open>diskv\<close>) are not part of the repository: what they do to the world is an argument, and so are the
  plugin files. A program ends with an exit code and its output, or runs for ever.
\<close>

datatype 'w run =
    Exit nat string 'w
  | Forever 'w

definition line :: "string \<Rightarrow> string" where
  "line s = s @ [CHR 0x0A]"

subsection \<open>View service and primary/backup service\<close>

definition viewd :: "(string \<Rightarrow> 'w \<Rightarrow> 'w) \<Rightarrow> string list \<Rightarrow> 'w \<Rightarrow> 'w run" where
  "viewd run_server argv w =
     (if length argv \<noteq> 2 then Exit 1 (line ''Usage: viewd port'') w
      else Forever (run_server (argv ! 1) w))"

definition pbd :: "(string \<Rightarrow> string \<Rightarrow> 'w \<Rightarrow> 'w) \<Rightarrow> string list \<Rightarrow> 'w \<Rightarrow> 'w run" where
  "pbd run_server argv w =
     (if length argv \<noteq> 3 then Exit 1 (line ''Usage: pbd viewport myport'') w
      else Forever (run_server (argv ! 1) (argv ! 2) w))"

record ('k, 'w) pb_service =
  pb_MakeClerk :: "string \<Rightarrow> string \<Rightarrow> 'w \<Rightarrow> 'k \<times> 'w"
  pb_Get :: "'k \<Rightarrow> string \<Rightarrow> 'w \<Rightarrow> string \<times> 'w"
  pb_Put :: "'k \<Rightarrow> string \<Rightarrow> string \<Rightarrow> 'w \<Rightarrow> 'w"

definition pbc_usage :: string where
  "pbc_usage = line ''Usage: pbc viewport key'' @ line ''       pbc viewport key value''"

definition pbc :: "('k, 'w) pb_service \<Rightarrow> string list \<Rightarrow> 'w \<Rightarrow> 'w run" where
  "pbc pb argv w =
     (if length argv = 3 then
        (case pb_MakeClerk pb (argv ! 1) [] w of (ck, w1) \<Rightarrow>
           case pb_Get pb ck (argv ! 2) w1 of (v, w2) \<Rightarrow> Exit 0 (line v) w2)
      else if length argv = 4 then
        (case pb_MakeClerk pb (argv ! 1) [] w of (ck, w1) \<Rightarrow> Exit 0 [] (pb_Put pb ck (argv ! 2) (argv ! 3) w1))
      else Exit 1 pbc_usage w)"

subsection \<open>Lock service\<close>

record ('k, 'w) lock_service =
  lk_StartServer :: "string \<Rightarrow> string \<Rightarrow> bool \<Rightarrow> 'w \<Rightarrow> 'w"
  lk_MakeClerk :: "string \<Rightarrow> string \<Rightarrow> 'w \<Rightarrow> 'k \<times> 'w"
  lk_Lock :: "'k \<Rightarrow> string \<Rightarrow> 'w \<Rightarrow> bool \<times> 'w"
  lk_Unlock :: "'k \<Rightarrow> string \<Rightarrow> 'w \<Rightarrow> bool \<times> 'w"

definition lockd :: "('k, 'w) lock_service \<Rightarrow> string list \<Rightarrow> 'w \<Rightarrow> 'w run" where
  "lockd lk argv w =
     (if length argv = 4 \<and> argv ! 1 = ''-p'' then Forever (lk_StartServer lk (argv ! 2) (argv ! 3) True w)
      else if length argv = 4 \<and> argv ! 1 = ''-b'' then Forever (lk_StartServer lk (argv ! 2) (argv ! 3) False w)
      else Exit 1 (line ''Usage: lockd -p|-b primaryport backupport'') w)"

definition lockc_usage :: string where
  "lockc_usage = line ''Usage: lockc -l|-u primaryport backupport lockname''"

definition show_bool :: "bool \<Rightarrow> string" where
  "show_bool b = (if b then ''true'' else ''false'')"

definition lockc :: "('k, 'w) lock_service \<Rightarrow> string list \<Rightarrow> 'w \<Rightarrow> 'w run" where
  "lockc lk argv w =
     (if length argv = 5 then
        (case lk_MakeClerk lk (argv ! 2) (argv ! 3) w of (ck, w1) \<Rightarrow>
           if argv ! 1 = ''-l'' then
             (case lk_Lock lk ck (argv ! 4) w1 of (okay, w2) \<Rightarrow> Exit 0 (line (''reply: '' @ show_bool okay)) w2)
           else if argv ! 1 = ''-u'' then
             (case lk_Unlock lk ck (argv ! 4) w1 of (okay, w2) \<Rightarrow> Exit 0 (line (''reply: '' @ show_bool okay)) w2)
           else Exit 1 lockc_usage w1)
      else Exit 1 lockc_usage w)"

subsection \<open>diskvd\<close>

text \<open>\<open>strconv.ParseBool\<close>: any other text is false, with an error that the code does not look at.\<close>

definition ParseBool :: "string \<Rightarrow> bool \<times> num_error option" where
  "ParseBool s =
     (if s \<in> {''1'', ''t'', ''T'', ''TRUE'', ''true'', ''True''} then (True, None)
      else if s \<in> {''0'', ''f'', ''F'', ''FALSE'', ''false'', ''False''} then (False, None)
      else (False, Some ErrSyntax))"

record diskv_opts =
  o_gid :: int
  o_masters :: "string list"
  o_replicas :: "string list"
  o_me :: int
  o_unreliable :: bool
  o_dir :: string
  o_restart :: bool

definition diskv_defaults :: diskv_opts where
  "diskv_defaults = \<lparr>o_gid = -1, o_masters = [], o_replicas = [], o_me = -1, o_unreliable = False, o_dir = [], o_restart = False\<rparr>"

definition diskv_flag :: "string \<Rightarrow> string \<Rightarrow> diskv_opts \<Rightarrow> diskv_opts option" where
  "diskv_flag a0 a1 s =
     (if a0 = ''-g'' then Some (s\<lparr>o_gid := fst (ParseInt a1)\<rparr>)
      else if a0 = ''-m'' then Some (s\<lparr>o_masters := o_masters s @ [a1]\<rparr>)
      else if a0 = ''-s'' then Some (s\<lparr>o_replicas := o_replicas s @ [a1]\<rparr>)
      else if a0 = ''-i'' then Some (s\<lparr>o_me := fst (ParseInt a1)\<rparr>)
      else if a0 = ''-u'' then Some (s\<lparr>o_unreliable := fst (ParseBool a1)\<rparr>)
      else if a0 = ''-d'' then Some (s\<lparr>o_dir := a1\<rparr>)
      else if a0 = ''-r'' then Some (s\<lparr>o_restart := fst (ParseBool a1)\<rparr>)
      else None)"

text \<open>The loop over the arguments in steps of two; \<open>None\<close> is a call of \<open>usage\<close>, which ends the
  program. An argument that has none behind it is not looked at.\<close>

fun diskv_loop :: "string list \<Rightarrow> diskv_opts \<Rightarrow> diskv_opts option" where
  "diskv_loop (a0 # a1 # argv) s = (case diskv_flag a0 a1 s of None \<Rightarrow> None | Some s' \<Rightarrow> diskv_loop argv s')"
| "diskv_loop _ s = Some s"

definition diskv_reject :: "diskv_opts \<Rightarrow> bool" where
  "diskv_reject s \<longleftrightarrow> o_gid s < 0 \<or> o_me s < 0 \<or> length (o_masters s) < 1 \<or> o_me s \<ge> int (length (o_replicas s)) \<or> o_dir s = []"

definition diskv_parse :: "string list \<Rightarrow> diskv_opts option" where
  "diskv_parse argv = (case diskv_loop (drop 1 argv) diskv_defaults of
      None \<Rightarrow> None
    | Some s \<Rightarrow> if diskv_reject s then None else Some s)"

definition diskvd_usage :: string where
  "diskvd_usage = line ''Usage: diskvd -g gid -m master... -s server... -i my-index -d dir''"

record ('s, 'w) diskv_service =
  dv_StartServer :: "int \<Rightarrow> string list \<Rightarrow> string list \<Rightarrow> int \<Rightarrow> string \<Rightarrow> bool \<Rightarrow> 'w \<Rightarrow> 's \<times> 'w"
  dv_Setunreliable :: "'s \<Rightarrow> bool \<Rightarrow> 'w \<Rightarrow> 'w"
  dv_Sleep :: "'w \<Rightarrow> 'w"

text \<open>After ten minutes the process kills itself, with the exit status of that signal (137 in a shell).\<close>

definition diskvd :: "('s, 'w) diskv_service \<Rightarrow> string list \<Rightarrow> 'w \<Rightarrow> 'w run" where
  "diskvd dv argv w = (case diskv_parse argv of
      None \<Rightarrow> Exit 1 diskvd_usage w
    | Some s \<Rightarrow> (case dv_StartServer dv (o_gid s) (o_masters s) (o_replicas s) (o_me s) (o_dir s) (o_restart s) w of
        (srv, w1) \<Rightarrow> Exit 137 [] (dv_Sleep dv (dv_Setunreliable dv srv (o_unreliable s) w1))))"

subsection \<open>MapReduce: the plugin, the worker, the coordinator\<close>

text \<open>A symbol of a plugin has a type of its own; using it with another type panics.\<close>

type_synonym mapf = "string \<Rightarrow> string \<Rightarrow> KeyValue list"
type_synonym reducef = "string \<Rightarrow> string list \<Rightarrow> string"

datatype symbol = MapFun mapf | ReduceFun reducef | OtherSymbol

datatype plugin_error = CannotLoad string | CannotFindMap string | CannotFindReduce string | InterfaceConversion string

definition loadPlugin :: "(string \<Rightarrow> (string \<rightharpoonup> symbol) option) \<Rightarrow> string \<Rightarrow> plugin_error + mapf \<times> reducef" where
  "loadPlugin open filename = (case open filename of
      None \<Rightarrow> Inl (CannotLoad filename)
    | Some p \<Rightarrow> (case p ''Map'' of
        None \<Rightarrow> Inl (CannotFindMap filename)
      | Some (MapFun mapf) \<Rightarrow> (case p ''Reduce'' of
            None \<Rightarrow> Inl (CannotFindReduce filename)
          | Some (ReduceFun reducef) \<Rightarrow> Inr (mapf, reducef)
          | Some _ \<Rightarrow> Inl (InterfaceConversion ''Reduce''))
      | Some _ \<Rightarrow> Inl (InterfaceConversion ''Map'')))"

text \<open>\<open>Worker\<close> of the skeleton does nothing. The errors of the loader end the program.\<close>

definition mrworker :: "(string \<Rightarrow> (string \<rightharpoonup> symbol) option) \<Rightarrow> (mapf \<Rightarrow> reducef \<Rightarrow> 'w \<Rightarrow> 'w) \<Rightarrow> string list \<Rightarrow> 'w \<Rightarrow> plugin_error + 'w run" where
  "mrworker open Worker argv w =
     (if length argv \<noteq> 2 then Inr (Exit 1 (line ''Usage: mrworker xxx.so'') w)
      else (case loadPlugin open (argv ! 1) of
        Inl e \<Rightarrow> Inl e
      | Inr (mapf, reducef) \<Rightarrow> Inr (Exit 0 [] (Worker mapf reducef w))))"

text \<open>\<open>mrsequential\<close> has its own copy of the loader, and calls it before it maps the files.\<close>

definition sequential_loadPlugin :: "(string \<Rightarrow> (string \<rightharpoonup> symbol) option) \<Rightarrow> string \<Rightarrow> plugin_error + mapf \<times> reducef" where
  "sequential_loadPlugin open filename = (case open filename of
      None \<Rightarrow> Inl (CannotLoad filename)
    | Some p \<Rightarrow> (case p ''Map'' of
        None \<Rightarrow> Inl (CannotFindMap filename)
      | Some (MapFun mapf) \<Rightarrow> (case p ''Reduce'' of
            None \<Rightarrow> Inl (CannotFindReduce filename)
          | Some (ReduceFun reducef) \<Rightarrow> Inr (mapf, reducef)
          | Some _ \<Rightarrow> Inl (InterfaceConversion ''Reduce''))
      | Some _ \<Rightarrow> Inl (InterfaceConversion ''Map'')))"

lemma same_loader: "sequential_loadPlugin = loadPlugin"
  by (simp add: fun_eq_iff sequential_loadPlugin_def loadPlugin_def)

datatype sequential_error = BadPlugin plugin_error | Failed mr_error

definition mrsequential ::
  "(string \<Rightarrow> (string \<rightharpoonup> symbol) option) \<Rightarrow> (string \<Rightarrow> string option) \<Rightarrow> (KeyValue list \<Rightarrow> KeyValue list) \<Rightarrow> string list \<Rightarrow>
    sequential_error + string" where
  "mrsequential open read srt argv =
     (if length argv < 3 then Inl (Failed Map_Reduce.Usage)
      else (case sequential_loadPlugin open (argv ! 1) of
        Inl e \<Rightarrow> Inl (BadPlugin e)
      | Inr (mapf, reducef) \<Rightarrow> (case main read srt mapf reducef argv of Inl e \<Rightarrow> Inl (Failed e) | Inr out \<Rightarrow> Inr out)))"

text \<open>The coordinator listens on its socket for the RPC \<open>Coordinator.Example\<close>; files and number of
  reduce tasks are not used by the skeleton. A socket that cannot be opened ends the process.\<close>

type_synonym sockets = "string \<rightharpoonup> (string \<rightharpoonup> (goint \<Rightarrow> goint))"

datatype mr_fatal = Dialing | Listening

definition mr_server :: "int \<Rightarrow> bool \<Rightarrow> sockets \<Rightarrow> mr_fatal + sockets" where
  "mr_server uid can_listen socks =
     (let sockname = coordinatorSock uid; socks1 = socks(sockname := None) in
      if \<not> can_listen then Inl Listening else Inr (socks1(sockname \<mapsto> [''Coordinator.Example'' \<mapsto> Example])))"

definition MakeCoordinator :: "string list \<Rightarrow> nat \<Rightarrow> int \<Rightarrow> bool \<Rightarrow> sockets \<Rightarrow> mr_fatal + sockets" where
  "MakeCoordinator files nReduce uid can_listen socks = mr_server uid can_listen socks"

text \<open>The result of \<open>call\<close>: the reply, if the RPC worked.\<close>

definition mr_call :: "int \<Rightarrow> sockets \<Rightarrow> string \<Rightarrow> goint \<Rightarrow> mr_fatal + goint option" where
  "mr_call uid socks rpcname argv = (case socks (coordinatorSock uid) of
      None \<Rightarrow> Inl Dialing
    | Some handlers \<Rightarrow> Inr (map_option (\<lambda>f. f argv) (handlers rpcname)))"

text \<open>\<open>None\<close> is waiting for ever for the job to finish.\<close>

definition mrcoordinator :: "int \<Rightarrow> bool \<Rightarrow> string list \<Rightarrow> sockets \<Rightarrow> (mr_fatal + sockets run) option" where
  "mrcoordinator uid can_listen argv socks =
     (if length argv < 2 then Some (Inr (Exit 1 (line ''Usage: mrcoordinator inputfiles...'') socks))
      else (case MakeCoordinator (drop 1 argv) 10 uid can_listen socks of
        Inl e \<Rightarrow> Some (Inl e)
      | Inr socks' \<Rightarrow> map_option (\<lambda>_. Inr (Exit 0 [] socks')) (await_done 0)))"

subsection \<open>What the arguments of diskvd mean\<close>

definition known_flag :: "string \<Rightarrow> bool" where
  "known_flag f \<longleftrightarrow> f \<in> {''-g'', ''-m'', ''-s'', ''-i'', ''-u'', ''-d'', ''-r''}"

text \<open>The value of the last occurrence of a flag, and all values of a flag in order.\<close>

definition last_of :: "(string \<times> string) list \<Rightarrow> string \<Rightarrow> (string \<Rightarrow> 'a) \<Rightarrow> 'a \<Rightarrow> 'a" where
  "last_of ps f g d = (case map_of (rev ps) f of None \<Rightarrow> d | Some v \<Rightarrow> g v)"

definition all_of :: "(string \<times> string) list \<Rightarrow> string \<Rightarrow> string list" where
  "all_of ps f = map snd (filter (\<lambda>p. fst p = f) ps)"

definition diskv_meaning :: "(string \<times> string) list \<Rightarrow> diskv_opts \<Rightarrow> diskv_opts" where
  "diskv_meaning ps s =
     \<lparr>o_gid = last_of ps ''-g'' (\<lambda>v. fst (ParseInt v)) (o_gid s),
      o_masters = o_masters s @ all_of ps ''-m'',
      o_replicas = o_replicas s @ all_of ps ''-s'',
      o_me = last_of ps ''-i'' (\<lambda>v. fst (ParseInt v)) (o_me s),
      o_unreliable = last_of ps ''-u'' (\<lambda>v. fst (ParseBool v)) (o_unreliable s),
      o_dir = last_of ps ''-d'' (\<lambda>v. v) (o_dir s),
      o_restart = last_of ps ''-r'' (\<lambda>v. fst (ParseBool v)) (o_restart s)\<rparr>"

abbreviation flatten :: "(string \<times> string) list \<Rightarrow> string list" where
  "flatten ps \<equiv> concat (map (\<lambda>(a, b). [a, b]) ps)"

lemma last_of_simps [simp]:
  "last_of [] f g d = d"
  "last_of ((a, v) # ps) f g d = last_of ps f g (if a = f then g v else d)"
  by (auto simp: last_of_def map_add_def split: option.split)

lemma all_of_simps [simp]: "all_of [] f = []" "all_of ((a, v) # ps) f = (if a = f then v # all_of ps f else all_of ps f)"
  by (simp_all add: all_of_def)

lemma diskv_loop_meaning:
  assumes "length rest \<le> 1"
  shows "diskv_loop (flatten ps @ rest) s = (if list_all (\<lambda>p. known_flag (fst p)) ps then Some (diskv_meaning ps s) else None)"
proof (induction ps arbitrary: s)
  case Nil
  show ?case using assms by (cases rest; cases "tl rest") (auto simp: diskv_meaning_def)
next
  case (Cons p ps)
  obtain a v where p: "p = (a, v)" by force
  show ?case
  proof (cases "known_flag a")
    case True
    then obtain s' where "diskv_flag a v s = Some s'" "diskv_meaning ps s' = diskv_meaning ((a, v) # ps) s"
      by (auto simp: known_flag_def diskv_flag_def diskv_meaning_def)
    with Cons.IH [of s'] True p show ?thesis by simp
  next
    case False
    then have "diskv_flag a v s = None" by (simp add: known_flag_def diskv_flag_def)
    with False p show ?thesis by simp
  qed
qed

lemma ParseInt_malformed: "snd (ParseInt a) = Some ErrSyntax \<Longrightarrow> fst (ParseInt a) = 0"
  by (auto simp: ParseInt_def clamp_def split: list.splits if_splits)

subsection \<open>Properties\<close>

text \<open>What \<open>diskvd\<close> does with any command line: it starts the server exactly when every flag is
  known and the resulting options are in range, with the last value of a flag that is given more
  than once and all the ports in their order; a single argument that is left over is ignored, and
  in every other case it only prints its usage and ends.\<close>

theorem diskvd_arguments:
  assumes "length rest \<le> 1"
  shows "diskvd dv (prog # flatten ps @ rest) w =
    (let s = diskv_meaning ps diskv_defaults in
     if list_all (\<lambda>p. known_flag (fst p)) ps \<and> 0 \<le> o_gid s \<and> all_of ps ''-m'' \<noteq> [] \<and>
        0 \<le> o_me s \<and> o_me s < int (length (all_of ps ''-s'')) \<and> o_dir s \<noteq> []
     then (case dv_StartServer dv (o_gid s) (all_of ps ''-m'') (all_of ps ''-s'') (o_me s) (o_dir s) (o_restart s) w of
             (srv, w1) \<Rightarrow> Exit 137 [] (dv_Sleep dv (dv_Setunreliable dv srv (o_unreliable s) w1)))
     else Exit 1 diskvd_usage w)"
proof -
  let ?s = "diskv_meaning ps diskv_defaults"
  have "o_masters ?s = all_of ps ''-m''" "o_replicas ?s = all_of ps ''-s''"
    by (simp_all add: diskv_meaning_def diskv_defaults_def)
  then show ?thesis
    using diskv_loop_meaning [OF assms, of ps diskv_defaults]
    by (auto simp: diskvd_def diskv_parse_def diskv_reject_def Let_def)
qed

definition demo_diskv :: "(int, (int \<times> string list \<times> int) list) diskv_service" where
  "demo_diskv = \<lparr>dv_StartServer = (\<lambda>g ms ss i d r w. (g, w @ [(g, ss, i)])), dv_Setunreliable = (\<lambda>srv u w. w), dv_Sleep = (\<lambda>w. w)\<rparr>"

theorem diskvd_arguments_witness:
  "diskvd demo_diskv [''diskvd'', ''-g'', ''x1'', ''-m'', ''m'', ''-s'', ''a'', ''-s'', ''b'', ''-i'', ''+1'', ''-d'', ''/d'', ''-r''] [] =
    Exit 137 [] [(0, [''a'', ''b''], 1)]"
proof -
  have n: "ParseInt ''x1'' = (0, Some ErrSyntax)" "ParseInt ''+1'' = (1, None)"
    by (simp_all add: ParseInt_def all_digits_def is_digit_def byte_of_def clamp_def value_of_digits_def)
  show ?thesis
    using diskvd_arguments [of "[''-r'']" demo_diskv "''diskvd''"
        "[(''-g'', ''x1''), (''-m'', ''m''), (''-s'', ''a''), (''-s'', ''b''), (''-i'', ''+1''), (''-d'', ''/d'')]" "[]"] n
    by (simp add: diskv_meaning_def diskv_defaults_def known_flag_def demo_diskv_def)
qed

text \<open>A group id or index that is not a number is taken as 0, which is a valid group and a valid
  index: the error of \<open>strconv\<close> is dropped.\<close>

theorem diskvd_ignores_malformed:
  "snd (ParseInt a) = Some ErrSyntax \<Longrightarrow>
    diskv_flag ''-g'' a s = diskv_flag ''-g'' ''0'' s \<and> diskv_flag ''-i'' a s = diskv_flag ''-i'' ''0'' s"
  using ParseInt_malformed [of a]
  by (simp add: diskv_flag_def ParseInt_def all_digits_def is_digit_def byte_of_def clamp_def value_of_digits_def)

text \<open>The example RPC end to end: with the coordinator listening, the worker's \<open>CallExample\<close> prints
  what the handler of the coordinator computes.\<close>

lemma example_rpc:
  assumes "MakeCoordinator files n uid True socks = Inr socks'"
  shows "CallExample (\<lambda>x. case mr_call uid socks' ''Coordinator.Example'' x of Inr y \<Rightarrow> y | Inl e \<Rightarrow> None) = ''reply.Y 100''"
  using assms by (auto simp: MakeCoordinator_def mr_server_def Let_def mr_call_def CallExample_def Example_def)
    (simp add: Itoa_def digits.simps digit_chars digit_chars(2) [unfolded One_nat_def])

text \<open>The coordinator's program never ends by itself: the skeleton's \<open>Done\<close> is false for ever.\<close>

lemma mrcoordinator_waits: "2 \<le> length argv \<Longrightarrow> mrcoordinator uid True argv socks = None"
  by (simp add: mrcoordinator_def MakeCoordinator_def mr_server_def Let_def await_done_stuck)

end
