(* ===== verification/Spec2Isabelle.thy ===== *)
theory Spec2Isabelle
  imports Go_Json Shard_Config Shard_Json Gob Rpc_Net Persist Clients Server_Groups Test_Config Annotations
    Kv_Model Kv_Tester Kv_Spawn Porcupine_Check Raft_Tester Raft_Agree Rsm_Tester Raft_Setup Shard_Tester Shard_Control
    Shard_Shutdown Shard_Recover Map_Reduce Skeletons Services Lab_Tests Commands
begin

text \<open>
  \<^bold>\<open>The code.\<close> The repository holds the laboratory exercises of a course on distributed systems, in Go:
  a simulated network with an RPC layer, a test harness on top of it, and for each laboratory
  (MapReduce, a key/value server, Raft, a replicated and a sharded key/value service) the tests
  and a skeleton that students fill in. The logic that exists at this commit is the harness, the
  tests' own servers and checks, the shard configurations, and the sequential MapReduce with its
  applications. This library models it; paths below are under \<^verbatim>\<open>src/src\<close>.

  \<^bold>\<open>How the parts interact.\<close> A test owns a \<open>Config\<close> (\<^verbatim>\<open>tester1\<close>): one simulated network, the groups of
  servers and the clients. A server has one end to every server of its group, a client makes an
  end to a server when it first calls it; connecting, disconnecting, partitioning and crashing are
  changes to which ends are enabled and which servers are registered with the network. A call on
  an end (\<^verbatim>\<open>labrpc\<close>) is a request that the network delivers, drops or delays; its arguments are
  encoded by \<^verbatim>\<open>labgob\<close>. A server keeps its state in a persister, which survives a crash. The
  key/value tests call a clerk, log what they called and what came back, and have the log checked
  for linearizability against the model of \<^verbatim>\<open>models1\<close>. What happened is annotated for a
  visualizer.

  \<^bold>\<open>The theories\<close>, and what the lemmas of each show:

  \<^item> \<open>Prelude\<close>: Go values in HOL, FNV-1a, the first rune of a string, decimal numbers, association
    lists, loops over a list that may fail (\<open>each\<close>).
  \<^item> \<open>Go_Json\<close>, \<open>Shard_Json\<close>: the text that \<^verbatim>\<open>encoding/json\<close> prints and accepts for the values that the
    tests store, with round trips for every value whose strings are valid UTF-8; a configuration
    stored as text routes every key as before. The locale \<open>json_format\<close> is what clients rely on.
  \<^item> \<open>Shard_Config\<close> (\<^verbatim>\<open>shardkv1/shardcfg/shardcfg.go\<close>): \<open>Rebalance\<close> terminates with an assigned and
    balanced configuration, whatever the order of the map; joins and leaves keep an invariant that
    the tester's \<open>CheckConfig\<close> accepts. Both are instances of the locale \<open>membership_change\<close>.
  \<^item> \<open>Gob\<close> (\<^verbatim>\<open>labgob/labgob.go\<close>): the two checks around \<^verbatim>\<open>encoding/gob\<close>, compared with the set of
    reachable types; termination is by the number of types not yet seen.
  \<^item> \<open>Rpc_Net\<close> (\<^verbatim>\<open>labrpc/labrpc.go\<close>): the tables of the network as a record, the life of a request as
    the step relation \<open>rpc_step\<close>, whose phases are the points of \<open>processReq\<close> and \<open>Call\<close>; handlers run at most once,
    a healthy connection always answers.
  \<^item> \<open>Persist\<close> (\<^verbatim>\<open>tester1/persister.go\<close>): byte slices as references into a heap, because \<open>Copy\<close> shares
    them; a simulation shows that persisters behave as independent pairs of byte strings.
  \<^item> \<open>Clients\<close>, \<open>Server_Groups\<close>, \<open>Test_Config\<close> (\<^verbatim>\<open>tester1/clnts.go\<close>, \<^verbatim>\<open>srv.go\<close>, \<^verbatim>\<open>group.go\<close>, \<^verbatim>\<open>config.go\<close>): which ends
    exist and are enabled after each operation; what a crash keeps; partitions; set-up and
    clean-up of a test.
  \<^item> \<open>Annotations\<close> (\<^verbatim>\<open>tester1/annotation.go\<close>): the log of annotations and the ongoing failure
    annotation, which always describes the servers that are cut off or down.
  \<^item> \<open>Kv_Model\<close> (\<^verbatim>\<open>models1/kv.go\<close>, \<^verbatim>\<open>kvsrv1/rpc/rpc.go\<close>): the model of a key and its partition by key,
    compared with \<open>spec_step\<close>, the contract that the comments of the server give.
  \<^item> \<open>Kv_Tester\<close> (\<^verbatim>\<open>kvtest1/kvtest.go\<close>): the clients of the tests and the checks of their results: if
    the logs linearize, the checks pass. The contract of a clerk is the locale \<open>kv_clerk\<close>.
  \<^item> \<open>Kv_Spawn\<close> (\<^verbatim>\<open>kvtest1/kvtest.go\<close>): \<open>SpawnClientsAndWait\<close>, its goroutines and channels as the step
    relation \<open>spawn_step\<close>: no deadlock if the clients wait for the done signal, one if a client
    does not; and \<open>MakeTest\<close>, \<open>Partitioner\<close>.
  \<^item> \<open>Porcupine_Check\<close> (\<^verbatim>\<open>kvtest1/porcupine.go\<close>): the decision to fail a test and to show its history;
    concurrent calls as the step relation \<open>kv_call\<close>, whose order of effects linearizes the log.
  \<^item> \<open>Raft_Tester\<close> (\<^verbatim>\<open>raft1/server.go\<close>, \<^verbatim>\<open>raft1/test.go\<close>): the tester's servers compare what is committed;
    restarting from a snapshot cannot be observed.
  \<^item> \<open>Raft_Agree\<close> (\<^verbatim>\<open>raft1/test.go\<close>): \<open>one\<close>, \<open>wait\<close> and \<open>checkAgreement\<close>, which poll: what they may answer, and
    bounds on their polls and pauses, for any sequence of what they see.
  \<^item> \<open>Rsm_Tester\<close> (\<^verbatim>\<open>kvraft1/rsm\<close>): the replicated counter with snapshots, and the search for the
    leader.
  \<^item> \<open>Raft_Setup\<close> (\<^verbatim>\<open>raft1/test.go\<close>, \<^verbatim>\<open>kvraft1/rsm/test.go\<close>): set-up, restart and end of the Raft tests: the table of
    the tester's servers against the group and its persisters.
  \<^item> \<open>Shard_Tester\<close> (\<^verbatim>\<open>shardkv1/test.go\<close>): groups that join and leave through the shard controller.
  \<^item> \<open>Shard_Control\<close>, \<open>Shard_Shutdown\<close>, \<open>Shard_Recover\<close> (\<^verbatim>\<open>shardkv1/test.go\<close>): controllers that change the
    configuration concurrently (\<open>worker_step\<close>), goroutines that read while a group is down
    (\<open>shut_step\<close>), and a controller that is cut off in the middle of a change (\<open>first_step\<close>): the
    configuration stays valid, and what the tests conclude from what they see.
  \<^item> \<open>Map_Reduce\<close> (\<^verbatim>\<open>main/mrsequential.go\<close>, \<^verbatim>\<open>mr\<close>, \<^verbatim>\<open>mrapps\<close>): the sequential driver against a
    declarative specification, and the applications end to end.
  \<^item> \<open>Skeletons\<close>, \<open>Services\<close>: what the unmodified laboratories do, and that the tests notice; how a
    server of each laboratory is made from its parts.
  \<^item> \<open>Lab_Tests\<close> (\<^verbatim>\<open>kvsrv1/test.go\<close>, \<^verbatim>\<open>kvraft1/test.go\<close>, \<^verbatim>\<open>shardkv1/test.go\<close>): the set-up of the tests, and what
    making and deleting clerks does to the clients of the harness.
  \<^item> \<open>Commands\<close> (\<^verbatim>\<open>main\<close>): the command lines, with the packages they start as parameters.
\<close>

text \<open>
  \<^bold>\<open>Conventions.\<close> A struct is a record with the fields that the code reads or writes, an error path
  (\<open>log.Fatalf\<close>, \<open>t.Fatalf\<close>, a nil dereference, an index out of range) is the left summand of the
  result. A loop that may not end is a \<open>partial_function (option)\<close>, and its termination is proved
  where it is claimed; no fuel is used. Counters that may wrap are words (versions 64 bits, operation counters 32 bits), and
  bounds on them are hypotheses where they matter. A map that is iterated over is an association
  list in any order; where the order could matter it is an argument, or the statement quantifies
  over it. Randomness (names of ends, draws, who is asked) and clocks are arguments. A method that
  holds its lock throughout is one step.

  \<^bold>\<open>Parameters.\<close> Code outside the repository is an argument: \<^verbatim>\<open>encoding/gob\<close> as a pair of
  functions that round-trip, the \<^verbatim>\<open>porcupine\<close> checker as a function that rejects only histories that
  are not linearizable (an instance that tries all orders is given), the services and clerks under
  test as functions on a state of their own, with their documented contract as a hypothesis.

  \<^bold>\<open>Not modelled.\<close> Goroutines beyond the step relations above, mutexes, channels that only pace a
  test, the length of sleeps and time-outs (a poll loop is given what it sees); printing, files,
  sockets and process signals (where a result depends on them they are arguments); the protocols
  of the laboratories, which have empty bodies at this commit (only the skeletons' code is in
  \<open>Skeletons\<close>); the packages of the old commands, which are not in the repository; the test
  functions themselves.
\<close>

end
